(* ===== verification/Kmorph_Prelude.thy ===== *)
theory Kmorph_Prelude
  imports Main "HOL-Library.Word"
begin

text \<open>
  Shared vocabulary of the kmorph development: machine integers, errno values
  and result types, C strings as character lists, the number conversions of the
  C library that the sources use (\<open>strtoull\<close>, \<open>strtoul\<close>, \<open>strtoll\<close>, decimal and
  hexadecimal printing), and little- and big-endian cells. The lemmas here are
  the ones several components share.
\<close>

unbundle bit_operations_syntax

named_theorems cstring \<open>facts on C string functions\<close>
named_theorems cells \<open>facts on encoded cells\<close>

section \<open>Machine integers and errors\<close>

type_synonym u8 = "8 word"
type_synonym u16 = "16 word"
type_synonym u32 = "32 word"
type_synonym u64 = "64 word"
type_synonym bytes = "u8 list"

text \<open>
  An errno value. The named ones are those the sources compare with or return
  themselves; any other code of the kernel is \<open>Eother\<close> with its number.
\<close>

datatype errno =
    ENOENT | EIO | E2BIG | ENOEXEC | ENOMEM | EBUSY | EEXIST | ENODEV | EINVAL
  | EFBIG | ENOSPC | ERANGE | ENAMETOOLONG | ETIME | EBADMSG | ECONNRESET
  | ETIMEDOUT | EHOSTDOWN | EOPNOTSUPP | Eother int

fun errno_val :: "errno \<Rightarrow> int" where
  "errno_val ENOENT = 2"
| "errno_val EIO = 5"
| "errno_val E2BIG = 7"
| "errno_val ENOEXEC = 8"
| "errno_val ENOMEM = 12"
| "errno_val EBUSY = 16"
| "errno_val EEXIST = 17"
| "errno_val ENODEV = 19"
| "errno_val EINVAL = 22"
| "errno_val EFBIG = 27"
| "errno_val ENOSPC = 28"
| "errno_val ERANGE = 34"
| "errno_val ENAMETOOLONG = 36"
| "errno_val ETIME = 62"
| "errno_val EBADMSG = 74"
| "errno_val ECONNRESET = 104"
| "errno_val ETIMEDOUT = 110"
| "errno_val EHOSTDOWN = 112"
| "errno_val EOPNOTSUPP = 95"
| "errno_val (Eother n) = n"

text \<open>
  A C function that returns a value or a negative errno is \<open>'a res\<close>; one that
  returns 0 or a negative errno beside the state it writes returns an \<open>rc\<close>,
  with \<open>None\<close> for 0.
\<close>

type_synonym 'a res = "errno + 'a"
type_synonym rc = "errno option"

definition rc_val :: "rc \<Rightarrow> int" where
  "rc_val r = (case r of None \<Rightarrow> 0 | Some e \<Rightarrow> - errno_val e)"

text \<open>The allocator: whether a request for so many bytes succeeds.\<close>

type_synonym alloc = "nat \<Rightarrow> bool"

definition always :: alloc where
  "always n = True"

lemma always_simp [simp]: "always n"
  by (simp add: always_def)

text \<open>
  A counted loop whose body returns 0 or an error and that stops at the first
  error: \<open>for (i = 0; i < n; i++) { ret = f(x[i]); if (ret) return ret; }\<close>.
\<close>

fun fold_rc :: "('x \<Rightarrow> 's \<Rightarrow> 'e option \<times> 's) \<Rightarrow> 'x list \<Rightarrow> 's \<Rightarrow> 'e option \<times> 's" where
  "fold_rc f [] s = (None, s)"
| "fold_rc f (x # xs) s = (case f x s of (None, s') \<Rightarrow> fold_rc f xs s' | (Some e, s') \<Rightarrow> (Some e, s'))"

lemma fold_rc_append:
  "fold_rc f (xs @ ys) s = (case fold_rc f xs s of (None, s') \<Rightarrow> fold_rc f ys s' | (Some e, s') \<Rightarrow> (Some e, s'))"
  by (induction xs arbitrary: s) (auto split: prod.split option.split)

text \<open>A sequence of fallible calls, each in the macro \<open>TRY\<close>.\<close>

abbreviation try_all :: "('s \<Rightarrow> 'e option \<times> 's) list \<Rightarrow> 's \<Rightarrow> 'e option \<times> 's" where
  "try_all fs s \<equiv> fold_rc (\<lambda>f s. f s) fs s"

lemma fold_rc_done_Cons:
  "fold_rc f (x # xs) s = (None, s') \<longleftrightarrow> (\<exists>s1. f x s = (None, s1) \<and> fold_rc f xs s1 = (None, s'))"
  by (auto split: prod.splits option.splits)

text \<open>An invariant of the body is one of the loop, whether or not it ran to its end.\<close>

lemma fold_rc_invariant:
  assumes "fold_rc f xs s = (r, s')" and "P s"
    and "\<And>x s r s'. x \<in> set xs \<Longrightarrow> P s \<Longrightarrow> f x s = (r, s') \<Longrightarrow> P s'"
  shows "P s'"
  using assms
proof (induction xs arbitrary: s)
  case Nil
  then show ?case by simp
next
  case (Cons x xs)
  obtain r1 s1 where x: "f x s = (r1, s1)" by fastforce
  have P1: "P s1" using Cons.prems(2,3) x by (meson list.set_intros(1))
  show ?case
  proof (cases r1)
    case None
    then have "fold_rc f xs s1 = (r, s')" using Cons.prems(1) x by simp
    then show ?thesis by (rule Cons.IH [OF _ P1]) (use Cons.prems(3) in auto)
  next
    case (Some e)
    then show ?thesis using Cons.prems(1) P1 x by simp
  qed
qed

lemma word_less_iff_le_pred: "0 < e \<Longrightarrow> x < e \<longleftrightarrow> x \<le> e - (1 :: 'a :: len word)"
  by uint_arith

lemma unat_plus_one: "x \<noteq> - 1 \<Longrightarrow> unat (x + 1) = Suc (unat (x :: 'a :: len word))"
  using unatSuc [of x] by (metis add.commute eq_neg_iff_add_eq_0)

lemma unat_ucast_down:
  "unat v < 2 ^ LENGTH('b) \<Longrightarrow> unat (ucast (v :: 'a :: len word) :: 'b :: len word) = unat v"
  by (simp add: unsigned_ucast_eq take_bit_eq_mod)

lemma unat_ucast_up:
  assumes "LENGTH('a) \<le> LENGTH('b)"
  shows "unat (ucast (v :: 'a :: len word) :: 'b :: len word) = unat v"
proof (rule unat_ucast_down)
  have "unat v < 2 ^ LENGTH('a)" by (rule unsigned_less)
  also have "\<dots> \<le> (2 :: nat) ^ LENGTH('b)" using assms by (simp add: power_increasing)
  finally show "unat v < 2 ^ LENGTH('b)" .
qed

lemma and_not_mask_word: "and v (not (mask n)) = v - take_bit n (v :: 'a :: len word)"
proof -
  have "and v (not (mask n)) = push_bit n (drop_bit n v)"
    by (rule bit_eqI) (auto simp: bit_simps)
  then show ?thesis using bits_ident [of n v] by (simp add: algebra_simps)
qed

lemma unat_and_not_mask: "unat (and v (not (mask n))) = unat (v :: 'a :: len word) div 2 ^ n * 2 ^ n"
proof -
  have t: "unat (take_bit n v) = unat v mod 2 ^ n" by (simp only: unsigned_take_bit_eq) (simp add: take_bit_eq_mod)
  then have "take_bit n v \<le> v" by (simp only: word_le_nat_alt) simp
  then have "unat (v - take_bit n v) = unat v - unat v mod 2 ^ n" by (simp only: unat_sub t)
  then show ?thesis by (simp add: and_not_mask_word minus_mod_eq_div_mult)
qed

lemma unat_add_small: "unat a + unat b < 2 ^ LENGTH('a) \<Longrightarrow> unat (a + b :: 'a :: len word) = unat a + unat b"
  by (simp add: unat_word_ariths)

section \<open>Characters\<close>

definition isdigit :: "char \<Rightarrow> bool" where
  "isdigit c = (48 \<le> (of_char c :: nat) \<and> (of_char c :: nat) \<le> 57)"

definition isspace :: "char \<Rightarrow> bool" where
  "isspace c = ((of_char c :: nat) = 32 \<or> (9 \<le> (of_char c :: nat) \<and> (of_char c :: nat) \<le> 13))"

lemma isspace_lit [cstring]:
  "isspace (Char b0 b1 b2 b3 b4 b5 b6 b7) =
     ((of_char (Char b0 b1 b2 b3 b4 b5 b6 b7) :: nat) = 32 \<or>
      (9 \<le> (of_char (Char b0 b1 b2 b3 b4 b5 b6 b7) :: nat) \<and> (of_char (Char b0 b1 b2 b3 b4 b5 b6 b7) :: nat) \<le> 13))"
  by (rule isspace_def)

text \<open>The value of a digit in bases up to 16; 16 for any other character.\<close>

definition digit_val :: "char \<Rightarrow> nat" where
  "digit_val c = (let n = (of_char c :: nat) in
     if 48 \<le> n \<and> n \<le> 57 then n - 48
     else if 97 \<le> n \<and> n \<le> 102 then n - 87
     else if 65 \<le> n \<and> n \<le> 70 then n - 55
     else 16)"

definition isxdigit :: "char \<Rightarrow> bool" where
  "isxdigit c = (digit_val c < 16)"

definition toupper :: "char \<Rightarrow> char" where
  "toupper c = (let n = (of_char c :: nat) in if 97 \<le> n \<and> n \<le> 122 then char_of (n - 32) else c)"

definition digit_char :: "nat \<Rightarrow> char" where
  "digit_char n = (if n < 10 then char_of (48 + n) else char_of (87 + n))"

lemma digit_char_val [simp]: "n < 16 \<Longrightarrow> digit_val (digit_char n) = n"
  by (auto simp: digit_val_def digit_char_def Let_def of_char_of)

lemma isdigit_val: "isdigit c \<longleftrightarrow> digit_val c < 10"
  by (auto simp: isdigit_def digit_val_def Let_def)

lemma isdigit_digit_char [simp]: "n < 16 \<Longrightarrow> isdigit (digit_char n) \<longleftrightarrow> n < 10"
  by (simp add: isdigit_val)

lemma digit_not_space: "digit_val c < 16 \<Longrightarrow> \<not> isspace c"
  by (auto simp: digit_val_def isspace_def Let_def split: if_splits)

section \<open>Printing and reading numbers\<close>

text \<open>The digits of a number, most significant first, as \<open>printf\<close> writes them.\<close>

function num_str :: "nat \<Rightarrow> nat \<Rightarrow> string" where
  "num_str b n = (if b < 2 \<or> n < b then [digit_char n] else num_str b (n div b) @ [digit_char (n mod b)])"
  by pat_completeness auto
termination
  by (relation "measure snd") auto

declare num_str.simps [simp del]

abbreviation dec :: "nat \<Rightarrow> string" where
  "dec \<equiv> num_str 10"

abbreviation hex :: "nat \<Rightarrow> string" where
  "hex \<equiv> num_str 16"

definition dec_int :: "int \<Rightarrow> string" where
  "dec_int i = (if i < 0 then CHR ''-'' # dec (nat (- i)) else dec (nat i))"

text \<open>\<open>%0wx\<close>: padded with zeros on the left to at least \<open>w\<close> digits.\<close>

definition zpad :: "nat \<Rightarrow> string \<Rightarrow> string" where
  "zpad w s = replicate (w - length s) (CHR ''0'') @ s"

definition num_val :: "nat \<Rightarrow> string \<Rightarrow> nat" where
  "num_val b s = foldl (\<lambda>a c. a * b + digit_val c) 0 s"

lemma num_val_append: "num_val b (s @ [c]) = num_val b s * b + digit_val c"
  by (simp add: num_val_def)

lemma num_val_Nil [simp]: "num_val b [] = 0"
  by (simp add: num_val_def)

lemma num_str_nonempty [simp]: "num_str b n \<noteq> []"
  by (subst num_str.simps) simp

lemma num_val_num_str [simp]:
  assumes "2 \<le> b" and "b \<le> 16"
  shows "num_val b (num_str b n) = n"
  using assms
proof (induction b n rule: num_str.induct)
  case (1 b n)
  show ?case
  proof (cases "n < b")
    case True
    then show ?thesis using "1.prems" by (simp add: num_str.simps [of b n] num_val_def)
  next
    case False
    have "digit_val (digit_char (n mod b)) = n mod b"
      using "1.prems" by (intro digit_char_val less_le_trans [OF mod_less_divisor]) auto
    then show ?thesis
      using "1" False by (simp add: num_str.simps [of b n] num_val_append)
  qed
qed

lemma num_str_digits:
  assumes "2 \<le> b" and "b \<le> 16"
  shows "c \<in> set (num_str b n) \<Longrightarrow> digit_val c < b"
  using assms
proof (induction b n rule: num_str.induct)
  case (1 b n)
  have *: "digit_val (digit_char (n mod b)) < b"
    using "1.prems" by (subst digit_char_val) (auto intro: less_le_trans [OF mod_less_divisor])
  have "n < b \<Longrightarrow> digit_val (digit_char n) < b"
    using "1.prems" by (subst digit_char_val) auto
  then show ?case
    using 1 * by (auto simp: num_str.simps [of b n] split: if_splits)
qed

lemma hd_num_str: "2 \<le> b \<Longrightarrow> b \<le> 16 \<Longrightarrow> digit_val (hd (num_str b n)) < b"
  by (rule num_str_digits [of b _ n]) simp_all

lemma num_val_zeros [simp]: "num_val b (replicate k (CHR ''0'') @ s) = num_val b s"
  by (induction k) (auto simp: num_val_def digit_val_def Let_def)

lemma num_val_zpad [simp]: "num_val b (zpad w s) = num_val b s"
  by (simp add: zpad_def)

text \<open>
  The common core of the \<open>strto*\<close> functions: leading white space, an optional
  sign, an optional \<open>0x\<close> in base 16 when a digit follows it, then the digits.
  The result is the sign, the magnitude and the text after the number;
  \<open>None\<close> when no digit was found.
\<close>

definition scan_sign :: "string \<Rightarrow> bool \<times> string" where
  "scan_sign s = (case s of [] \<Rightarrow> (False, [])
     | c # r \<Rightarrow> if c = CHR ''-'' then (True, r) else if c = CHR ''+'' then (False, r) else (False, s))"

definition scan_prefix :: "nat \<Rightarrow> string \<Rightarrow> string" where
  "scan_prefix b s = (case s of z # x # d # r \<Rightarrow>
       if b = 16 \<and> z = CHR ''0'' \<and> (x = CHR ''x'' \<or> x = CHR ''X'') \<and> digit_val d < b
       then d # r else s
     | _ \<Rightarrow> s)"

definition scan_num :: "nat \<Rightarrow> string \<Rightarrow> (bool \<times> nat \<times> string) option" where
  "scan_num b s =
     (let (neg, s1) = scan_sign (dropWhile isspace s);
          s2 = scan_prefix b s1;
          ds = takeWhile (\<lambda>c. digit_val c < b) s2
      in if ds = [] then None else Some (neg, num_val b ds, dropWhile (\<lambda>c. digit_val c < b) s2))"

text \<open>
  \<open>strtoull\<close> and, on the 64-bit targets, \<open>strtoul\<close>: the value, the text at the
  end pointer, and whether \<open>errno\<close> was set to \<open>ERANGE\<close>. A value too large
  saturates; a negative one is negated modulo $2^{64}$.
\<close>

definition strtoull :: "nat \<Rightarrow> string \<Rightarrow> u64 \<times> string \<times> bool" where
  "strtoull b s = (case scan_num b s of
       None \<Rightarrow> (0, s, False)
     | Some (neg, v, r) \<Rightarrow>
         if v \<ge> 2 ^ 64 then (- 1, r, True)
         else (if neg then - of_nat v else of_nat v, r, False))"

lemma strtoull_code [code]:
  "strtoull b s = (case scan_num b s of
       None \<Rightarrow> (0, s, False)
     | Some (neg, v, r) \<Rightarrow>
         if int v \<ge> 18446744073709551616 then (- 1, r, True)
         else (if neg then - of_nat v else of_nat v, r, False))"
  by (auto simp: strtoull_def split: option.split)

text \<open>\<open>strtoll\<close> and \<open>strtol\<close>: saturating at the ends of the signed range.\<close>

definition strtoll :: "nat \<Rightarrow> string \<Rightarrow> int \<times> string" where
  "strtoll b s = (case scan_num b s of
       None \<Rightarrow> (0, s)
     | Some (neg, v, r) \<Rightarrow>
         (if neg then max (- (2 ^ 63)) (- int v) else min (2 ^ 63 - 1) (int v), r))"

definition stops :: "nat \<Rightarrow> string \<Rightarrow> bool" where
  "stops b r = (r = [] \<or> \<not> digit_val (hd r) < b)"

lemma stops_Nil [simp]: "stops b []"
  by (simp add: stops_def)

lemma stops_Cons [simp]: "stops b (c # r) \<longleftrightarrow> \<not> digit_val c < b"
  by (simp add: stops_def)

lemma takeWhile_digits_append:
  assumes "\<forall>c \<in> set ds. P c" and "r = [] \<or> \<not> P (hd r)"
  shows "takeWhile P (ds @ r) = ds" "dropWhile P (ds @ r) = r"
  using assms by (induction ds) (cases r; auto)+

lemma scan_sign_digit: "digit_val (hd s) < 16 \<Longrightarrow> s \<noteq> [] \<Longrightarrow> scan_sign s = (False, s)"
  by (auto simp: scan_sign_def digit_val_def split: list.splits)

lemma scan_prefix_dec [simp]: "scan_prefix 10 s = s"
  by (auto simp: scan_prefix_def split: list.splits)

lemma scan_num_dec:
  assumes "ds \<noteq> []" and "\<forall>c \<in> set ds. digit_val c < 10" and "stops 10 r"
  shows "scan_num 10 (ds @ r) = Some (False, num_val 10 ds, r)"
proof -
  obtain d ds' where ds: "ds = d # ds'" using assms(1) by (cases ds) auto
  have "\<not> isspace d" using assms(2) ds digit_not_space [of d] by auto
  then have 1: "dropWhile isspace (ds @ r) = ds @ r" by (simp add: ds)
  have 2: "scan_sign (ds @ r) = (False, ds @ r)"
    using assms(2) ds by (intro scan_sign_digit) auto
  note 3 = takeWhile_digits_append [of ds "\<lambda>c. digit_val c < 10" r]
  show ?thesis
    using assms 3 by (simp add: scan_num_def 1 2 stops_def)
qed

lemma dec_digits: "\<forall>c \<in> set (dec n). digit_val c < 10"
  using num_str_digits [of 10 _ n] by simp

lemma dec_isdigit: "c \<in> set (dec n) \<Longrightarrow> isdigit c"
  using dec_digits [of n] by (simp add: isdigit_val)

lemma scan_num_dec_str [cstring]: "stops 10 r \<Longrightarrow> scan_num 10 (dec n @ r) = Some (False, n, r)"
  using scan_num_dec [of "dec n" r] dec_digits [of n] by simp

lemma strtoull_dec [cstring]:
  "n < 2 ^ 64 \<Longrightarrow> stops 10 r \<Longrightarrow> strtoull 10 (dec n @ r) = (of_nat n, r, False)"
  by (simp add: strtoull_def scan_num_dec_str)

section \<open>Joined words\<close>

fun join :: "'a list \<Rightarrow> 'a list list \<Rightarrow> 'a list" where
  "join sep [] = []"
| "join sep [w] = w"
| "join sep (w # w' # ws) = w @ sep @ join sep (w' # ws)"

lemma join_Cons: "join sep (w # ws) = w @ (if ws = [] then [] else sep @ join sep ws)"
  by (cases ws) simp_all

text \<open>The lines of a text: what \<open>strchr\<close> on the line break cuts it into.\<close>

fun split_lines :: "string \<Rightarrow> string list" where
  "split_lines [] = [[]]"
| "split_lines (c # s) =
     (if c = CHR 0x0A then [] # split_lines s
      else case split_lines s of [] \<Rightarrow> [[c]] | l # ls \<Rightarrow> (c # l) # ls)"

lemma split_lines_nonempty [simp]: "split_lines s \<noteq> []"
  by (induction s) (auto split: list.split)

lemma split_lines_one: "CHR 0x0A \<notin> set l \<Longrightarrow> split_lines l = [l]"
  by (induction l) auto

lemma split_lines_append: "CHR 0x0A \<notin> set l \<Longrightarrow> split_lines (l @ CHR 0x0A # s) = l # split_lines s"
  by (induction l) auto

lemma split_lines_join:
  "ls \<noteq> [] \<Longrightarrow> \<forall>l \<in> set ls. CHR 0x0A \<notin> set l \<Longrightarrow> split_lines (join [CHR 0x0A] ls) = ls"
proof (induction ls)
  case (Cons l ls)
  then show ?case by (cases ls) (simp_all add: split_lines_one split_lines_append)
qed simp

section \<open>Reading hexadecimal numbers\<close>

lemma scan_prefix_digits:
  assumes "ds \<noteq> []" and "\<forall>c \<in> set ds. digit_val c < b" and "b \<le> 16" and "r = [] \<or> hd r \<noteq> CHR ''x'' \<and> hd r \<noteq> CHR ''X''"
  shows "scan_prefix b (ds @ r) = ds @ r"
proof -
  have x: "digit_val (CHR ''x'') = 16" "digit_val (CHR ''X'') = 16" by (simp_all add: digit_val_def)
  consider d where "ds = [d]" | d e ds' where "ds = d # e # ds'" by (metis assms(1) list.exhaust)
  then show ?thesis
  proof cases
    case 1
    then show ?thesis using assms(4) by (auto simp: scan_prefix_def split: list.splits)
  next
    case 2
    then have "e \<noteq> CHR ''x''" "e \<noteq> CHR ''X''" using assms(2,3) x by auto
    then show ?thesis using 2 by (auto simp: scan_prefix_def split: list.splits)
  qed
qed

lemma scan_num_digits:
  assumes "ds \<noteq> []" and "\<forall>c \<in> set ds. digit_val c < b" and "b \<le> 16" and "stops b r"
    and "r = [] \<or> hd r \<noteq> CHR ''x'' \<and> hd r \<noteq> CHR ''X''"
  shows "scan_num b (ds @ r) = Some (False, num_val b ds, r)"
proof -
  obtain d ds' where ds: "ds = d # ds'" using assms(1) by (cases ds) auto
  have d: "digit_val d < 16" using assms(2,3) ds by auto
  then have 1: "dropWhile isspace (ds @ r) = ds @ r" using digit_not_space [of d] by (simp add: ds)
  have 2: "scan_sign (ds @ r) = (False, ds @ r)" using d ds by (intro scan_sign_digit) auto
  note 3 = takeWhile_digits_append [of ds "\<lambda>c. digit_val c < b" r]
  show ?thesis
    using assms 3 scan_prefix_digits [OF assms(1,2,3,5)] by (simp add: scan_num_def 1 2 stops_def)
qed

lemma scan_num_0x:
  assumes "ds \<noteq> []" and "\<forall>c \<in> set ds. digit_val c < 16" and "stops 16 r"
  shows "scan_num 16 (''0x'' @ ds @ r) = Some (False, num_val 16 ds, r)"
proof -
  obtain d ds' where ds: "ds = d # ds'" using assms(1) by (cases ds) auto
  have 1: "dropWhile isspace (''0x'' @ ds @ r) = ''0x'' @ ds @ r" by (simp add: isspace_lit)
  have 2: "scan_sign (''0x'' @ ds @ r) = (False, ''0x'' @ ds @ r)" by (simp add: scan_sign_def)
  have 3: "scan_prefix 16 (''0x'' @ ds @ r) = ds @ r" using assms(2) by (simp add: scan_prefix_def ds)
  note 4 = takeWhile_digits_append [of ds "\<lambda>c. digit_val c < 16" r]
  show ?thesis
    using assms 4 unfolding scan_num_def 1 2 prod.case Let_def 3 by (simp add: stops_def)
qed

lemma hex_digits: "\<forall>c \<in> set (hex n). digit_val c < 16"
  using num_str_digits [of 16 _ n] by simp

lemma zpad_digits: "\<forall>c \<in> set s. digit_val c < 16 \<Longrightarrow> \<forall>c \<in> set (zpad w s). digit_val c < 16"
  by (auto simp: zpad_def digit_val_def)

lemma zpad_nonempty [simp]: "s \<noteq> [] \<Longrightarrow> zpad w s \<noteq> []"
  by (simp add: zpad_def)

lemma strtoull_zpad_hex [cstring]:
  assumes "n < 2 ^ 64" and "stops 16 r" and "r = [] \<or> hd r \<noteq> CHR ''x'' \<and> hd r \<noteq> CHR ''X''"
  shows "strtoull 16 (zpad w (hex n) @ r) = (of_nat n, r, False)"
  using scan_num_digits [of "zpad w (hex n)" 16 r] assms hex_digits [of n] zpad_digits [of "hex n" w]
  by (simp add: strtoull_def)

end
