(* ===== verification/Takeover.thy ===== *)
theory Takeover
  imports Kmorph_Prelude "HOL-Library.Sublist"
begin

text \<open>
  The takeover state machine (kmorphd/takeover.c) and the classification of
  probe results (lib/probe.c).  The operations table is a record of functions
  on a context \<open>'c\<close>, which stands for everything the operations act on; the
  machine is parametric in it.  The abstract specification is a protocol
  automaton over the calls the machine makes, and the machine refines it for
  every table of operations and every sequence of events.
\<close>

section \<open>Probes\<close>

datatype probe_result = PROBE_ALIVE | PROBE_SILENT | PROBE_ERROR

definition probe_classify :: "rc \<Rightarrow> probe_result" where
  "probe_classify err =
     (case err of
        None \<Rightarrow> PROBE_ALIVE
      | Some e \<Rightarrow>
          if e = ECONNRESET then PROBE_ALIVE
          else if e = ETIMEDOUT \<or> e = EHOSTDOWN then PROBE_SILENT
          else PROBE_ERROR)"

definition probe_result_name :: "probe_result \<Rightarrow> string" where
  "probe_result_name r =
     (case r of PROBE_ALIVE \<Rightarrow> ''alive'' | PROBE_SILENT \<Rightarrow> ''silent'' | PROBE_ERROR \<Rightarrow> ''error'')"

section \<open>States, events, operations\<close>

datatype takeover_state =
  TK_ARMED | TK_SUSPECT | TK_FENCING | TK_FENCE_FAILED | TK_FENCED | TK_TAKEN_OVER

datatype takeover_event = TK_EV_PROBE_ALIVE | TK_EV_PROBE_SILENT | TK_EV_REQUEST

text \<open>The enumerators compare by their position, which the daemon relies on.\<close>

primrec tk_val :: "takeover_state \<Rightarrow> nat" where
  "tk_val TK_ARMED = 0"
| "tk_val TK_SUSPECT = 1"
| "tk_val TK_FENCING = 2"
| "tk_val TK_FENCE_FAILED = 3"
| "tk_val TK_FENCED = 4"
| "tk_val TK_TAKEN_OVER = 5"

lemma tk_val_inject: "tk_val a = tk_val b \<longleftrightarrow> a = b"
  by (cases a; cases b) simp_all

instantiation takeover_state :: linorder
begin

definition less_eq_takeover_state :: "takeover_state \<Rightarrow> takeover_state \<Rightarrow> bool" where
  "less_eq_takeover_state a b = (tk_val a \<le> tk_val b)"

definition less_takeover_state :: "takeover_state \<Rightarrow> takeover_state \<Rightarrow> bool" where
  "less_takeover_state a b = (tk_val a < tk_val b)"

instance
  by standard (auto simp: less_eq_takeover_state_def less_takeover_state_def tk_val_inject)

end

record 'c takeover =
  tk_state :: takeover_state
  tk_ctx :: 'c
  tk_probe_timeouts :: u32
  tk_fence_retries :: u32
  tk_silent :: u32
  tk_fence_attempts :: u32
  tk_last_error :: rc

record 'c takeover_ops =
  op_fence :: "'c \<Rightarrow> rc \<times> 'c"
  op_adopt :: "'c \<Rightarrow> rc \<times> 'c"
  op_preserve :: "'c \<Rightarrow> rc \<times> 'c"
  op_reap :: "'c \<Rightarrow> rc \<times> 'c"
  op_on_state :: "'c takeover \<Rightarrow> takeover_state \<Rightarrow> 'c"

section \<open>The machine\<close>

definition takeover_init :: "'c \<Rightarrow> u32 \<Rightarrow> u32 \<Rightarrow> 'c takeover" where
  "takeover_init ctx probe_timeouts fence_retries =
     \<lparr>tk_state = TK_ARMED, tk_ctx = ctx, tk_probe_timeouts = probe_timeouts,
      tk_fence_retries = fence_retries, tk_silent = 0, tk_fence_attempts = 0, tk_last_error = None\<rparr>"

definition set_state :: "'c takeover_ops \<Rightarrow> 'c takeover \<Rightarrow> takeover_state \<Rightarrow> 'c takeover" where
  "set_state ops t s =
     (let t = t\<lparr>tk_state := s\<rparr> in t\<lparr>tk_ctx := op_on_state ops t s\<rparr>)"

definition tk_step :: "('c \<Rightarrow> rc \<times> 'c) \<Rightarrow> 'c takeover \<Rightarrow> rc \<times> 'c takeover" where
  "tk_step op t = (let (r, c) = op (tk_ctx t) in (r, t\<lparr>tk_ctx := c, tk_last_error := r\<rparr>))"

definition continue_takeover :: "'c takeover_ops \<Rightarrow> 'c takeover \<Rightarrow> 'c takeover" where
  "continue_takeover ops t =
     (case tk_step (op_adopt ops) t of
        (Some _, t) \<Rightarrow> t
      | (None, t) \<Rightarrow>
          let t = (case tk_step (op_preserve ops) t of
                     (None, t) \<Rightarrow> snd (tk_step (op_reap ops) t)
                   | (Some _, t) \<Rightarrow> t)
          in set_state ops t TK_TAKEN_OVER)"

definition begin_takeover :: "'c takeover_ops \<Rightarrow> 'c takeover \<Rightarrow> 'c takeover" where
  "begin_takeover ops t =
     (let t = set_state ops t TK_FENCING;
          t = t\<lparr>tk_fence_attempts := tk_fence_attempts t + 1\<rparr>
      in case tk_step (op_fence ops) t of
           (Some _, t) \<Rightarrow> set_state ops t TK_FENCE_FAILED
         | (None, t) \<Rightarrow> continue_takeover ops (set_state ops t TK_FENCED))"

definition handle_watching :: "'c takeover_ops \<Rightarrow> 'c takeover \<Rightarrow> takeover_event \<Rightarrow> 'c takeover" where
  "handle_watching ops t ev =
     (case ev of
        TK_EV_PROBE_ALIVE \<Rightarrow>
          let t = t\<lparr>tk_silent := 0\<rparr>
          in if tk_state t \<noteq> TK_ARMED then set_state ops t TK_ARMED else t
      | TK_EV_PROBE_SILENT \<Rightarrow>
          let t = t\<lparr>tk_silent := tk_silent t + 1\<rparr>
          in if tk_silent t \<ge> tk_probe_timeouts t then begin_takeover ops t
             else if tk_state t \<noteq> TK_SUSPECT then set_state ops t TK_SUSPECT else t
      | TK_EV_REQUEST \<Rightarrow> if tk_state t = TK_ARMED then begin_takeover ops t else t)"

definition takeover_handle :: "'c takeover_ops \<Rightarrow> 'c takeover \<Rightarrow> takeover_event \<Rightarrow> 'c takeover" where
  "takeover_handle ops t ev =
     (case tk_state t of
        TK_ARMED \<Rightarrow> handle_watching ops t ev
      | TK_SUSPECT \<Rightarrow> handle_watching ops t ev
      | TK_FENCE_FAILED \<Rightarrow>
          if ev \<noteq> TK_EV_PROBE_ALIVE \<and> tk_fence_attempts t \<le> tk_fence_retries t
          then begin_takeover ops t else t
      | TK_FENCED \<Rightarrow> continue_takeover ops t
      | TK_FENCING \<Rightarrow> t
      | TK_TAKEN_OVER \<Rightarrow> t)"

definition takeover_state_name :: "takeover_state \<Rightarrow> string" where
  "takeover_state_name s =
     [''ARMED'', ''SUSPECT'', ''FENCING'', ''FENCE_FAILED'', ''FENCED'', ''TAKEN_OVER''] ! tk_val s"

definition takeover_run :: "'c takeover_ops \<Rightarrow> 'c takeover \<Rightarrow> takeover_event list \<Rightarrow> 'c takeover" where
  "takeover_run ops t evs = foldl (takeover_handle ops) t evs"

lemma takeover_run_simps [simp]:
  "takeover_run ops t [] = t"
  "takeover_run ops t (ev # evs) = takeover_run ops (takeover_handle ops t ev) evs"
  "takeover_run ops t (evs @ [ev]) = takeover_handle ops (takeover_run ops t evs) ev"
  by (simp_all add: takeover_run_def)

lemma tk_step_eq: "tk_step op t = (r, t') \<longleftrightarrow>
   (\<exists>c. op (tk_ctx t) = (r, c) \<and> t' = t\<lparr>tk_ctx := c, tk_last_error := r\<rparr>)"
  by (auto simp: tk_step_def split: prod.split)

lemma set_state_fields [simp]:
  "tk_state (set_state ops t s) = s"
  "tk_probe_timeouts (set_state ops t s) = tk_probe_timeouts t"
  "tk_fence_retries (set_state ops t s) = tk_fence_retries t"
  "tk_silent (set_state ops t s) = tk_silent t"
  "tk_fence_attempts (set_state ops t s) = tk_fence_attempts t"
  "tk_last_error (set_state ops t s) = tk_last_error t"
  by (simp_all add: set_state_def Let_def)

section \<open>What an operation may do to the context\<close>

text \<open>
  The contract between the machine and its operations, for an invariant of
  the context and a condition that the fence establishes: every operation
  keeps the invariant, the operations that take the machine over are only
  required to do so once the fence holds, and so is the callback for the
  states after it.  The client's result is that the
  machine keeps the invariant, and that the fence holds in \<open>TK_FENCED\<close> and
  \<open>TK_TAKEN_OVER\<close>.
\<close>

locale takeover_actions =
  fixes ops :: "'c takeover_ops"
    and good :: "'c \<Rightarrow> bool"
    and fenced :: "'c \<Rightarrow> bool"
  assumes fence_good: "good c \<Longrightarrow> op_fence ops c = (r, c') \<Longrightarrow> good c' \<and> (r = None \<longrightarrow> fenced c')"
    and adopt_good: "good c \<Longrightarrow> fenced c \<Longrightarrow> op_adopt ops c = (r, c') \<Longrightarrow> good c' \<and> fenced c'"
    and preserve_good: "good c \<Longrightarrow> fenced c \<Longrightarrow> op_preserve ops c = (r, c') \<Longrightarrow> good c' \<and> fenced c'"
    and reap_good: "good c \<Longrightarrow> fenced c \<Longrightarrow> op_reap ops c = (r, c') \<Longrightarrow> good c' \<and> fenced c'"
    and on_state_good: "good (tk_ctx t) \<Longrightarrow> s \<in> {TK_FENCED, TK_TAKEN_OVER} \<longrightarrow> fenced (tk_ctx t) \<Longrightarrow>
      good (op_on_state ops t s) \<and> (fenced (tk_ctx t) \<longrightarrow> fenced (op_on_state ops t s))"
begin

lemma set_state_good:
  "good (tk_ctx t) \<Longrightarrow> s \<in> {TK_FENCED, TK_TAKEN_OVER} \<longrightarrow> fenced (tk_ctx t) \<Longrightarrow> good (tk_ctx (set_state ops t s))"
  "good (tk_ctx t) \<Longrightarrow> fenced (tk_ctx t) \<Longrightarrow> fenced (tk_ctx (set_state ops t s))"
  using on_state_good [of "t\<lparr>tk_state := s\<rparr>" s] by (simp_all add: set_state_def Let_def)

lemma continue_good:
  assumes "good (tk_ctx t)" "fenced (tk_ctx t)"
  shows "good (tk_ctx (continue_takeover ops t)) \<and> fenced (tk_ctx (continue_takeover ops t))"
proof -
  obtain r1 t1 where 1: "tk_step (op_adopt ops) t = (r1, t1)" by fastforce
  obtain r2 t2 where 2: "tk_step (op_preserve ops) t1 = (r2, t2)" by fastforce
  obtain r3 t3 where 3: "tk_step (op_reap ops) t2 = (r3, t3)" by fastforce
  have t1: "good (tk_ctx t1)" "fenced (tk_ctx t1)" using adopt_good [OF assms] 1 by (auto simp: tk_step_eq)
  then have t2: "good (tk_ctx t2)" "fenced (tk_ctx t2)" using preserve_good [of "tk_ctx t1"] 2 by (auto simp: tk_step_eq)
  then have t3: "good (tk_ctx t3)" "fenced (tk_ctx t3)" using reap_good [of "tk_ctx t2"] 3 by (auto simp: tk_step_eq)
  from t1 t2 t3 show ?thesis
    by (simp add: continue_takeover_def 1 2 3 set_state_good split: option.split)
qed

lemma begin_good:
  assumes "good (tk_ctx t)"
  shows "good (tk_ctx (begin_takeover ops t)) \<and>
    (tk_state (begin_takeover ops t) \<noteq> TK_FENCE_FAILED \<longrightarrow> fenced (tk_ctx (begin_takeover ops t)))"
proof -
  let ?t = "set_state ops t TK_FENCING"
  let ?t = "?t\<lparr>tk_fence_attempts := tk_fence_attempts ?t + 1\<rparr>"
  obtain r1 t1 where 1: "tk_step (op_fence ops) ?t = (r1, t1)" by fastforce
  have "good (tk_ctx ?t)" using set_state_good assms by simp
  then have t1: "good (tk_ctx t1)" "r1 = None \<Longrightarrow> fenced (tk_ctx t1)"
    using fence_good [of "tk_ctx ?t"] 1 by (auto simp: tk_step_eq)
  then show ?thesis
    using continue_good [of "set_state ops t1 TK_FENCED"] set_state_good [of t1] 1 [simplified]
    by (cases r1) (simp_all add: begin_takeover_def Let_def)
qed

lemma watching_good:
  assumes "good (tk_ctx t)" and "tk_state t \<in> {TK_ARMED, TK_SUSPECT}"
  shows "good (tk_ctx (handle_watching ops t ev)) \<and>
    (tk_state (handle_watching ops t ev) \<in> {TK_FENCED, TK_TAKEN_OVER} \<longrightarrow> fenced (tk_ctx (handle_watching ops t ev)))"
  using assms begin_good [of t] begin_good [of "t\<lparr>tk_silent := tk_silent t + 1\<rparr>"]
    set_state_good(1) [of "t\<lparr>tk_silent := _\<rparr>"]
  by (cases ev) (auto simp: handle_watching_def Let_def)

lemma handle_good:
  assumes "good (tk_ctx t)" and "tk_state t \<in> {TK_FENCED, TK_TAKEN_OVER} \<longrightarrow> fenced (tk_ctx t)"
  shows "good (tk_ctx (takeover_handle ops t ev)) \<and>
    (tk_state (takeover_handle ops t ev) \<in> {TK_FENCED, TK_TAKEN_OVER} \<longrightarrow> fenced (tk_ctx (takeover_handle ops t ev)))"
  using assms watching_good [of t ev] begin_good [of t] continue_good [of t]
  by (cases "tk_state t") (auto simp: takeover_handle_def)

lemma run_good:
  assumes "good (tk_ctx t)" and "tk_state t \<in> {TK_FENCED, TK_TAKEN_OVER} \<longrightarrow> fenced (tk_ctx t)"
  shows "good (tk_ctx (takeover_run ops t evs)) \<and>
    (tk_state (takeover_run ops t evs) \<in> {TK_FENCED, TK_TAKEN_OVER} \<longrightarrow> fenced (tk_ctx (takeover_run ops t evs)))"
  using assms
proof (induction evs arbitrary: t)
  case (Cons ev evs)
  then show ?case using handle_good [OF Cons.prems, of ev] Cons.IH [of "takeover_handle ops t ev"] by simp
qed simp

end

section \<open>The protocol\<close>

text \<open>
  The specification of the machine: which calls it may make in which order.
  \<open>P_Watch n\<close>: \<open>n\<close> fences failed so far.  A call the protocol does not allow
  has no successor state.
\<close>

datatype action = Fence rc | Adopt rc | Preserve rc | Reap rc

datatype proto = P_Watch nat | P_Fenced | P_Adopted | P_Preserved | P_Done

fun proto_step :: "proto \<Rightarrow> action \<Rightarrow> proto option" where
  "proto_step (P_Watch n) (Fence None) = Some P_Fenced"
| "proto_step (P_Watch n) (Fence (Some e)) = Some (P_Watch (Suc n))"
| "proto_step P_Fenced (Adopt None) = Some P_Adopted"
| "proto_step P_Fenced (Adopt (Some e)) = Some P_Fenced"
| "proto_step P_Adopted (Preserve None) = Some P_Preserved"
| "proto_step P_Adopted (Preserve (Some e)) = Some P_Done"
| "proto_step P_Preserved (Reap r) = Some P_Done"
| "proto_step _ _ = None"

fun proto_run :: "proto \<Rightarrow> action list \<Rightarrow> proto option" where
  "proto_run p [] = Some p"
| "proto_run p (a # as) = (case proto_step p a of None \<Rightarrow> None | Some p' \<Rightarrow> proto_run p' as)"

lemma proto_run_append [simp]:
  "proto_run p (as @ bs) = (case proto_run p as of None \<Rightarrow> None | Some p' \<Rightarrow> proto_run p' bs)"
  by (induction as arbitrary: p) (auto split: option.split)

text \<open>Any table of operations, with a log of its calls and their results kept beside the context.\<close>

definition log_call :: "('c \<Rightarrow> rc \<times> 'c) \<Rightarrow> (rc \<Rightarrow> action) \<Rightarrow> 'c \<times> action list \<Rightarrow> rc \<times> 'c \<times> action list" where
  "log_call op act = (\<lambda>(c, as). let (r, c') = op c in (r, c', as @ [act r]))"

definition erase :: "('c \<times> action list) takeover \<Rightarrow> 'c takeover" where
  "erase t = \<lparr>tk_state = tk_state t, tk_ctx = fst (tk_ctx t), tk_probe_timeouts = tk_probe_timeouts t,
     tk_fence_retries = tk_fence_retries t, tk_silent = tk_silent t,
     tk_fence_attempts = tk_fence_attempts t, tk_last_error = tk_last_error t\<rparr>"

definition logged :: "'c takeover_ops \<Rightarrow> ('c \<times> action list) takeover_ops" where
  "logged ops =
     \<lparr>op_fence = log_call (op_fence ops) Fence, op_adopt = log_call (op_adopt ops) Adopt,
      op_preserve = log_call (op_preserve ops) Preserve, op_reap = log_call (op_reap ops) Reap,
      op_on_state = (\<lambda>t s. (op_on_state ops (erase t) s, snd (tk_ctx t)))\<rparr>"

abbreviation tk_log :: "('c \<times> action list) takeover \<Rightarrow> action list" where
  "tk_log t \<equiv> snd (tk_ctx t)"

text \<open>The log changes nothing of what the machine does.\<close>

lemma erase_set_state [simp]: "erase (set_state (logged ops) t s) = set_state ops (erase t) s"
  by (simp add: set_state_def logged_def erase_def Let_def)

lemma erase_step:
  "tk_step (log_call op act) t = (r, t') \<Longrightarrow> tk_step op (erase t) = (r, erase t')"
  by (cases "tk_ctx t") (auto simp: tk_step_def log_call_def erase_def split: prod.splits)

lemma erase_update [simp]:
  "erase (t\<lparr>tk_silent := n\<rparr>) = (erase t)\<lparr>tk_silent := n\<rparr>"
  "erase (t\<lparr>tk_fence_attempts := n\<rparr>) = (erase t)\<lparr>tk_fence_attempts := n\<rparr>"
  by (simp_all add: erase_def)

lemma erase_fields [simp]:
  "tk_state (erase t) = tk_state t" "tk_silent (erase t) = tk_silent t"
  "tk_fence_attempts (erase t) = tk_fence_attempts t" "tk_probe_timeouts (erase t) = tk_probe_timeouts t"
  "tk_fence_retries (erase t) = tk_fence_retries t"
  by (simp_all add: erase_def)

lemma logged_ops [simp]:
  "op_fence (logged ops) = log_call (op_fence ops) Fence"
  "op_adopt (logged ops) = log_call (op_adopt ops) Adopt"
  "op_preserve (logged ops) = log_call (op_preserve ops) Preserve"
  "op_reap (logged ops) = log_call (op_reap ops) Reap"
  by (simp_all add: logged_def)

lemma erase_continue: "erase (continue_takeover (logged ops) t) = continue_takeover ops (erase t)"
proof -
  obtain r1 t1 where 1: "tk_step (log_call (op_adopt ops) Adopt) t = (r1, t1)" by fastforce
  obtain r2 t2 where 2: "tk_step (log_call (op_preserve ops) Preserve) t1 = (r2, t2)" by fastforce
  obtain r3 t3 where 3: "tk_step (log_call (op_reap ops) Reap) t2 = (r3, t3)" by fastforce
  show ?thesis
    by (simp add: continue_takeover_def 1 2 3 erase_step [OF 1] erase_step [OF 2] erase_step [OF 3]
        split: option.split)
qed

lemma erase_begin: "erase (begin_takeover (logged ops) t) = begin_takeover ops (erase t)"
proof -
  obtain r1 t1 where 1: "tk_step (log_call (op_fence ops) Fence)
      ((set_state (logged ops) t TK_FENCING)\<lparr>tk_fence_attempts := tk_fence_attempts t + 1\<rparr>) = (r1, t1)"
    by fastforce
  show ?thesis
    using erase_step [OF 1]
    by (simp add: begin_takeover_def Let_def 1 erase_continue split: option.split)
qed

lemma erase_handle: "erase (takeover_handle (logged ops) t ev) = takeover_handle ops (erase t) ev"
  by (auto simp: takeover_handle_def handle_watching_def Let_def erase_begin erase_continue
      split: takeover_state.split takeover_event.split)

lemma erase_run: "erase (takeover_run (logged ops) t evs) = takeover_run ops (erase t) evs"
  by (induction evs arbitrary: t) (simp_all add: erase_handle)

section \<open>The machine follows the protocol\<close>

abbreviation tk_proto :: "('c \<times> action list) takeover \<Rightarrow> proto option" where
  "tk_proto t \<equiv> proto_run (P_Watch 0) (tk_log t)"

definition proto_match :: "'c takeover \<Rightarrow> proto \<Rightarrow> bool" where
  "proto_match t p =
     (case p of
        P_Watch n \<Rightarrow>
          if n = 0 then tk_state t \<in> {TK_ARMED, TK_SUSPECT} \<and> tk_fence_attempts t = 0
          else tk_state t = TK_FENCE_FAILED \<and> unat (tk_fence_attempts t) = n \<and> n \<le> unat (tk_fence_retries t) + 1
      | P_Fenced \<Rightarrow> tk_state t = TK_FENCED
      | P_Adopted \<Rightarrow> False
      | P_Preserved \<Rightarrow> False
      | P_Done \<Rightarrow> tk_state t = TK_TAKEN_OVER)"

definition proto_inv :: "('c \<times> action list) takeover \<Rightarrow> bool" where
  "proto_inv t = (case tk_proto t of None \<Rightarrow> False | Some p \<Rightarrow> proto_match t p)"

lemma set_state_log [simp]: "tk_log (set_state (logged ops) t s) = tk_log t"
  by (simp add: set_state_def logged_def Let_def)

lemma step_log: "tk_step (log_call op act) t = (r, t') \<Longrightarrow> tk_log t' = tk_log t @ [act r]"
  by (cases "tk_ctx t") (auto simp: tk_step_def log_call_def split: prod.splits)

lemma step_fields: "tk_step op t = (r, t') \<Longrightarrow>
  tk_state t' = tk_state t \<and> tk_probe_timeouts t' = tk_probe_timeouts t \<and> tk_fence_retries t' = tk_fence_retries t \<and>
  tk_silent t' = tk_silent t \<and> tk_fence_attempts t' = tk_fence_attempts t"
  by (auto simp: tk_step_def split: prod.splits)

lemma continue_proto:
  assumes "tk_proto t = Some P_Fenced" and "tk_state t = TK_FENCED"
  shows "proto_inv (continue_takeover (logged ops) t)"
proof -
  obtain r1 t1 where 1: "tk_step (log_call (op_adopt ops) Adopt) t = (r1, t1)" by fastforce
  obtain r2 t2 where 2: "tk_step (log_call (op_preserve ops) Preserve) t1 = (r2, t2)" by fastforce
  obtain r3 t3 where 3: "tk_step (log_call (op_reap ops) Reap) t2 = (r3, t3)" by fastforce
  show ?thesis
    using assms step_fields [OF 1] step_log [OF 1] step_log [OF 2] step_log [OF 3]
    by (cases r1; cases r2) (simp_all add: continue_takeover_def 1 2 3 proto_inv_def proto_match_def)
qed

lemma begin_proto:
  assumes "tk_proto t = Some (P_Watch n)" and "unat (tk_fence_attempts t) = n"
    and "n \<le> unat (tk_fence_retries t)" and "tk_fence_retries t \<noteq> - 1"
  shows "proto_inv (begin_takeover (logged ops) t)"
proof -
  obtain r1 t1 where 1: "tk_step (log_call (op_fence ops) Fence)
      ((set_state (logged ops) t TK_FENCING)\<lparr>tk_fence_attempts := tk_fence_attempts t + 1\<rparr>) = (r1, t1)"
    by fastforce
  have "tk_fence_attempts t \<noteq> - 1"
    using assms by (metis eq_iff word_le_nat_alt word_order.extremum)
  then have "unat (tk_fence_attempts t + 1) = Suc n"
    using assms(2) by (simp add: unat_plus_one)
  then show ?thesis
    using continue_proto [of "set_state (logged ops) t1 TK_FENCED" ops] assms step_fields [OF 1] step_log [OF 1]
    by (cases r1) (simp_all add: begin_takeover_def Let_def 1 proto_inv_def proto_match_def)
qed

lemma continue_fields:
  "tk_probe_timeouts (continue_takeover ops t) = tk_probe_timeouts t \<and>
   tk_fence_retries (continue_takeover ops t) = tk_fence_retries t \<and>
   tk_silent (continue_takeover ops t) = tk_silent t \<and>
   tk_fence_attempts (continue_takeover ops t) = tk_fence_attempts t"
  by (auto simp: continue_takeover_def tk_step_def split: prod.split option.split)

lemma begin_fields:
  "tk_probe_timeouts (begin_takeover ops t) = tk_probe_timeouts t \<and>
   tk_fence_retries (begin_takeover ops t) = tk_fence_retries t \<and>
   tk_silent (begin_takeover ops t) = tk_silent t \<and>
   tk_fence_attempts (begin_takeover ops t) = tk_fence_attempts t + 1"
  by (auto simp: begin_takeover_def tk_step_def continue_fields Let_def split: prod.split option.split)

lemma handle_fields [simp]:
  "tk_probe_timeouts (takeover_handle ops t ev) = tk_probe_timeouts t"
  "tk_fence_retries (takeover_handle ops t ev) = tk_fence_retries t"
  by (auto simp: takeover_handle_def handle_watching_def Let_def begin_fields continue_fields
      split: takeover_state.split takeover_event.split)

lemma handle_proto:
  assumes "proto_inv t" and "tk_fence_retries t \<noteq> - 1"
  shows "proto_inv (takeover_handle (logged ops) t ev)"
proof -
  obtain p where p: "tk_proto t = Some p" "proto_match t p"
    using assms(1) by (auto simp: proto_inv_def split: option.splits)
  have b: "proto_inv (begin_takeover (logged ops) t)"
    if "unat (tk_fence_attempts t) = n" "p = P_Watch n" "tk_fence_attempts t \<le> tk_fence_retries t" for n
    using begin_proto [of t n ops] p that assms(2) by (simp add: word_le_nat_alt)
  have b': "proto_inv (begin_takeover (logged ops) (t\<lparr>tk_silent := k\<rparr>))" if "p = P_Watch 0" for k
    using begin_proto [of "t\<lparr>tk_silent := k\<rparr>" 0 ops] p that assms(2) by (simp add: proto_match_def)
  have c: "tk_state t = TK_FENCED \<Longrightarrow> proto_inv (continue_takeover (logged ops) t)"
    using continue_proto [of t ops] p by (simp add: proto_match_def split: proto.splits if_splits)
  have w: "p = P_Watch 0" "tk_fence_attempts t = 0" if "tk_state t \<in> {TK_ARMED, TK_SUSPECT}"
    using that p(2) by (auto simp: proto_match_def split: proto.splits if_splits)
  have f: "p = P_Watch (unat (tk_fence_attempts t))" if "tk_state t = TK_FENCE_FAILED"
    using that p(2) by (auto simp: proto_match_def split: proto.splits if_splits)
  have "proto_inv (handle_watching (logged ops) t ev)" if "tk_state t \<in> {TK_ARMED, TK_SUSPECT}"
    using that p w b [of 0] b' by (cases ev) (auto simp: handle_watching_def Let_def proto_inv_def proto_match_def)
  then show ?thesis
    using assms(1) b f c by (cases "tk_state t") (auto simp: takeover_handle_def)
qed

lemma run_proto: "proto_inv t \<Longrightarrow> tk_fence_retries t \<noteq> - 1 \<Longrightarrow> proto_inv (takeover_run (logged ops) t evs)"
  by (induction evs arbitrary: t) (simp_all add: handle_proto)

section \<open>What starts a takeover\<close>

lemma sublist_replicate_skip:
  assumes "k < n" and "y \<noteq> x"
  shows "sublist (replicate n x) (replicate k x @ y # es) \<longleftrightarrow> sublist (replicate n x) es"
  using assms(1)
proof (induction k)
  case 0
  then show ?case using assms(2) by (cases n) (auto simp: sublist_Cons_right)
next
  case (Suc k)
  have "\<not> prefix (replicate n x) (replicate (Suc k) x @ y # es)"
  proof
    assume "prefix (replicate n x) (replicate (Suc k) x @ y # es)"
    then obtain zs where "replicate (Suc k) x @ y # es = replicate n x @ zs" by (auto elim: prefixE)
    then have "(replicate (Suc k) x @ y # es) ! Suc k = (replicate n x @ zs) ! Suc k" by (rule arg_cong)
    then show False
      using Suc.prems assms(2) by (simp only: nth_append length_replicate nth_replicate) simp
  qed
  then show ?case using Suc by (simp add: sublist_Cons_right)
qed

lemma continue_log_grows: "tk_log t \<noteq> [] \<Longrightarrow> tk_log (continue_takeover (logged ops) t) \<noteq> []"
  by (cases "tk_ctx t")
    (auto simp: continue_takeover_def tk_step_def log_call_def set_state_def logged_def Let_def split: prod.splits option.splits)

lemma begin_log: "tk_log (begin_takeover (logged ops) t) \<noteq> []"
proof -
  obtain r1 t1 where 1: "tk_step (log_call (op_fence ops) Fence)
      ((set_state (logged ops) t TK_FENCING)\<lparr>tk_fence_attempts := tk_fence_attempts t + 1\<rparr>) = (r1, t1)"
    by fastforce
  show ?thesis
    using step_log [OF 1]
    by (cases r1) (simp_all add: begin_takeover_def Let_def 1 continue_log_grows)
qed

lemma handle_log_grows: "tk_log t \<noteq> [] \<Longrightarrow> tk_log (takeover_handle (logged ops) t ev) \<noteq> []"
  by (auto simp: takeover_handle_def handle_watching_def Let_def begin_log continue_log_grows split: takeover_state.split takeover_event.split)

lemma run_log_grows: "tk_log t \<noteq> [] \<Longrightarrow> tk_log (takeover_run (logged ops) t evs) \<noteq> []"
  by (induction evs arbitrary: t) (simp_all add: handle_log_grows)

lemma watching_silences:
  assumes "tk_state t \<in> {TK_ARMED, TK_SUSPECT}" and "tk_log t = []"
    and "tk_silent t < tk_probe_timeouts t" and "set evs \<subseteq> {TK_EV_PROBE_ALIVE, TK_EV_PROBE_SILENT}"
  shows "tk_log (takeover_run (logged ops) t evs) = [] \<longleftrightarrow>
    \<not> sublist (replicate (unat (tk_probe_timeouts t)) TK_EV_PROBE_SILENT)
        (replicate (unat (tk_silent t)) TK_EV_PROBE_SILENT @ evs)"
  using assms
proof (induction evs arbitrary: t)
  case Nil
  then show ?case by (auto dest: sublist_length_le simp: word_less_nat_alt)
next
  case (Cons ev evs)
  let ?n = "unat (tk_probe_timeouts t)" and ?k = "unat (tk_silent t)"
  let ?t = "takeover_handle (logged ops) t ev"
  have less: "?k < ?n" using Cons.prems(3) by (simp add: word_less_nat_alt)
  have succ: "unat (tk_silent t + 1) = Suc ?k"
    using Cons.prems(3) by (intro unat_plus_one) auto
  consider (alive) "ev = TK_EV_PROBE_ALIVE" | (silent) "ev = TK_EV_PROBE_SILENT" using Cons.prems(4) by auto
  then show ?case
  proof cases
    case alive
    have "tk_state ?t = TK_ARMED" "tk_log ?t = []" "tk_silent ?t = 0" "tk_probe_timeouts ?t = tk_probe_timeouts t"
      using Cons.prems alive by (auto simp: takeover_handle_def handle_watching_def)
    then show ?thesis
      using Cons.IH [of ?t] Cons.prems alive sublist_replicate_skip [OF less, of TK_EV_PROBE_ALIVE TK_EV_PROBE_SILENT evs]
      by (auto simp: le_less_trans [OF word_zero_le])
  next
    case silent
    have shift: "replicate ?k TK_EV_PROBE_SILENT @ ev # evs = replicate (Suc ?k) TK_EV_PROBE_SILENT @ evs"
      using silent by (simp add: replicate_app_Cons_same)
    show ?thesis
    proof (cases "tk_probe_timeouts t \<le> tk_silent t + 1")
      case True
      then have "?n = Suc ?k" using less succ by (simp add: word_le_nat_alt)
      then have "sublist (replicate ?n TK_EV_PROBE_SILENT) (replicate ?k TK_EV_PROBE_SILENT @ ev # evs)"
        unfolding shift by (simp only: sublist_append_rightI)
      moreover have "tk_log ?t \<noteq> []"
        using Cons.prems(1) silent True by (auto simp: takeover_handle_def handle_watching_def begin_log)
      ultimately show ?thesis using run_log_grows by simp
    next
      case False
      then have "tk_state ?t = TK_SUSPECT" "tk_log ?t = []" "tk_silent ?t = tk_silent t + 1"
          "tk_probe_timeouts ?t = tk_probe_timeouts t"
        using Cons.prems silent by (auto simp: takeover_handle_def handle_watching_def)
      then show ?thesis
        using Cons.IH [of ?t] Cons.prems(4) False succ unfolding shift by (simp add: not_le)
    qed
  qed
qed

lemma continue_done:
  assumes "\<And>c. fst (op_adopt ops c) = None"
  shows "tk_state (continue_takeover ops t) = TK_TAKEN_OVER"
  using assms [of "tk_ctx t"]
  by (auto simp: continue_takeover_def tk_step_def Let_def split: prod.splits option.splits)

lemma begin_done:
  assumes "\<And>c. fst (op_fence ops c) = None" and "\<And>c. fst (op_adopt ops c) = None"
  shows "tk_state (begin_takeover ops t) = TK_TAKEN_OVER"
  using assms(1) [of "op_on_state ops (t\<lparr>tk_state := TK_FENCING\<rparr>) TK_FENCING"] continue_done [of ops, OF assms(2)]
  by (auto simp: begin_takeover_def tk_step_def set_state_def Let_def split: prod.splits option.splits)

lemma logged_never_fails:
  "fst (op_fence (logged ops) c) = fst (op_fence ops (fst c))"
  "fst (op_adopt (logged ops) c) = fst (op_adopt ops (fst c))"
  by (cases c; simp add: log_call_def split: prod.split)+

lemma handle_watch_or_done:
  assumes "\<And>c. fst (op_fence ops c) = None" and "\<And>c. fst (op_adopt ops c) = None"
    and "tk_state t \<in> {TK_ARMED, TK_SUSPECT} \<and> tk_log t = [] \<or> tk_state t = TK_TAKEN_OVER"
  shows "(let t = takeover_handle (logged ops) t ev in
    tk_state t \<in> {TK_ARMED, TK_SUSPECT} \<and> tk_log t = [] \<or> tk_state t = TK_TAKEN_OVER)"
  using assms(3) begin_done [of "logged ops", unfolded logged_never_fails, OF assms(1,2)]
  by (cases ev) (auto simp: takeover_handle_def handle_watching_def Let_def split: takeover_state.split if_splits)

lemma run_watch_or_done:
  assumes "\<And>c. fst (op_fence ops c) = None" and "\<And>c. fst (op_adopt ops c) = None"
    and "tk_state t \<in> {TK_ARMED, TK_SUSPECT} \<and> tk_log t = [] \<or> tk_state t = TK_TAKEN_OVER"
  shows "(let t = takeover_run (logged ops) t evs in
    tk_state t \<in> {TK_ARMED, TK_SUSPECT} \<and> tk_log t = [] \<or> tk_state t = TK_TAKEN_OVER)"
  using assms(3)
proof (induction evs arbitrary: t)
  case (Cons ev evs)
  show ?case
    using Cons.IH handle_watch_or_done [OF assms(1,2) Cons.prems, of ev] by (simp only: takeover_run_simps Let_def)
qed simp

lemma init_logged [simp]:
  "erase (takeover_init (c, as) n k) = takeover_init c n k" "tk_log (takeover_init (c, as) n k) = as"
  by (simp_all add: takeover_init_def erase_def)

section \<open>The properties of the machine\<close>

text \<open>C3: for every table of operations and every sequence of events, the calls the machine makes are
  those of the protocol: it fences before it adopts, adopts until that succeeds, preserves once, reaps only
  after a successful preserve, makes no call after that, and calls the fence at most \<open>fence_retries + 1\<close>
  times; the state it reports is the one the protocol is in.  (With \<open>fence_retries = UINT_MAX\<close> the
  32-bit attempt counter wraps and the retries are not bounded.)\<close>

theorem takeover_follows_protocol:
  assumes "retries \<noteq> - 1"
  shows "\<exists>p. let t = takeover_run (logged ops) (takeover_init (c, []) timeouts retries) evs in
    erase t = takeover_run ops (takeover_init c timeouts retries) evs \<and>
    proto_run (P_Watch 0) (tk_log t) = Some p \<and> proto_match t p"
proof -
  have "proto_inv (takeover_init (c, []) timeouts retries)"
    by (simp add: proto_inv_def proto_match_def takeover_init_def)
  moreover have "tk_fence_retries (takeover_init (c, []) timeouts retries :: ('a \<times> action list) takeover) \<noteq> - 1"
    using assms by (simp add: takeover_init_def)
  ultimately show ?thesis
    using run_proto [of "takeover_init (c, []) timeouts retries" ops evs]
    by (auto simp: proto_inv_def erase_run Let_def split: option.splits)
qed

text \<open>Operations over a countdown: the fence fails that many times.\<close>

definition flaky_ops :: "nat takeover_ops" where
  "flaky_ops =
     \<lparr>op_fence = (\<lambda>n. if n = 0 then (None, 0) else (Some ETIMEDOUT, n - 1)), op_adopt = (\<lambda>n. (None, n)),
      op_preserve = (\<lambda>n. (Some EIO, n)), op_reap = (\<lambda>n. (None, n)), op_on_state = (\<lambda>t s. tk_ctx t)\<rparr>"

theorem takeover_follows_protocol_witness:
  "let t = takeover_run (logged flaky_ops) (takeover_init (1, []) 2 3) (replicate 3 TK_EV_PROBE_SILENT) in
    tk_log t = [Fence (Some ETIMEDOUT), Fence None, Adopt None, Preserve (Some EIO)] \<and>
    (\<exists>p. proto_run (P_Watch 0) (tk_log t) = Some p \<and> proto_match t p)"
proof -
  have "tk_log (takeover_run (logged flaky_ops) (takeover_init (1, []) 2 3) (replicate 3 TK_EV_PROBE_SILENT)) =
      [Fence (Some ETIMEDOUT), Fence None, Adopt None, Preserve (Some EIO)]"
    by code_simp
  then show ?thesis
    using takeover_follows_protocol [of 3 flaky_ops 1 2 "replicate 3 TK_EV_PROBE_SILENT"]
    by (auto simp: Let_def)
qed

text \<open>C4: as long as no handover is requested, the machine makes its first call, the fence, exactly when
  \<open>probe_timeouts\<close> probes in a row are silent: neither fewer silences, nor more of them interrupted
  by an answer, start a takeover.\<close>

theorem fences_iff_consecutive_silences:
  assumes "0 < timeouts" and "set evs \<subseteq> {TK_EV_PROBE_ALIVE, TK_EV_PROBE_SILENT}"
  shows "tk_log (takeover_run (logged ops) (takeover_init (c, []) timeouts retries) evs) \<noteq> [] \<longleftrightarrow>
    sublist (replicate (unat timeouts) TK_EV_PROBE_SILENT) evs"
  using watching_silences [of "takeover_init (c, []) timeouts retries" evs ops] assms
  by (simp add: takeover_init_def)

theorem fences_iff_consecutive_silences_witness:
  "tk_log (takeover_run (logged flaky_ops) (takeover_init (0, []) 3 0)
     [TK_EV_PROBE_SILENT, TK_EV_PROBE_SILENT, TK_EV_PROBE_ALIVE, TK_EV_PROBE_SILENT]) = [] \<and>
   sublist (replicate (unat (2 :: u32)) TK_EV_PROBE_SILENT)
     [TK_EV_PROBE_SILENT, TK_EV_PROBE_SILENT, TK_EV_PROBE_ALIVE, TK_EV_PROBE_SILENT]"
proof -
  let ?evs = "[TK_EV_PROBE_SILENT, TK_EV_PROBE_SILENT, TK_EV_PROBE_ALIVE, TK_EV_PROBE_SILENT]"
  have "tk_log (takeover_run (logged flaky_ops) (takeover_init (0, []) 3 0) ?evs) = []" by code_simp
  moreover have "tk_log (takeover_run (logged flaky_ops) (takeover_init (0, []) 2 0) ?evs) \<noteq> []" by code_simp
  ultimately show ?thesis
    using fences_iff_consecutive_silences [of 2 ?evs flaky_ops 0 0] by simp
qed

text \<open>C5: when the fence and the adoption succeed, a takeover completes: the machine ends in
  \<open>TK_TAKEN_OVER\<close> whenever the predecessor misses \<open>probe_timeouts\<close> probes in a row, whatever the dump and
  the reaping return.\<close>

theorem silence_leads_to_takeover:
  assumes "0 < timeouts" and "set evs \<subseteq> {TK_EV_PROBE_ALIVE, TK_EV_PROBE_SILENT}"
    and "sublist (replicate (unat timeouts) TK_EV_PROBE_SILENT) evs"
    and "\<And>c. fst (op_fence ops c) = None" and "\<And>c. fst (op_adopt ops c) = None"
  shows "tk_state (takeover_run ops (takeover_init c timeouts retries) evs) = TK_TAKEN_OVER"
proof -
  let ?t = "takeover_run (logged ops) (takeover_init (c, []) timeouts retries) evs"
  have "tk_log ?t \<noteq> []"
    using watching_silences [of "takeover_init (c, []) timeouts retries" evs ops] assms(1-3)
    by (simp add: takeover_init_def)
  then have "tk_state ?t = TK_TAKEN_OVER"
    using run_watch_or_done [OF assms(4,5), of "takeover_init (c, []) timeouts retries" evs]
    by (auto simp: takeover_init_def Let_def)
  then have "tk_state (erase ?t) = TK_TAKEN_OVER" by simp
  then show ?thesis by (simp only: erase_run init_logged)
qed

theorem silence_leads_to_takeover_witness:
  "tk_state (takeover_run (flaky_ops\<lparr>op_fence := (\<lambda>n. (None, n))\<rparr>) (takeover_init 0 2 0)
     (replicate 2 TK_EV_PROBE_SILENT)) = TK_TAKEN_OVER"
  by (rule silence_leads_to_takeover) (simp_all add: flaky_ops_def)

end
