(* ===== verification/Cstdio.thy ===== *)
theory Cstdio
  imports Kmorph_Prelude
begin

text \<open>
  The part of the C library's formatted input and output that the sources
  use: \<open>sscanf\<close> as an interpreter over a list of directives, and \<open>snprintf\<close>
  into a bounded buffer.  A format string of the source is written as the list
  of its directives.
\<close>

section \<open>Input\<close>

text \<open>
  White space in a format, any other literal character, \<open>%Ns\<close> and \<open>%*s\<close>,
  an unsigned number in a base with an optional field width, \<open>%d\<close>, \<open>%c\<close> and
  \<open>%n\<close>.
\<close>

datatype sdir = SWs | SLit char | SStr nat | SSkip | SNum nat "nat option" | SInt | SChar | SPos

datatype sval = VStr string | VNum u64 | VInt int | VChar char

definition sfmt :: "string \<Rightarrow> sdir list" where
  "sfmt s = map (\<lambda>c. if isspace c then SWs else SLit c) s"

text \<open>The \<open>int\<close> or \<open>unsigned int\<close> that a converted number is stored into.\<close>

definition to_int :: "int \<Rightarrow> int" where
  "to_int i = (i + 2 ^ 31) mod 2 ^ 32 - 2 ^ 31"

definition scan_word :: "string \<Rightarrow> string \<times> string" where
  "scan_word s = (let s = dropWhile isspace s in (takeWhile (\<lambda>c. \<not> isspace c) s, dropWhile (\<lambda>c. \<not> isspace c) s))"

definition scan_word_max :: "nat \<Rightarrow> string \<Rightarrow> string \<times> string" where
  "scan_word_max w s =
     (let s = dropWhile isspace s; word = take w (takeWhile (\<lambda>c. \<not> isspace c) s)
      in (word, drop (length word) s))"

definition scan_number :: "nat \<Rightarrow> nat option \<Rightarrow> string \<Rightarrow> (u64 \<times> string) option" where
  "scan_number b w s =
     (let s = dropWhile isspace s;
          (field, rest) = (case w of None \<Rightarrow> (s, []) | Some w \<Rightarrow> (take w s, drop w s))
      in case scan_num b field of
           None \<Rightarrow> None
         | Some _ \<Rightarrow> let (v, r, range) = strtoull b field in Some (v, r @ rest))"

definition scan_int :: "string \<Rightarrow> (int \<times> string) option" where
  "scan_int s = (case scan_num 10 s of None \<Rightarrow> None
     | Some _ \<Rightarrow> let (v, r) = strtoll 10 s in Some (to_int v, r))"

text \<open>
  The values converted before the first directive that fails, and the value
  of \<open>%n\<close> if it was reached; the number of values is what \<open>sscanf\<close> returns.
  \<open>at\<close> is the length of the whole input.
\<close>

fun scan :: "nat \<Rightarrow> sdir list \<Rightarrow> string \<Rightarrow> sval list \<times> nat option" where
  "scan at [] s = ([], None)"
| "scan at (SWs # ds) s = scan at ds (dropWhile isspace s)"
| "scan at (SLit c # ds) s = (case s of [] \<Rightarrow> ([], None) | x # r \<Rightarrow> if x = c then scan at ds r else ([], None))"
| "scan at (SStr w # ds) s =
     (let (word, r) = scan_word_max w s in
      if word = [] then ([], None) else let (vs, n) = scan at ds r in (VStr word # vs, n))"
| "scan at (SSkip # ds) s =
     (let (word, r) = scan_word s in if word = [] then ([], None) else scan at ds r)"
| "scan at (SNum b w # ds) s =
     (case scan_number b w s of None \<Rightarrow> ([], None)
      | Some (v, r) \<Rightarrow> let (vs, n) = scan at ds r in (VNum v # vs, n))"
| "scan at (SInt # ds) s =
     (case scan_int s of None \<Rightarrow> ([], None)
      | Some (v, r) \<Rightarrow> let (vs, n) = scan at ds r in (VInt v # vs, n))"
| "scan at (SChar # ds) s =
     (case s of [] \<Rightarrow> ([], None) | c # r \<Rightarrow> let (vs, n) = scan at ds r in (VChar c # vs, n))"
| "scan at (SPos # ds) s = (let (vs, n) = scan at ds s in (vs, Some (at - length s)))"

definition sscanf :: "string \<Rightarrow> sdir list \<Rightarrow> sval list \<times> nat option" where
  "sscanf s ds = scan (length s) ds s"

section \<open>Output\<close>

text \<open>\<open>snprintf\<close>: the length of the whole text, and what the buffer of \<open>len\<close> bytes holds.\<close>

definition snprintf :: "nat \<Rightarrow> string \<Rightarrow> nat \<times> string" where
  "snprintf len s = (length s, take (len - 1) s)"

text \<open>The idiom \<open>return n >= (int)len ? -ENOSPC : n;\<close>.\<close>

definition fits_or_nospc :: "nat \<Rightarrow> nat \<times> string \<Rightarrow> nat res \<times> string" where
  "fits_or_nospc len = (\<lambda>(n, buf). (if n \<ge> len then Inl ENOSPC else Inr n, buf))"

lemma fits_or_nospc_snprintf:
  "fits_or_nospc len (snprintf len s) = (if length s < len then (Inr (length s), s) else (Inl ENOSPC, take (len - 1) s))"
  by (auto simp: fits_or_nospc_def snprintf_def)

section \<open>Reading back what was printed\<close>

lemma scan_lits:
  assumes "\<forall>c \<in> set p. \<not> isspace c"
  shows "scan at (sfmt p @ ds) (p @ s) = scan at ds s"
  using assms by (induction p) (auto simp: sfmt_def)

lemma scan_lit_string [cstring]:
  "\<forall>c \<in> set p. \<not> isspace c \<Longrightarrow> scan at (map SLit p @ ds) (p @ s) = scan at ds s"
  by (induction p) auto

lemma dropWhile_isspace_head [cstring]: "s = [] \<or> \<not> isspace (hd s) \<Longrightarrow> dropWhile isspace s = s"
  by (cases s) auto

lemma scan_word_max_print [cstring]:
  assumes "w \<noteq> []" and "\<forall>c \<in> set w. \<not> isspace c" and "length w \<le> n" and "s = [] \<or> isspace (hd s)"
  shows "scan_word_max n (w @ s) = (w, s)"
proof -
  have 1: "dropWhile isspace (w @ s) = w @ s"
    using assms(1,2) by (intro dropWhile_isspace_head) auto
  have 2: "takeWhile (\<lambda>c. \<not> isspace c) (w @ s) = w"
    using assms(2,4) by (intro takeWhile_digits_append) auto
  show ?thesis using assms(3) by (simp add: scan_word_max_def 1 2)
qed

lemma scan_number_dec [cstring]:
  assumes "n < 2 ^ 64" and "stops 10 r"
  shows "scan_number 10 None (dec n @ r) = Some (of_nat n, r)"
proof -
  have "digit_val (hd (dec n)) < 16" using hd_num_str [of 10 n] by simp
  then have "\<not> isspace (hd (dec n))" by (rule digit_not_space)
  then have "dropWhile isspace (dec n @ r) = dec n @ r" by (intro dropWhile_isspace_head) simp
  then show ?thesis
    using strtoull_dec [OF assms] scan_num_dec_str [OF assms(2)] by (simp add: scan_number_def)
qed

lemma to_int_id: "- (2 ^ 31) \<le> i \<Longrightarrow> i < 2 ^ 31 \<Longrightarrow> to_int i = i"
  by (simp add: to_int_def)

lemma scan_int_dec [cstring]:
  assumes "- (2 ^ 31) \<le> i" and "i < 2 ^ 31" and "stops 10 r"
  shows "scan_int (dec_int i @ r) = Some (i, r)"
proof (cases "i < 0")
  case False
  then show ?thesis
    using assms scan_num_dec_str [OF assms(3), of "nat i"]
    by (simp add: scan_int_def dec_int_def strtoll_def to_int_id)
next
  case True
  have "dec (nat (- i)) \<noteq> []" "\<forall>c \<in> set (dec (nat (- i))). digit_val c < 10" using dec_digits by auto
  then have "takeWhile (\<lambda>c. digit_val c < 10) (dec (nat (- i)) @ r) = dec (nat (- i))"
      "dropWhile (\<lambda>c. digit_val c < 10) (dec (nat (- i)) @ r) = r"
    using assms(3) takeWhile_digits_append [of "dec (nat (- i))" "\<lambda>c. digit_val c < 10" r] by (auto simp: stops_def)
  then have "scan_num 10 (CHR ''-'' # dec (nat (- i)) @ r) = Some (True, nat (- i), r)"
    by (simp add: scan_num_def isspace_def scan_sign_def)
  then show ?thesis using True assms by (simp add: scan_int_def dec_int_def strtoll_def to_int_id)
qed

end
