(* ===== verification/Sysio.thy ===== *)
theory Sysio
  imports Cstdio
begin

text \<open>
  Files (lib/file.c) and big-endian cells.  The contents of a file and the
  bytes of a buffer are character lists.  The loops of \<open>file_read\<close> and
  \<open>file_write\<close> run against a script of what the successive system calls do:
  fail, be interrupted, or move only part of the data.  Everything above them
  uses the record \<open>sys\<close>, the files and directories of a world \<open>'w\<close>, which the
  other components take as a parameter.
\<close>

section \<open>Reading and writing whole files\<close>

text \<open>One \<open>read\<close> or \<open>write\<close> call: an error, or at most so many bytes moved.\<close>

datatype io_event = Io_error errno | Io_moves nat

abbreviation EINTR :: errno where
  "EINTR \<equiv> Eother 4"

text \<open>
  The loop of \<open>file_read\<close>: \<open>rest\<close> is what the file still holds.  A read moves
  at least one byte unless the file is at its end; once the script is used up
  every call moves all it can.
\<close>

function file_read_loop :: "alloc \<Rightarrow> io_event list \<Rightarrow> nat \<Rightarrow> string \<Rightarrow> string \<Rightarrow> string res" where
  "file_read_loop ok evs cap used rest =
     (if length used = cap \<and> \<not> ok (cap * 2 + 1) then Inl ENOMEM
      else
        let cap = (if length used = cap then cap * 2 else cap) in
        case evs of
          Io_error e # evs \<Rightarrow> if e = EINTR then file_read_loop ok evs cap used rest else Inl e
        | Io_moves k # evs \<Rightarrow>
            let n = min (max 1 k) (min (cap - length used) (length rest)) in
            if n = 0 then Inr used else file_read_loop ok evs cap (used @ take n rest) (drop n rest)
        | [] \<Rightarrow>
            let n = min (cap - length used) (length rest) in
            if n = 0 then Inr used else file_read_loop ok [] cap (used @ take n rest) (drop n rest))"
  by pat_completeness auto
termination
  by (relation "measure (\<lambda>(ok, evs, cap, used, rest). length evs + length rest)") auto

declare file_read_loop.simps [simp del]

definition file_read :: "alloc \<Rightarrow> io_event list \<Rightarrow> string res \<Rightarrow> string res" where
  "file_read ok evs file =
     (case file of
        Inl e \<Rightarrow> Inl e
      | Inr content \<Rightarrow> if \<not> ok (4096 + 1) then Inl ENOMEM else file_read_loop ok evs 4096 [] content)"

text \<open>The loop of \<open>file_write\<close>: \<open>out\<close> is what the file holds so far.\<close>

function file_write_loop :: "io_event list \<Rightarrow> string \<Rightarrow> string \<Rightarrow> rc \<times> string" where
  "file_write_loop evs out p =
     (if p = [] then (None, out)
      else case evs of
        Io_error e # evs \<Rightarrow> if e = EINTR then file_write_loop evs out p else (Some e, out)
      | Io_moves k # evs \<Rightarrow> let n = min k (length p) in file_write_loop evs (out @ take n p) (drop n p)
      | [] \<Rightarrow> (None, out @ p))"
  by pat_completeness auto
termination
  by (relation "measure (\<lambda>(evs, out, p). length evs)") auto

declare file_write_loop.simps [simp del]

definition file_write :: "rc \<Rightarrow> io_event list \<Rightarrow> string \<Rightarrow> rc \<times> string" where
  "file_write opened evs buf = (case opened of Some e \<Rightarrow> (Some e, []) | None \<Rightarrow> file_write_loop evs [] buf)"

text \<open>The text of a file as a C string: trailing line breaks cut, then up to the first NUL.\<close>

definition strip_newlines :: "string \<Rightarrow> string" where
  "strip_newlines s = rev (dropWhile (\<lambda>c. c = CHR 0x0A) (rev s))"

definition cstr :: "string \<Rightarrow> string" where
  "cstr s = takeWhile (\<lambda>c. c \<noteq> CHR 0x00) s"

definition file_read_string :: "string res \<Rightarrow> string res" where
  "file_read_string r = (case r of Inl e \<Rightarrow> Inl e | Inr s \<Rightarrow> Inr (cstr (strip_newlines s)))"

definition file_read_u32 :: "string res \<Rightarrow> u32 res" where
  "file_read_u32 r =
     (case file_read_string r of
        Inl e \<Rightarrow> Inl e
      | Inr s \<Rightarrow>
          if s = [] \<or> \<not> isdigit (hd s) then Inl EINVAL
          else let (n, e, range) = strtoull 10 s
               in if e = [] \<and> n \<le> 0xFFFFFFFF then Inr (ucast n) else Inl EINVAL)"

section \<open>The files and directories the components see\<close>

text \<open>
  \<open>sys_read\<close> and \<open>sys_write\<close> are \<open>file_read\<close> and \<open>file_write\<close> on a path;
  \<open>sys_attr\<close> is one write to a file that must exist; \<open>sys_pread\<close> opens and
  reads at an offset, possibly short or, when the read itself fails, nothing, \<open>sys_pwrite\<close> returns how much it wrote.
\<close>

record 'w sys =
  sys_read :: "'w \<Rightarrow> string \<Rightarrow> string res"
  sys_write :: "string \<Rightarrow> string \<Rightarrow> 'w \<Rightarrow> rc \<times> 'w"
  sys_attr :: "string \<Rightarrow> string \<Rightarrow> 'w \<Rightarrow> rc \<times> 'w"
  sys_readdir :: "'w \<Rightarrow> string \<Rightarrow> string list res"
  sys_isdir :: "'w \<Rightarrow> string \<Rightarrow> bool"
  sys_access :: "'w \<Rightarrow> string \<Rightarrow> bool"
  sys_pread :: "string \<Rightarrow> nat \<Rightarrow> nat \<Rightarrow> 'w \<Rightarrow> string res \<times> 'w"
  sys_pwrite :: "string \<Rightarrow> nat \<Rightarrow> string \<Rightarrow> 'w \<Rightarrow> nat \<times> 'w"

abbreviation read_string :: "'w sys \<Rightarrow> 'w \<Rightarrow> string \<Rightarrow> string res" where
  "read_string sys w path \<equiv> file_read_string (sys_read sys w path)"

section \<open>Cells\<close>

definition be_val :: "string \<Rightarrow> nat" where
  "be_val s = foldl (\<lambda>a c. a * 256 + of_char c) 0 s"

fun be_bytes :: "nat \<Rightarrow> nat \<Rightarrow> string" where
  "be_bytes 0 v = []"
| "be_bytes (Suc n) v = be_bytes n (v div 256) @ [char_of (v mod 256)]"

definition be64 :: "u64 \<Rightarrow> string" where
  "be64 v = be_bytes 8 (unat v)"

definition be32 :: "u32 \<Rightarrow> string" where
  "be32 v = be_bytes 4 (unat v)"

definition fdt64_to_cpu :: "string \<Rightarrow> u64" where
  "fdt64_to_cpu s = of_nat (be_val s)"

definition fdt32_to_cpu :: "string \<Rightarrow> u32" where
  "fdt32_to_cpu s = of_nat (be_val s)"

lemma be_bytes_length [simp]: "length (be_bytes n v) = n"
  by (induction n arbitrary: v) auto

lemma be_val_less: "be_val s < 256 ^ length s"
proof (induction s rule: rev_induct)
  case (snoc c s)
  then show ?case using nat_of_char_less_256 [of c] by (simp add: be_val_def del: nat_of_char_less_256)
qed (simp add: be_val_def)

lemma be_val_bytes: "v < 256 ^ n \<Longrightarrow> be_val (be_bytes n v) = v"
proof (induction n arbitrary: v)
  case 0
  then show ?case by (simp add: be_val_def)
next
  case (Suc n)
  have "v div 256 < 256 ^ n" using Suc.prems by (simp add: less_mult_imp_div_less mult.commute)
  then have "be_val (be_bytes n (v div 256)) = v div 256" by (rule Suc.IH)
  then show ?case by (simp add: be_val_def)
qed

lemma be64_roundtrip [simp, cells]: "fdt64_to_cpu (be64 v) = v"
  using unsigned_less [of v, where 'a = nat] by (simp add: fdt64_to_cpu_def be64_def be_val_bytes)

lemma be32_roundtrip [simp, cells]: "fdt32_to_cpu (be32 v) = v"
  using unsigned_less [of v, where 'a = nat] by (simp add: fdt32_to_cpu_def be32_def be_val_bytes)

lemma be_lengths [simp]: "length (be64 v) = 8" "length (be32 u) = 4"
  by (simp_all add: be64_def be32_def)

text \<open>An array of 64-bit cells.\<close>

definition cell64 :: "string \<Rightarrow> nat \<Rightarrow> u64" where
  "cell64 s i = fdt64_to_cpu (take 8 (drop (8 * i) s))"

definition cells64 :: "string \<Rightarrow> u64 list" where
  "cells64 s = map (cell64 s) [0 ..< length s div 8]"

definition enc_cells64 :: "u64 list \<Rightarrow> string" where
  "enc_cells64 vs = concat (map be64 vs)"

lemma enc_cells64_length [simp]: "length (enc_cells64 vs) = 8 * length vs"
  by (induction vs) (auto simp: enc_cells64_def)

lemma cell64_enc: "i < length vs \<Longrightarrow> cell64 (enc_cells64 vs) i = vs ! i"
proof (induction vs arbitrary: i)
  case (Cons v vs)
  have *: "enc_cells64 (v # vs) = be64 v @ enc_cells64 vs" by (simp add: enc_cells64_def)
  show ?case using Cons by (cases i) (simp_all add: * cell64_def)
qed simp

lemma cells64_enc [simp, cells]: "cells64 (enc_cells64 vs) = vs"
  by (rule nth_equalityI) (simp_all add: cells64_def cell64_enc)

section \<open>Reading returns the file, writing writes it\<close>

lemma file_read_loop_content:
  "\<lbrakk>\<forall>n. ok n; \<forall>e \<in> set evs. \<forall>x. e = Io_error x \<longrightarrow> x = EINTR; 0 < cap; length used \<le> cap\<rbrakk> \<Longrightarrow>
     file_read_loop ok evs cap used rest = Inr (used @ rest)"
proof (induction ok evs cap used rest rule: file_read_loop.induct)
  case (1 ok evs cap used rest)
  define c where "c = (if length used = cap then cap * 2 else cap)"
  have room: "length used < c" using "1.prems"(3,4) by (auto simp: c_def)
  have go: "\<not> (length used = cap \<and> \<not> ok (cap * 2 + 1))" using "1.prems"(1) by simp
  have unf: "file_read_loop ok evs cap used rest = (case evs of
          Io_error e # evs \<Rightarrow> if e = EINTR then file_read_loop ok evs c used rest else Inl e
        | Io_moves k # evs \<Rightarrow>
            let n = min (max 1 k) (min (c - length used) (length rest)) in
            if n = 0 then Inr used else file_read_loop ok evs c (used @ take n rest) (drop n rest)
        | [] \<Rightarrow>
            let n = min (c - length used) (length rest) in
            if n = 0 then Inr used else file_read_loop ok [] c (used @ take n rest) (drop n rest))"
    by (subst file_read_loop.simps, subst if_not_P [OF go]) (simp only: Let_def c_def)
  show ?case
  proof (cases evs)
    case Nil
    let ?n = "min (c - length used) (length rest)"
    show ?thesis
    proof (cases "?n = 0")
      case True
      then have "rest = []" using room by (auto simp: min_def split: if_splits)
      then show ?thesis using Nil unf by simp
    next
      case False
      have "file_read_loop ok [] c (used @ take ?n rest) (drop ?n rest) = Inr ((used @ take ?n rest) @ drop ?n rest)"
        by (rule "1.IH"(1) [OF go c_def Nil refl False]) (use "1.prems" room in auto)
      then show ?thesis using Nil unf False by (simp only: unf Let_def list.case if_False append_assoc append_take_drop_id)
    qed
  next
    case (Cons ev evs')
    show ?thesis
    proof (cases ev)
      case (Io_error e)
      have "e = EINTR" using "1.prems"(2) Cons Io_error by auto
      moreover have "file_read_loop ok evs' c used rest = Inr (used @ rest)"
        by (rule "1.IH"(2) [OF go c_def]) (use Cons Io_error \<open>e = EINTR\<close> "1.prems" room in auto)
      ultimately show ?thesis using Cons Io_error unf by simp
    next
      case (Io_moves k)
      let ?n = "min (max 1 k) (min (c - length used) (length rest))"
      show ?thesis
      proof (cases "?n = 0")
        case True
        then have "rest = []" using room by (auto simp: min_def max_def split: if_splits)
        then show ?thesis using Cons Io_moves unf by simp
      next
        case False
        have "file_read_loop ok evs' c (used @ take ?n rest) (drop ?n rest) = Inr ((used @ take ?n rest) @ drop ?n rest)"
          by (rule "1.IH"(3) [OF go c_def]) (use Cons Io_moves False "1.prems" room in auto)
        then show ?thesis using Cons Io_moves unf False
          by (simp only: unf Let_def list.case io_event.case if_False append_assoc append_take_drop_id)
      qed
    qed
  qed
qed

lemma file_write_loop_all:
  "\<forall>e \<in> set evs. \<forall>x. e = Io_error x \<longrightarrow> x = EINTR \<Longrightarrow> file_write_loop evs out p = (None, out @ p)"
proof (induction evs out p rule: file_write_loop.induct)
  case (1 evs out p)
  then show ?case by (subst file_write_loop.simps) (auto simp: Let_def split: list.split io_event.split)
qed

section \<open>Little-endian fields\<close>

definition le_bytes :: "nat \<Rightarrow> nat \<Rightarrow> string" where
  "le_bytes n v = rev (be_bytes n v)"

definition le_val :: "string \<Rightarrow> nat" where
  "le_val s = be_val (rev s)"

lemma le_bytes_length [simp]: "length (le_bytes n v) = n"
  by (simp add: le_bytes_def)

lemma le_val_bytes: "v < 256 ^ n \<Longrightarrow> le_val (le_bytes n v) = v"
  by (simp add: le_val_def le_bytes_def be_val_bytes)

definition le_at :: "string \<Rightarrow> nat \<Rightarrow> nat \<Rightarrow> nat" where
  "le_at s off n = le_val (take n (drop off s))"

end
