(* ===== verification/Fdt_Writer.thy ===== *)
theory Fdt_Writer
  imports Sysio
begin

text \<open>
  The sequential writer of libfdt (lib/fdt/fdt_sw.c) as lib/dt.c uses it, the
  packing of the finished tree (lib/fdt/fdt_rw.c), and the driver that retries
  with a larger buffer (lib/fdtutil.c).  The structure block is the list of its
  tagged items; the string table grows downwards, so a name that is added
  comes first and offsets count from its end until the tree is finished.  The
  result is the blob, byte for byte.
\<close>

section \<open>The writer\<close>

datatype fdt_err = FDT_ERR_NOSPACE | FDT_ERR_INTERNAL | FDT_ERR_OTHER errno

type_synonym fdt_rc = "fdt_err option"

datatype fdt_item = I_BEGIN string | I_PROP int string | I_END

record fdt_sw =
  sw_total :: nat
  sw_items :: "fdt_item list"
  sw_strings :: string

definition fdt_tagalign :: "nat \<Rightarrow> nat" where
  "fdt_tagalign n = (n + 3) div 4 * 4"

fun item_size :: "fdt_item \<Rightarrow> nat" where
  "item_size (I_BEGIN name) = 4 + fdt_tagalign (length name + 1)"
| "item_size (I_PROP off v) = 12 + fdt_tagalign (length v)"
| "item_size I_END = 4"

definition struct_size :: "fdt_item list \<Rightarrow> nat" where
  "struct_size is = sum_list (map item_size is)"

text \<open>The header rounded up to a reserve entry, then the empty reserve map.\<close>

definition SW_HDRSIZE :: nat where
  "SW_HDRSIZE = 48"

definition SW_OFF_STRUCT :: nat where
  "SW_OFF_STRUCT = SW_HDRSIZE + 16"

definition fdt_create :: "nat \<Rightarrow> fdt_rc \<times> fdt_sw" where
  "fdt_create bufsize =
     (if bufsize < SW_HDRSIZE then Some FDT_ERR_NOSPACE else None,
      \<lparr>sw_total = bufsize, sw_items = [], sw_strings = []\<rparr>)"

definition fdt_finish_reservemap :: "fdt_sw \<Rightarrow> fdt_rc \<times> fdt_sw" where
  "fdt_finish_reservemap st = (if SW_HDRSIZE + 16 > sw_total st then Some FDT_ERR_NOSPACE else None, st)"

definition fdt_grab_space :: "nat \<Rightarrow> fdt_sw \<Rightarrow> bool" where
  "fdt_grab_space len st =
     (struct_size (sw_items st) + len \<le> sw_total st - SW_OFF_STRUCT - length (sw_strings st))"

definition fdt_put :: "fdt_item \<Rightarrow> fdt_sw \<Rightarrow> fdt_rc \<times> fdt_sw" where
  "fdt_put it st =
     (if fdt_grab_space (item_size it) st then (None, st\<lparr>sw_items := sw_items st @ [it]\<rparr>)
      else (Some FDT_ERR_NOSPACE, st))"

definition fdt_begin_node :: "string \<Rightarrow> fdt_sw \<Rightarrow> fdt_rc \<times> fdt_sw" where
  "fdt_begin_node name st = fdt_put (I_BEGIN name) st"

definition fdt_end_node :: "fdt_sw \<Rightarrow> fdt_rc \<times> fdt_sw" where
  "fdt_end_node st = fdt_put I_END st"

definition fdt_find_string :: "string \<Rightarrow> string \<Rightarrow> nat option" where
  "fdt_find_string tab s =
     find (\<lambda>i. take (length s + 1) (drop i tab) = s @ [CHR 0x00]) [0 ..< length tab - length s]"

text \<open>The offset of the new string, counted from the end of the table; the subtraction is 32-bit.\<close>

definition fdt_add_string :: "string \<Rightarrow> fdt_sw \<Rightarrow> (int \<times> fdt_sw) option" where
  "fdt_add_string s st =
     (let off = length (sw_strings st) + length s + 1;
          struct_top = SW_OFF_STRUCT + struct_size (sw_items st)
      in if (int (sw_total st) - int off) mod 2 ^ 32 < int struct_top then None
         else Some (- int off, st\<lparr>sw_strings := s @ [CHR 0x00] @ sw_strings st\<rparr>))"

definition fdt_find_add_string :: "string \<Rightarrow> fdt_sw \<Rightarrow> (int \<times> fdt_sw) option" where
  "fdt_find_add_string s st =
     (case fdt_find_string (sw_strings st) s of
        Some i \<Rightarrow> Some (int i - int (length (sw_strings st)), st)
      | None \<Rightarrow> fdt_add_string s st)"

definition fdt_property :: "string \<Rightarrow> string \<Rightarrow> fdt_sw \<Rightarrow> fdt_rc \<times> fdt_sw" where
  "fdt_property name val st =
     (case fdt_find_add_string name st of
        None \<Rightarrow> (Some FDT_ERR_NOSPACE, st)
      | Some (nameoff, st') \<Rightarrow>
          (case fdt_put (I_PROP nameoff val) st' of
             (None, st'') \<Rightarrow> (None, st'')
           | (Some e, _) \<Rightarrow> (Some e, st)))"

definition fdt_property_string :: "string \<Rightarrow> string \<Rightarrow> fdt_sw \<Rightarrow> fdt_rc \<times> fdt_sw" where
  "fdt_property_string name s st = fdt_property name (s @ [CHR 0x00]) st"

definition fdt_property_u32 :: "string \<Rightarrow> u32 \<Rightarrow> fdt_sw \<Rightarrow> fdt_rc \<times> fdt_sw" where
  "fdt_property_u32 name v st = fdt_property name (be32 v) st"

definition fdt_property_u64 :: "string \<Rightarrow> u64 \<Rightarrow> fdt_sw \<Rightarrow> fdt_rc \<times> fdt_sw" where
  "fdt_property_u64 name v st = fdt_property name (be64 v) st"

section \<open>The finished blob\<close>

definition pad4 :: "string \<Rightarrow> string" where
  "pad4 s = s @ replicate (fdt_tagalign (length s) - length s) (CHR 0x00)"

abbreviation nat32 :: "nat \<Rightarrow> string" where
  "nat32 n \<equiv> be32 (of_nat n)"

text \<open>A finished item: offsets count from the start of the string table.\<close>

fun item_bytes :: "fdt_item \<Rightarrow> string" where
  "item_bytes (I_BEGIN name) = nat32 1 @ pad4 (name @ [CHR 0x00])"
| "item_bytes (I_PROP off v) = nat32 3 @ nat32 (length v) @ be32 (of_int off) @ pad4 v"
| "item_bytes I_END = nat32 2"

fun fix_nameoff :: "nat \<Rightarrow> fdt_item \<Rightarrow> fdt_item" where
  "fix_nameoff n (I_PROP off v) = I_PROP (off + int n) v"
| "fix_nameoff n it = it"

text \<open>\<open>fdt_finish\<close> moves the table behind the structure block and makes the offsets positive.\<close>

definition fdt_finish :: "fdt_sw \<Rightarrow> fdt_rc \<times> fdt_sw" where
  "fdt_finish st =
     (if fdt_grab_space 4 st
      then (None, st\<lparr>sw_items := map (fix_nameoff (length (sw_strings st))) (sw_items st)\<rparr>)
      else (Some FDT_ERR_NOSPACE, st))"

text \<open>The blob after \<open>fdt_pack\<close>: header, reserve map, structure block with its end tag, strings.\<close>

definition fdt_pack :: "fdt_sw \<Rightarrow> string" where
  "fdt_pack st =
     (let ssize = struct_size (sw_items st) + 4; off_struct = 40 + 16;
          off_strings = off_struct + ssize
      in be32 0xd00dfeed @ nat32 (off_strings + length (sw_strings st)) @ nat32 off_struct @
         nat32 off_strings @ nat32 40 @ nat32 17 @ nat32 16 @ nat32 0 @
         nat32 (length (sw_strings st)) @ nat32 ssize @
         replicate 16 (CHR 0x00) @ concat (map item_bytes (sw_items st)) @ nat32 9 @ sw_strings st)"

section \<open>Building with a growing buffer\<close>

definition fdtutil_try_build :: "(fdt_sw \<Rightarrow> fdt_rc \<times> fdt_sw) \<Rightarrow> nat \<Rightarrow> fdt_rc \<times> fdt_sw" where
  "fdtutil_try_build fn sz =
     (let (r, st) = fdt_create sz in
      if r \<noteq> None then (r, st) else try_all [fdt_finish_reservemap, fn, fdt_finish] st)"

text \<open>The sizes tried are \<open>16 K * 2 ^ k\<close>.\<close>

function fdtutil_build_loop :: "alloc \<Rightarrow> (fdt_sw \<Rightarrow> fdt_rc \<times> fdt_sw) \<Rightarrow> nat \<Rightarrow> string res" where
  "fdtutil_build_loop ok fn k =
     (let sz = 16 * 1024 * 2 ^ k in
      if \<not> ok sz then Inl ENOMEM
      else case fdtutil_try_build fn sz of
        (None, st) \<Rightarrow> Inr (fdt_pack st)
      | (Some e, st) \<Rightarrow>
          if e = FDT_ERR_NOSPACE then
            if sz \<ge> 4 * 1024 * 1024 then Inl ENOSPC else fdtutil_build_loop ok fn (Suc k)
          else Inl EINVAL)"
  by pat_completeness auto
termination
proof (relation "measure (\<lambda>(ok, fn, k). 9 - k)")
  fix ok :: alloc and fn :: "fdt_sw \<Rightarrow> fdt_rc \<times> fdt_sw" and k sz :: nat
  assume "sz = 16 * 1024 * 2 ^ k" and "\<not> 4 * 1024 * 1024 \<le> sz"
  then have "(2 :: nat) ^ k < 2 ^ 8" by simp
  then have "k < 8" by (simp only: power_strict_increasing_iff)
  then show "((ok, fn, Suc k), ok, fn, k) \<in> measure (\<lambda>(ok, fn, k). 9 - k)" by simp
qed simp

declare fdtutil_build_loop.simps [simp del]

definition fdtutil_build :: "alloc \<Rightarrow> (fdt_sw \<Rightarrow> fdt_rc \<times> fdt_sw) \<Rightarrow> string res" where
  "fdtutil_build ok fn = fdtutil_build_loop ok fn 0"

section \<open>What was written\<close>

text \<open>
  The specification of the writer: the sequence of calls, read back from the
  items and the string table.
\<close>

datatype fdt_call = Begin_node string | Property string string | End_node

definition fdt_emit :: "fdt_call \<Rightarrow> fdt_sw \<Rightarrow> fdt_rc \<times> fdt_sw" where
  "fdt_emit c st = (case c of
       Begin_node name \<Rightarrow> fdt_begin_node name st
     | Property name v \<Rightarrow> fdt_property name v st
     | End_node \<Rightarrow> fdt_end_node st)"

definition call_ok :: "fdt_call \<Rightarrow> bool" where
  "call_ok c = (case c of Property name v \<Rightarrow> CHR 0x00 \<notin> set name | _ \<Rightarrow> True)"

definition resolve :: "string \<Rightarrow> int \<Rightarrow> string" where
  "resolve tab off = cstr (drop (nat (int (length tab) + off)) tab)"

fun item_call :: "string \<Rightarrow> fdt_item \<Rightarrow> fdt_call" where
  "item_call tab (I_BEGIN name) = Begin_node name"
| "item_call tab (I_PROP off v) = Property (resolve tab off) v"
| "item_call tab I_END = End_node"

definition sw_calls :: "fdt_sw \<Rightarrow> fdt_call list" where
  "sw_calls st = map (item_call (sw_strings st)) (sw_items st)"

fun item_in :: "nat \<Rightarrow> fdt_item \<Rightarrow> bool" where
  "item_in n (I_PROP off v) = (- int n \<le> off \<and> off < 0)"
| "item_in n it = True"

definition sw_ok :: "fdt_sw \<Rightarrow> bool" where
  "sw_ok st = list_all (item_in (length (sw_strings st))) (sw_items st)"

lemma resolve_front: "- int (length tab) \<le> off \<Longrightarrow> resolve (s @ tab) off = resolve tab off"
proof -
  assume "- int (length tab) \<le> off"
  then have "nat (int (length (s @ tab)) + off) = length s + nat (int (length tab) + off)" by simp
  then show ?thesis by (simp add: resolve_def)
qed

lemma item_call_front: "item_in (length tab) it \<Longrightarrow> item_call (s @ tab) it = item_call tab it"
  by (cases it) (auto simp: resolve_front)

lemma item_in_mono: "item_in n it \<Longrightarrow> n \<le> m \<Longrightarrow> item_in m it"
  by (cases it) auto

lemma cstr_word: "CHR 0x00 \<notin> set s \<Longrightarrow> cstr (s @ CHR 0x00 # r) = s"
  by (induction s) (auto simp: cstr_def)

lemma find_SomeD: "find P xs = Some x \<Longrightarrow> x \<in> set xs \<and> P x"
  by (induction xs) (auto split: if_splits)

lemma fdt_find_string_resolves:
  assumes "fdt_find_string tab s = Some i" and "CHR 0x00 \<notin> set s"
  shows "i < length tab \<and> resolve tab (int i - int (length tab)) = s"
proof -
  have i: "i < length tab - length s" "take (length s + 1) (drop i tab) = s @ [CHR 0x00]"
    using find_SomeD [OF assms(1) [unfolded fdt_find_string_def]] by auto
  then have "drop i tab = s @ CHR 0x00 # drop (length s + 1) (drop i tab)"
    by (metis append.assoc append_Cons append_Nil append_take_drop_id)
  then have "cstr (drop i tab) = s" using cstr_word assms(2) by metis
  then show ?thesis using i(1) by (simp add: resolve_def)
qed

lemma find_add_string_done:
  assumes "sw_ok st" and "fdt_find_add_string s st = Some (off, st')" and "CHR 0x00 \<notin> set s"
  shows "sw_ok st' \<and> sw_calls st' = sw_calls st \<and> - int (length (sw_strings st')) \<le> off \<and> off < 0 \<and>
    resolve (sw_strings st') off = s"
proof (cases "fdt_find_string (sw_strings st) s")
  case (Some i)
  then show ?thesis
    using assms fdt_find_string_resolves [OF Some assms(3)] by (auto simp: fdt_find_add_string_def)
next
  case None
  then have st': "st' = st\<lparr>sw_strings := s @ [CHR 0x00] @ sw_strings st\<rparr>"
      and off: "off = - int (length (sw_strings st) + length s + 1)"
    using assms(2) by (auto simp: fdt_find_add_string_def fdt_add_string_def Let_def split: if_splits)
  have "resolve (sw_strings st') off = s"
    using assms(3) cstr_word [of s] by (simp add: resolve_def st' off)
  moreover have "sw_ok st'"
    using assms(1) item_in_mono by (fastforce simp: sw_ok_def st' list_all_iff)
  moreover have "sw_calls st' = sw_calls st"
    using assms(1) item_call_front [of "sw_strings st" _ "s @ [CHR 0x00]"]
    by (auto simp: sw_calls_def sw_ok_def st' list_all_iff)
  ultimately show ?thesis by (simp add: st' off)
qed

lemma fdt_put_done:
  "fdt_put it st = (None, st') \<Longrightarrow> st' = st\<lparr>sw_items := sw_items st @ [it]\<rparr>"
  by (auto simp: fdt_put_def split: if_splits)

lemma fdt_emit_done:
  assumes "sw_ok st" and "call_ok c" and "fdt_emit c st = (None, st')"
  shows "sw_ok st' \<and> sw_calls st' = sw_calls st @ [c]"
proof (cases c)
  case (Property name v)
  then have n: "CHR 0x00 \<notin> set name" using assms(2) by (simp add: call_ok_def)
  obtain off st1 where f: "fdt_find_add_string name st = Some (off, st1)" "fdt_put (I_PROP off v) st1 = (None, st')"
    using assms(3) Property by (auto simp: fdt_emit_def fdt_property_def split: option.splits prod.splits)
  show ?thesis
    using find_add_string_done [OF assms(1) f(1) n] fdt_put_done [OF f(2)] Property
    by (simp add: sw_ok_def sw_calls_def)
qed (use assms fdt_put_done in \<open>auto simp: fdt_emit_def fdt_begin_node_def fdt_end_node_def sw_ok_def sw_calls_def dest!: fdt_put_done\<close>)

text \<open>The interface the tree builders rely on: an emitted call is appended to what was written.\<close>

locale tree_writer =
  fixes inv :: "'s \<Rightarrow> bool"
    and calls :: "'s \<Rightarrow> 'c list"
    and ok_call :: "'c \<Rightarrow> bool"
    and emit :: "'c \<Rightarrow> 's \<Rightarrow> 'e option \<times> 's"
  assumes emit_done: "inv s \<Longrightarrow> ok_call c \<Longrightarrow> emit c s = (None, s') \<Longrightarrow> inv s' \<and> calls s' = calls s @ [c]"
begin

lemma emit_all_done:
  "inv s \<Longrightarrow> list_all ok_call cs \<Longrightarrow> fold_rc emit cs s = (None, s') \<Longrightarrow> inv s' \<and> calls s' = calls s @ cs"
proof (induction cs arbitrary: s)
  case (Cons c cs)
  then obtain s1 where "emit c s = (None, s1)" "fold_rc emit cs s1 = (None, s')"
    by (auto split: prod.splits option.splits)
  then show ?case using Cons emit_done [of s c s1] by auto
qed simp

end

interpretation sw: tree_writer sw_ok sw_calls call_ok fdt_emit
  by unfold_locales (rule fdt_emit_done)

section \<open>Room\<close>

text \<open>An upper bound of the bytes a call takes, its name in the string table included.\<close>

definition call_cost :: "fdt_call \<Rightarrow> nat" where
  "call_cost c = (case c of
       Begin_node name \<Rightarrow> item_size (I_BEGIN name)
     | Property name v \<Rightarrow> item_size (I_PROP 0 v) + length name + 1
     | End_node \<Rightarrow> 4)"

definition sw_used :: "fdt_sw \<Rightarrow> nat" where
  "sw_used st = struct_size (sw_items st) + length (sw_strings st)"

lemma struct_size_snoc [simp]: "struct_size (is @ [it]) = struct_size is + item_size it" "struct_size [] = 0"
  by (simp_all add: struct_size_def)

lemma fdt_put_fits:
  assumes "sw_used st + item_size it + SW_OFF_STRUCT \<le> sw_total st"
  shows "fdt_put it st = (None, st\<lparr>sw_items := sw_items st @ [it]\<rparr>)"
  using assms by (simp add: fdt_put_def fdt_grab_space_def sw_used_def)

lemma find_add_string_fits:
  assumes "sw_used st + length s + 1 + SW_OFF_STRUCT \<le> sw_total st" and "sw_total st < 2 ^ 32"
  shows "\<exists>off st'. fdt_find_add_string s st = Some (off, st') \<and> sw_used st' \<le> sw_used st + length s + 1 \<and>
    sw_total st' = sw_total st"
proof (cases "fdt_find_string (sw_strings st) s")
  case None
  let ?off = "length (sw_strings st) + length s + 1"
  have "(int (sw_total st) - int ?off) mod 2 ^ 32 = int (sw_total st) - int ?off"
    using assms by (intro mod_pos_pos_trivial) (auto simp: sw_used_def)
  then have "\<not> (int (sw_total st) - int ?off) mod 2 ^ 32 < int (SW_OFF_STRUCT + struct_size (sw_items st))"
    using assms(1) by (simp add: sw_used_def)
  then have "fdt_find_add_string s st = Some (- int ?off, st\<lparr>sw_strings := s @ [CHR 0x00] @ sw_strings st\<rparr>)"
    using None unfolding fdt_find_add_string_def fdt_add_string_def Let_def by simp
  then show ?thesis by (simp add: sw_used_def)
qed (simp add: fdt_find_add_string_def)

lemma fdt_emit_fits:
  assumes "sw_used st + call_cost c + SW_OFF_STRUCT \<le> sw_total st" and "sw_total st < 2 ^ 32"
  shows "\<exists>st'. fdt_emit c st = (None, st') \<and> sw_used st' \<le> sw_used st + call_cost c \<and> sw_total st' = sw_total st"
proof (cases c)
  case (Property name v)
  obtain off st1 where f: "fdt_find_add_string name st = Some (off, st1)"
      "sw_used st1 \<le> sw_used st + length name + 1" "sw_total st1 = sw_total st"
    using find_add_string_fits [of st name] assms Property by (auto simp: call_cost_def)
  moreover have "fdt_put (I_PROP off v) st1 = (None, st1\<lparr>sw_items := sw_items st1 @ [I_PROP off v]\<rparr>)"
    using f assms Property by (intro fdt_put_fits) (simp add: call_cost_def)
  ultimately show ?thesis
    using Property by (simp add: fdt_emit_def fdt_property_def call_cost_def sw_used_def)
next
  case (Begin_node name)
  then show ?thesis using assms fdt_put_fits [of st "I_BEGIN name"]
    by (simp add: fdt_emit_def fdt_begin_node_def call_cost_def sw_used_def)
next
  case End_node
  then show ?thesis using assms fdt_put_fits [of st I_END]
    by (simp add: fdt_emit_def fdt_end_node_def call_cost_def sw_used_def)
qed

lemma fdt_emit_error: "fdt_emit c st = (Some e, st') \<Longrightarrow> e = FDT_ERR_NOSPACE"
  by (auto simp: fdt_emit_def fdt_begin_node_def fdt_end_node_def fdt_property_def fdt_put_def
      split: fdt_call.splits option.splits prod.splits if_splits)

lemma emit_all_error: "fold_rc fdt_emit cs st = (Some e, st') \<Longrightarrow> e = FDT_ERR_NOSPACE"
  by (induction cs arbitrary: st) (auto split: prod.splits option.splits dest: fdt_emit_error)

lemma emit_all_fits:
  assumes "sw_used st + sum_list (map call_cost cs) + SW_OFF_STRUCT \<le> sw_total st" and "sw_total st < 2 ^ 32"
  shows "\<exists>st'. fold_rc fdt_emit cs st = (None, st') \<and> sw_used st' \<le> sw_used st + sum_list (map call_cost cs) \<and>
    sw_total st' = sw_total st"
  using assms
proof (induction cs arbitrary: st)
  case (Cons c cs)
  obtain st1 where 1: "fdt_emit c st = (None, st1)" "sw_used st1 \<le> sw_used st + call_cost c" "sw_total st1 = sw_total st"
    using fdt_emit_fits [of st c] Cons.prems by auto
  then show ?case using Cons.IH [of st1] Cons.prems by fastforce
qed simp

lemma try_build_result:
  assumes "list_all call_ok cs" and "SW_OFF_STRUCT \<le> sz"
  shows "case fdtutil_try_build (fold_rc fdt_emit cs) sz of
      (None, st') \<Rightarrow> \<exists>st. sw_ok st \<and> sw_calls st = cs \<and> fdt_finish st = (None, st')
    | (Some e, _) \<Rightarrow> e = FDT_ERR_NOSPACE"
proof -
  let ?st = "\<lparr>sw_total = sz, sw_items = [], sw_strings = []\<rparr>"
  obtain r st where b: "fold_rc fdt_emit cs ?st = (r, st)" by fastforce
  have t: "fdtutil_try_build (fold_rc fdt_emit cs) sz =
      (case r of None \<Rightarrow> fdt_finish st | Some e \<Rightarrow> (Some e, st))"
    using assms(2) b
    by (simp add: fdtutil_try_build_def fdt_create_def fdt_finish_reservemap_def SW_OFF_STRUCT_def split: option.split prod.split)
  show ?thesis
  proof (cases r)
    case None
    have "sw_ok st \<and> sw_calls st = cs"
      using sw.emit_all_done [of ?st cs st] assms(1) b None by (simp add: sw_ok_def sw_calls_def)
    then show ?thesis using t None by (auto simp: fdt_finish_def split: if_splits)
  next
    case (Some e)
    then show ?thesis using t b emit_all_error [of cs ?st e st] by simp
  qed
qed

lemma try_build_fits:
  assumes "sum_list (map call_cost cs) + 4 + SW_OFF_STRUCT \<le> sz" and "sz < 2 ^ 32"
  shows "\<exists>st'. fdtutil_try_build (fold_rc fdt_emit cs) sz = (None, st')"
proof -
  let ?st = "\<lparr>sw_total = sz, sw_items = [], sw_strings = []\<rparr>"
  obtain st where st: "fold_rc fdt_emit cs ?st = (None, st)" "sw_used st \<le> sum_list (map call_cost cs)" "sw_total st = sz"
    using emit_all_fits [of ?st cs] assms by (auto simp: sw_used_def)
  then have "fdt_grab_space 4 st" using assms(1) by (simp add: fdt_grab_space_def sw_used_def)
  then show ?thesis
    using assms(1) st
    by (simp add: fdtutil_try_build_def fdt_create_def fdt_finish_reservemap_def SW_OFF_STRUCT_def fdt_finish_def)
qed

lemma build_loop_result:
  assumes "list_all call_ok cs" and "k \<le> 8"
  shows "case fdtutil_build_loop ok (fold_rc fdt_emit cs) k of
      Inr blob \<Rightarrow> \<exists>st st'. sw_ok st \<and> sw_calls st = cs \<and> fdt_finish st = (None, st') \<and> blob = fdt_pack st'
    | Inl e \<Rightarrow> e = ENOMEM \<and> \<not> (\<forall>n. ok n) \<or>
        e = ENOSPC \<and> 4 * 1024 * 1024 < sum_list (map call_cost cs) + 4 + SW_OFF_STRUCT"
  using assms(2)
proof (induction "8 - k" arbitrary: k)
  case (Suc x)
  let ?sz = "16 * 1024 * 2 ^ k :: nat"
  have k: "k < 8" using Suc.hyps(2) by simp
  then have "(2 :: nat) ^ k < 2 ^ 8" by (rule power_strict_increasing) simp
  then have small: "\<not> 4 * 1024 * 1024 \<le> ?sz" by simp
  have "(1 :: nat) \<le> 2 ^ k" by simp
  then have base: "SW_OFF_STRUCT \<le> ?sz" by (simp add: SW_OFF_STRUCT_def SW_HDRSIZE_def)
  obtain r st where t: "fdtutil_try_build (fold_rc fdt_emit cs) ?sz = (r, st)" by fastforce
  show ?case
    using try_build_result [OF assms(1) base] Suc.hyps(1) [of "Suc k"] Suc.hyps(2) k t small
    by (subst fdtutil_build_loop.simps) (cases r; auto simp: Let_def)
next
  case 0
  then have k: "k = 8" by simp
  let ?sz = "16 * 1024 * 2 ^ k :: nat"
  have base: "SW_OFF_STRUCT \<le> ?sz" and sz: "?sz = 4 * 1024 * 1024"
    by (simp_all add: SW_OFF_STRUCT_def SW_HDRSIZE_def k)
  obtain r st where t: "fdtutil_try_build (fold_rc fdt_emit cs) ?sz = (r, st)" by fastforce
  have "r \<noteq> None \<Longrightarrow> 4 * 1024 * 1024 < sum_list (map call_cost cs) + 4 + SW_OFF_STRUCT"
    using try_build_fits [of cs ?sz] t sz by (auto simp: not_less [symmetric])
  then show ?case
    using try_build_result [OF assms(1) base] t sz
    by (subst fdtutil_build_loop.simps) (cases r; auto simp: Let_def)
qed

lemma fdtutil_build_result:
  assumes "list_all call_ok cs" and "\<And>st. fn st = fold_rc fdt_emit cs st"
  shows "case fdtutil_build ok fn of
      Inr blob \<Rightarrow> \<exists>st st'. sw_ok st \<and> sw_calls st = cs \<and> fdt_finish st = (None, st') \<and> blob = fdt_pack st'
    | Inl e \<Rightarrow> e = ENOMEM \<and> \<not> (\<forall>n. ok n) \<or>
        e = ENOSPC \<and> 4 * 1024 * 1024 < sum_list (map call_cost cs) + 4 + SW_OFF_STRUCT"
proof -
  have "fn = fold_rc fdt_emit cs" using assms(2) by auto
  then show ?thesis using build_loop_result [OF assms(1), of 0 ok] by (simp add: fdtutil_build_def)
qed

end
