(* ===== verification/Ranges.thy ===== *)
theory Ranges
  imports Kmorph_Prelude
begin

text \<open>
  Range sets (\<open>lib/ranges.c\<close>, \<open>include/kmorph/ranges.h\<close>): sorted, non-overlapping,
  non-adjacent ranges of 64-bit physical addresses, kept in an array that is
  edited in place. The index loops of the source are index loops here; each is
  shown equal to a recursion on the list of ranges, and the operations are shown
  to be union, difference and rounding of the set of addresses a range set
  denotes.
\<close>

section \<open>The code\<close>

record range =
  r_base :: u64
  r_size :: u64

text \<open>\<open>count\<close> is the length of the list; \<open>cap\<close> is kept, as it decides when the array is reallocated.\<close>

record rangeset =
  rs_r :: "range list"
  rs_cap :: nat

definition RANGESET_INIT :: rangeset where
  "RANGESET_INIT = \<lparr>rs_r = [], rs_cap = 0\<rparr>"

abbreviation rs_count :: "rangeset \<Rightarrow> nat" where
  "rs_count s \<equiv> length (rs_r s)"

definition range_end :: "range \<Rightarrow> u64" where
  "range_end r = r_base r + r_size r"

definition sizeof_range :: nat where
  "sizeof_range = 16"

definition rangeset_insert :: "alloc \<Rightarrow> rangeset \<Rightarrow> nat \<Rightarrow> u64 \<Rightarrow> u64 \<Rightarrow> rc \<times> rangeset" where
  "rangeset_insert ok s at base sz =
     (let put = (\<lambda>s. s\<lparr>rs_r := take at (rs_r s) @ [\<lparr>r_base = base, r_size = sz\<rparr>] @ drop at (rs_r s)\<rparr>) in
      if rs_count s = rs_cap s then
        let cap = (if rs_cap s \<noteq> 0 then rs_cap s * 2 else 8) in
        if \<not> ok (cap * sizeof_range) then (Some ENOMEM, s)
        else (None, put (s\<lparr>rs_cap := cap\<rparr>))
      else (None, put s))"

definition rangeset_remove :: "rangeset \<Rightarrow> nat \<Rightarrow> rangeset" where
  "rangeset_remove s at = s\<lparr>rs_r := take at (rs_r s) @ drop (Suc at) (rs_r s)\<rparr>"

text \<open>The two loops of \<open>rangeset_add\<close>.\<close>

function add_skip :: "rangeset \<Rightarrow> u64 \<Rightarrow> nat \<Rightarrow> nat" where
  "add_skip s base i =
     (if i < rs_count s \<and> range_end (rs_r s ! i) < base then add_skip s base (Suc i) else i)"
  by pat_completeness auto
termination
  by (relation "measure (\<lambda>(s, base, i). rs_count s - i)") auto

function add_swallow :: "rangeset \<Rightarrow> nat \<Rightarrow> u64 \<Rightarrow> u64 \<Rightarrow> rangeset \<times> u64 \<times> u64" where
  "add_swallow s i base end =
     (if i < rs_count s \<and> r_base (rs_r s ! i) \<le> end then
        let base' = (if r_base (rs_r s ! i) < base then r_base (rs_r s ! i) else base);
            end' = (if range_end (rs_r s ! i) > end then range_end (rs_r s ! i) else end)
        in add_swallow (rangeset_remove s i) i base' end'
      else (s, base, end))"
  by pat_completeness auto
termination
  by (relation "measure (\<lambda>(s, i, base, end). rs_count s)") (auto simp: rangeset_remove_def)

declare add_skip.simps [simp del] add_swallow.simps [simp del]

definition rangeset_add :: "alloc \<Rightarrow> rangeset \<Rightarrow> u64 \<Rightarrow> u64 \<Rightarrow> rc \<times> rangeset" where
  "rangeset_add ok s base sz =
     (let end = base + sz in
      if sz = 0 \<or> end < base then (Some EINVAL, s)
      else
        let i = add_skip s base 0;
            (s', base', end') = add_swallow s i base end
        in rangeset_insert ok s' i base' (end' - base'))"

function sub_loop :: "alloc \<Rightarrow> rangeset \<Rightarrow> u64 \<Rightarrow> u64 \<Rightarrow> nat \<Rightarrow> rc \<times> rangeset" where
  "sub_loop ok s base end i =
     (if i < rs_count s then
        let r = rs_r s ! i; rend = range_end r in
        if rend \<le> base \<or> r_base r \<ge> end then sub_loop ok s base end (Suc i)
        else if r_base r < base \<and> rend > end then
          (case rangeset_insert ok s (Suc i) end (rend - end) of
             (Some e, s') \<Rightarrow> (Some e, s')
           | (None, s') \<Rightarrow> (None, s'\<lparr>rs_r := (rs_r s')[i := (rs_r s' ! i)\<lparr>r_size := base - r_base (rs_r s' ! i)\<rparr>]\<rparr>))
        else if r_base r < base then
          sub_loop ok (s\<lparr>rs_r := (rs_r s)[i := r\<lparr>r_size := base - r_base r\<rparr>]\<rparr>) base end (Suc i)
        else if rend > end then
          sub_loop ok (s\<lparr>rs_r := (rs_r s)[i := r\<lparr>r_size := rend - end, r_base := end\<rparr>]\<rparr>) base end (Suc i)
        else sub_loop ok (rangeset_remove s i) base end i
      else (None, s))"
  by pat_completeness auto
termination
  by (relation "measure (\<lambda>(ok, s, base, end, i). rs_count s - i)") (auto simp: rangeset_remove_def)

declare sub_loop.simps [simp del]

definition rangeset_subtract :: "alloc \<Rightarrow> rangeset \<Rightarrow> u64 \<Rightarrow> u64 \<Rightarrow> rc \<times> rangeset" where
  "rangeset_subtract ok s base sz =
     (let end = base + sz in
      if sz = 0 \<or> end < base then (Some EINVAL, s)
      else sub_loop ok s base end 0)"

definition rangeset_subtract_set :: "alloc \<Rightarrow> rangeset \<Rightarrow> rangeset \<Rightarrow> rc \<times> rangeset" where
  "rangeset_subtract_set ok s m =
     fold_rc (\<lambda>r s. rangeset_subtract ok s (r_base r) (r_size r)) (rs_r m) s"

definition rangeset_free :: "rangeset \<Rightarrow> rangeset" where
  "rangeset_free s = s\<lparr>rs_r := [], rs_cap := 0\<rparr>"

definition rangeset_copy :: "alloc \<Rightarrow> rangeset \<Rightarrow> rangeset \<Rightarrow> rc \<times> rangeset" where
  "rangeset_copy ok dst src =
     fold_rc (\<lambda>r s. rangeset_add ok s (r_base r) (r_size r)) (rs_r src) (rangeset_free dst)"

definition align_one :: "alloc \<Rightarrow> u64 \<Rightarrow> range \<Rightarrow> rangeset \<Rightarrow> rc \<times> rangeset" where
  "align_one ok block r out =
     (let base = (r_base r + block - 1) div block * block;
          end = range_end r div block * block
      in if end \<le> base then (None, out) else rangeset_add ok out base (end - base))"

definition rangeset_align :: "alloc \<Rightarrow> rangeset \<Rightarrow> u64 \<Rightarrow> rangeset \<Rightarrow> rc \<times> rangeset" where
  "rangeset_align ok s block out =
     (if block = 0 then (Some EINVAL, out) else fold_rc (align_one ok block) (rs_r s) out)"

definition rangeset_contains :: "rangeset \<Rightarrow> u64 \<Rightarrow> u64 \<Rightarrow> bool" where
  "rangeset_contains s base sz =
     list_ex (\<lambda>r. r_base r \<le> base \<and> base + sz \<le> range_end r) (rs_r s)"

definition rangeset_total :: "rangeset \<Rightarrow> u64" where
  "rangeset_total s = foldl (\<lambda>t r. t + r_size r) 0 (rs_r s)"

text \<open>Ranges in the order given, never merged.\<close>

record rangelist =
  rl_r :: "range list"

definition rangelist_add :: "alloc \<Rightarrow> rangelist \<Rightarrow> u64 \<Rightarrow> u64 \<Rightarrow> rc \<times> rangelist" where
  "rangelist_add ok l base sz =
     (if \<not> ok ((length (rl_r l) + 1) * sizeof_range) then (Some ENOMEM, l)
      else (None, l\<lparr>rl_r := rl_r l @ [\<lparr>r_base = base, r_size = sz\<rparr>]\<rparr>))"

definition rangelist_free :: "rangelist \<Rightarrow> rangelist" where
  "rangelist_free l = l\<lparr>rl_r := []\<rparr>"

section \<open>What a range set denotes\<close>

text \<open>
  A range is well formed when it is non-empty and does not wrap; on words that
  is one comparison.
\<close>

definition range_ok :: "range \<Rightarrow> bool" where
  "range_ok r = (r_base r < range_end r)"

fun ranges_ok :: "range list \<Rightarrow> bool" where
  "ranges_ok [] = True"
| "ranges_ok (r # rs) = (range_ok r \<and> list_all (\<lambda>q. range_end r < r_base q) rs \<and> ranges_ok rs)"

text \<open>The documented invariant of \<open>struct rangeset\<close>: sorted, non-overlapping, non-adjacent.\<close>

definition rangeset_inv :: "rangeset \<Rightarrow> bool" where
  "rangeset_inv s = (ranges_ok (rs_r s) \<and> rs_count s \<le> rs_cap s)"

definition range_den :: "range \<Rightarrow> u64 set" where
  "range_den r = {r_base r ..< range_end r}"

definition ranges_den :: "range list \<Rightarrow> u64 set" where
  "ranges_den rs = (\<Union>r \<in> set rs. range_den r)"

definition rangeset_den :: "rangeset \<Rightarrow> u64 set" where
  "rangeset_den s = ranges_den (rs_r s)"

lemma ranges_den_simps [simp]:
  "ranges_den [] = {}"
  "ranges_den (r # rs) = range_den r \<union> ranges_den rs"
  "ranges_den (rs @ qs) = ranges_den rs \<union> ranges_den qs"
  by (auto simp: ranges_den_def)

lemma range_end_sub [simp]: "range_end \<lparr>r_base = b, r_size = e - b\<rparr> = e"
  by (simp add: range_end_def)

lemma range_ok_nonempty: "base + sz > base \<longleftrightarrow> sz \<noteq> 0 \<and> \<not> base + sz < (base :: u64)"
  by (auto simp: not_less order_le_less)

lemma ranges_ok_append:
  "ranges_ok (xs @ ys) \<longleftrightarrow> ranges_ok xs \<and> ranges_ok ys \<and>
     (\<forall>x \<in> set xs. \<forall>y \<in> set ys. range_end x < r_base y)"
  by (induction xs) (auto simp: list_all_iff)

lemma ranges_ok_mem: "ranges_ok rs \<Longrightarrow> r \<in> set rs \<Longrightarrow> range_ok r"
  by (induction rs) auto


section \<open>Adding a range\<close>

lemma add_skip_takeWhile:
  "i \<le> rs_count s \<Longrightarrow>
     add_skip s base i = i + length (takeWhile (\<lambda>r. range_end r < base) (drop i (rs_r s)))"
proof (induction s base i rule: add_skip.induct)
  case (1 s base i)
  show ?case
  proof (cases "i < rs_count s")
    case True
    then show ?thesis
      using "1" by (auto simp: add_skip.simps [of s base i] Cons_nth_drop_Suc [symmetric])
  next
    case False
    then show ?thesis using "1.prems" by (subst add_skip.simps) simp
  qed
qed

text \<open>The second loop as a recursion on the ranges that follow the insertion point.\<close>

fun swallow :: "range list \<Rightarrow> u64 \<Rightarrow> u64 \<Rightarrow> range list \<times> u64 \<times> u64" where
  "swallow [] b e = ([], b, e)"
| "swallow (r # rs) b e =
     (if r_base r \<le> e then swallow rs (min (r_base r) b) (max (range_end r) e) else (r # rs, b, e))"

lemma add_swallow_swallow:
  "i \<le> rs_count s \<Longrightarrow>
     add_swallow s i b e =
       (let (post, b', e') = swallow (drop i (rs_r s)) b e
        in (s\<lparr>rs_r := take i (rs_r s) @ post\<rparr>, b', e'))"
proof (induction s i b e rule: add_swallow.induct)
  case (1 s i b e)
  show ?case
  proof (cases "i < rs_count s \<and> r_base (rs_r s ! i) \<le> e")
    case True
    let ?r = "rs_r s ! i"
    have d: "drop i (rs_r s) = ?r # drop (Suc i) (rs_r s)"
      using True by (simp add: Cons_nth_drop_Suc)
    have rest: "drop i (rs_r (rangeset_remove s i)) = drop (Suc i) (rs_r s)"
      using "1.prems" by (simp add: rangeset_remove_def)
    have pre: "take i (rs_r (rangeset_remove s i)) = take i (rs_r s)"
      using "1.prems" by (simp add: rangeset_remove_def)
    have b: "(if r_base ?r < b then r_base ?r else b) = min (r_base ?r) b"
      by (auto simp: min_def)
    have e: "(if e < range_end ?r then range_end ?r else e) = max (range_end ?r) e"
      by (auto simp: max_def)
    have len: "i \<le> rs_count (rangeset_remove s i)"
      using True by (auto simp: rangeset_remove_def)
    note IH = "1.IH" [OF True refl refl len]
    show ?thesis
      using True IH
      by (simp add: add_swallow.simps [of s i b e] d rest pre b e Let_def)
         (simp add: rangeset_remove_def)
  next
    case False
    then have "swallow (drop i (rs_r s)) b e = (drop i (rs_r s), b, e)"
      using "1.prems" by (cases "i < rs_count s") (auto simp: Cons_nth_drop_Suc [symmetric])
    then show ?thesis using False by (subst add_swallow.simps, subst if_not_P) simp_all
  qed
qed

lemma swallow_correct:
  assumes "swallow rs b e = (post, b', e')" and "ranges_ok rs" and "b < e"
    and "\<forall>r \<in> set rs. b \<le> range_end r"
  shows "ranges_ok post \<and> (\<forall>r \<in> set post. e' < r_base r) \<and> b' \<le> b \<and> e \<le> e' \<and>
         set post \<subseteq> set rs \<and> (b' = b \<or> b' \<in> r_base ` set rs) \<and>
         {b' ..< e'} \<union> ranges_den post = {b ..< e} \<union> ranges_den rs"
  using assms
proof (induction rs b e rule: swallow.induct)
  case (1 b e)
  then show ?case by auto
next
  case (2 r rs b e)
  show ?case
  proof (cases "r_base r \<le> e")
    case True
    have ok: "range_ok r" "ranges_ok rs" and after: "\<forall>q \<in> set rs. range_end r < r_base q"
      using "2.prems"(2) by (auto simp: list_all_iff)
    have "min (r_base r) b < max (range_end r) e"
      using "2.prems"(3) by (auto simp: min_def max_def)
    moreover have "\<forall>q \<in> set rs. min (r_base r) b \<le> range_end q"
      using "2.prems"(4) by (auto simp: min_def intro: order_trans)
    moreover have "swallow rs (min (r_base r) b) (max (range_end r) e) = (post, b', e')"
      using "2.prems"(1) True by simp
    moreover have "{min (r_base r) b ..< max (range_end r) e} = {b ..< e} \<union> range_den r"
      using True "2.prems"(3,4) ok(1)
      by (auto simp: range_den_def range_ok_def min_def max_def)
    ultimately show ?thesis
      using "2.IH" [OF True] ok(2) by (auto simp: min_def max_def split: if_splits)
  next
    case False
    then show ?thesis
      using "2.prems" by (fastforce simp: list_all_iff range_ok_def)
  qed
qed

lemma swallow_same:
  "swallow rs b e = (post, b', e') \<Longrightarrow> length post < length rs \<or> post = rs"
proof (induction rs b e rule: swallow.induct)
  case (1 b e)
  then show ?case by simp
next
  case (2 r rs b e)
  then show ?case by (cases "r_base r \<le> e") auto
qed

lemma rangeset_insert_cases:
  obtains (fail) "rangeset_insert ok s at b z = (Some ENOMEM, s)"
        "rs_count s = rs_cap s" "\<not> ok ((if rs_cap s \<noteq> 0 then rs_cap s * 2 else 8) * sizeof_range)"
    | (added) c where
        "rangeset_insert ok s at b z =
           (None, s\<lparr>rs_r := take at (rs_r s) @ \<lparr>r_base = b, r_size = z\<rparr> # drop at (rs_r s), rs_cap := c\<rparr>)"
        "rs_count s \<le> rs_cap s \<Longrightarrow> Suc (rs_count s) \<le> c"
proof (cases "rs_count s = rs_cap s")
  case True
  show ?thesis
  proof (cases "ok ((if rs_cap s \<noteq> 0 then rs_cap s * 2 else 8) * sizeof_range)")
    case False
    then show ?thesis using True fail by (simp add: rangeset_insert_def)
  next
    case ok: True
    show ?thesis
      using True ok by (intro added [of "if rs_cap s \<noteq> 0 then rs_cap s * 2 else 8"])
        (auto simp: rangeset_insert_def Let_def)
  qed
next
  case False
  then show ?thesis by (intro added [of "rs_cap s"]) (auto simp: rangeset_insert_def)
qed

lemma takeWhile_all: "x \<in> set (takeWhile P xs) \<Longrightarrow> P x"
  by (induction xs) (auto split: if_splits)

lemma add_skip_split:
  assumes "ranges_ok (rs_r s)"
  obtains pre suf where "rs_r s = pre @ suf" "add_skip s b 0 = length pre"
    "\<forall>x \<in> set pre. range_end x < b" "\<forall>q \<in> set suf. b \<le> range_end q"
proof
  let ?P = "\<lambda>r. range_end r < b"
  show "rs_r s = takeWhile ?P (rs_r s) @ dropWhile ?P (rs_r s)" by simp
  show "add_skip s b 0 = length (takeWhile ?P (rs_r s))" by (simp add: add_skip_takeWhile)
  show "\<forall>x \<in> set (takeWhile ?P (rs_r s)). range_end x < b" by (auto dest: takeWhile_all)
  show "\<forall>q \<in> set (dropWhile ?P (rs_r s)). b \<le> range_end q"
    using assms
  proof (induction "rs_r s" arbitrary: s)
    case Nil
    then show ?case by (metis dropWhile.simps(1) empty_iff empty_set)
  next
    case (Cons r rs)
    from Cons.hyps(2) [symmetric] have rs: "rs_r s = r # rs" .
    have after: "\<forall>q \<in> set rs. range_end r < r_base q \<and> range_ok q"
      using Cons.prems rs by (auto simp: list_all_iff ranges_ok_mem)
    show ?case
    proof (cases "range_end r < b")
      case True
      then show ?thesis using Cons.hyps(1) [of "s\<lparr>rs_r := rs\<rparr>"] Cons.prems rs by simp
    next
      case False
      then show ?thesis using after rs by (force simp: range_ok_def)
    qed
  qed
qed

text \<open>
  What \<open>rangeset_add\<close> does in terms of the list: everything before the new range
  is kept, what touches it is merged into it, the rest follows. The array can
  only grow when nothing was merged, so a failed call leaves the set as it was.
\<close>

lemma rangeset_add_split:
  assumes inv: "rangeset_inv s" and ok: "b < b + z"
  obtains pre suf post b' e' where "rs_r s = pre @ suf" "\<forall>x \<in> set pre. range_end x < b"
    "\<forall>q \<in> set suf. b \<le> range_end q" "swallow suf b (b + z) = (post, b', e')"
    "rangeset_add alc s b z = rangeset_insert alc (s\<lparr>rs_r := pre @ post\<rparr>) (length pre) b' (e' - b')"
proof -
  have oks: "ranges_ok (rs_r s)" using inv by (simp add: rangeset_inv_def)
  obtain pre suf where r: "rs_r s = pre @ suf" and skip: "add_skip s b 0 = length pre"
    and pre: "\<forall>x \<in> set pre. range_end x < b" and suf: "\<forall>q \<in> set suf. b \<le> range_end q"
    using add_skip_split [OF oks] by metis
  obtain post b' e' where sw: "swallow suf b (b + z) = (post, b', e')"
    by (cases "swallow suf b (b + z)")
  have "add_swallow s (length pre) b (b + z) = (s\<lparr>rs_r := pre @ post\<rparr>, b', e')"
    using add_swallow_swallow [of "length pre" s b "b + z"] sw r by simp
  then have "rangeset_add alc s b z = rangeset_insert alc (s\<lparr>rs_r := pre @ post\<rparr>) (length pre) b' (e' - b')"
    using ok by (auto simp: rangeset_add_def skip Let_def)
  then show ?thesis using that r pre suf sw by blast
qed

lemma rangeset_add_shape:
  assumes inv: "rangeset_inv s" and ok: "b < b + z"
  obtains (fail) "rangeset_add alc s b z = (Some ENOMEM, s)" "\<not> (\<forall>n. alc n)"
    | (added) s' where "rangeset_add alc s b z = (None, s')" "rangeset_inv s'"
        "rangeset_den s' = rangeset_den s \<union> {b ..< b + z}"
proof -
  have oks: "ranges_ok (rs_r s)" and cap: "rs_count s \<le> rs_cap s"
    using inv by (auto simp: rangeset_inv_def)
  obtain pre suf post b' e' where r: "rs_r s = pre @ suf" and pre: "\<forall>x \<in> set pre. range_end x < b"
    and suf: "\<forall>q \<in> set suf. b \<le> range_end q" and sw: "swallow suf b (b + z) = (post, b', e')"
    and eq: "rangeset_add alc s b z = rangeset_insert alc (s\<lparr>rs_r := pre @ post\<rparr>) (length pre) b' (e' - b')"
    by (rule rangeset_add_split [OF assms])
  have okr: "ranges_ok pre" "ranges_ok suf" "\<forall>x \<in> set pre. \<forall>y \<in> set suf. range_end x < r_base y"
    using oks r by (auto simp: ranges_ok_append)
  note sc = swallow_correct [OF sw okr(2) ok suf]
  let ?s = "s\<lparr>rs_r := pre @ post\<rparr>"
  have pre_b: "\<forall>x \<in> set pre. range_end x < b'" using sc okr(3) pre by auto
  have be: "b' < e'" using sc ok by auto
  show ?thesis
  proof (cases rule: rangeset_insert_cases [of alc ?s "length pre" b' "e' - b'"])
    case nomem: fail
    have "post = suf" using swallow_same [OF sw] nomem(2) cap r by auto
    then have "?s = s" using r by simp
    then show ?thesis using fail nomem eq by metis
  next
    case put: (added c)
    have "length pre + length post \<le> rs_cap s"
      using cap r swallow_same [OF sw] by auto
    moreover have "\<forall>x \<in> set pre. \<forall>y \<in> set post. range_end x < r_base y"
      using sc okr(3) by blast
    ultimately show ?thesis
      using put eq sc okr(1) pre_b be r
      by (intro added)
         (auto simp: rangeset_inv_def rangeset_den_def ranges_ok_append range_ok_def
            list_all_iff range_den_def)
  qed
qed

text \<open>
  The call needs memory exactly when the array is full and the range touches
  none of the set's: otherwise it is merged, or there is room.
\<close>

definition add_needs_memory :: "rangeset \<Rightarrow> u64 \<Rightarrow> u64 \<Rightarrow> bool" where
  "add_needs_memory s b e =
     (rs_count s = rs_cap s \<and> (\<forall>r \<in> set (rs_r s). range_end r < b \<or> e < r_base r))"

definition grown_size :: "rangeset \<Rightarrow> nat" where
  "grown_size s = (if rs_cap s = 0 then 8 else 2 * rs_cap s) * sizeof_range"

lemma rangeset_add_errno:
  assumes inv: "rangeset_inv s" and ok: "b < b + z"
  shows "fst (rangeset_add alc s b z) =
    (if add_needs_memory s b (b + z) \<and> \<not> alc (grown_size s) then Some ENOMEM else None)"
proof -
  obtain pre suf post b' e' where r: "rs_r s = pre @ suf" and pre: "\<forall>x \<in> set pre. range_end x < b"
    and suf: "\<forall>q \<in> set suf. b \<le> range_end q" and sw: "swallow suf b (b + z) = (post, b', e')"
    and eq: "rangeset_add alc s b z = rangeset_insert alc (s\<lparr>rs_r := pre @ post\<rparr>) (length pre) b' (e' - b')"
    by (rule rangeset_add_split [OF assms])
  have oks: "ranges_ok suf" and cap: "rs_count s \<le> rs_cap s"
    using inv r by (auto simp: rangeset_inv_def ranges_ok_append)
  note sc = swallow_correct [OF sw oks ok suf]
  have "length post = length suf \<longleftrightarrow> (\<forall>q \<in> set suf. b + z < r_base q)"
  proof
    assume "length post = length suf"
    then have "post = suf" using swallow_same [OF sw] by auto
    then show "\<forall>q \<in> set suf. b + z < r_base q" using sc by (auto intro: le_less_trans)
  next
    assume "\<forall>q \<in> set suf. b + z < r_base q"
    then show "length post = length suf" using sw by (cases suf) (auto simp: not_le [symmetric])
  qed
  moreover have "length post \<le> length suf" using swallow_same [OF sw] by auto
  moreover have "(\<forall>q \<in> set (rs_r s). range_end q < b \<or> b + z < r_base q) \<longleftrightarrow> (\<forall>q \<in> set suf. b + z < r_base q)"
    using pre suf r by (auto simp: not_less [symmetric])
  ultimately have "length pre + length post = rs_cap s \<longleftrightarrow> add_needs_memory s b (b + z)"
    using cap r unfolding add_needs_memory_def by auto
  then show ?thesis
    unfolding eq by (auto simp: rangeset_insert_def Let_def grown_size_def mult.commute)
qed

section \<open>Subtracting a range\<close>

fun subt :: "range list \<Rightarrow> u64 \<Rightarrow> u64 \<Rightarrow> range list" where
  "subt [] b e = []"
| "subt (r # rs) b e =
     (if range_end r \<le> b \<or> r_base r \<ge> e then r # subt rs b e
      else if r_base r < b \<and> range_end r > e then
        r\<lparr>r_size := b - r_base r\<rparr> # \<lparr>r_base = e, r_size = range_end r - e\<rparr> # rs
      else if r_base r < b then r\<lparr>r_size := b - r_base r\<rparr> # subt rs b e
      else if range_end r > e then r\<lparr>r_size := range_end r - e, r_base := e\<rparr> # subt rs b e
      else subt rs b e)"

lemma subt_correct:
  assumes "ranges_ok rs" and "b < e"
  shows "ranges_ok (subt rs b e) \<and> ranges_den (subt rs b e) = ranges_den rs - {b ..< e} \<and>
         (\<forall>q \<in> set (subt rs b e). \<exists>r \<in> set rs. r_base r \<le> r_base q)"
  using assms
proof (induction rs b e rule: subt.induct)
  case (1 b e)
  then show ?case by simp
next
  case (2 r rs b e)
  have ok: "range_ok r" "ranges_ok rs" and after: "\<forall>q \<in> set rs. range_end r < r_base q"
    using "2.prems"(1) by (auto simp: list_all_iff)
  have far: "range_end r > e \<Longrightarrow> ranges_den rs \<inter> {b ..< e} = {}"
    using after by (force simp: ranges_den_def range_den_def)
  have after': "\<forall>q \<in> set (subt rs b e). range_end r < r_base q" if "ranges_ok (subt rs b e)"
      "\<forall>q \<in> set (subt rs b e). \<exists>r \<in> set rs. r_base r \<le> r_base q"
    using that after by (meson less_le_trans)
  consider (keep) "range_end r \<le> b \<or> r_base r \<ge> e"
    | (split) "b < range_end r" "r_base r < b" "range_end r > e"
    | (left) "b < range_end r" "r_base r < b" "range_end r \<le> e"
    | (right) "b < range_end r" "b \<le> r_base r" "r_base r < e" "range_end r > e"
    | (gone) "b < range_end r" "b \<le> r_base r" "r_base r < e" "range_end r \<le> e"
    by (meson not_le)
  then show ?case
  proof cases
    case keep
    then show ?thesis
      using "2.IH"(1) "2.prems"(2) ok after'
      by (auto simp: list_all_iff range_den_def range_ok_def)
  next
    case split
    then show ?thesis
      using ok after far "2.prems"(2)
      by (auto simp: list_all_iff range_den_def range_ok_def range_end_def)
  next
    case left
    have IH: "ranges_ok (subt rs b e) \<and> ranges_den (subt rs b e) = ranges_den rs - {b ..< e} \<and>
         (\<forall>q \<in> set (subt rs b e). \<exists>r \<in> set rs. r_base r \<le> r_base q)"
      using "2.IH"(2) "2.prems"(2) ok left less_trans [OF left(2) "2.prems"(2)]
      by (simp add: not_le not_less)
    then have "\<forall>q \<in> set (subt rs b e). b < r_base q"
      using after' left(1) by (meson less_trans)
    then show ?thesis
      using IH left ok
      by (auto simp: list_all_iff range_den_def range_ok_def range_end_def)
  next
    case right
    then show ?thesis
      using "2.IH"(3) "2.prems"(2) ok after'
      by (auto simp: list_all_iff range_den_def range_ok_def range_end_def)
  next
    case gone
    then show ?thesis
      using "2.IH"(4) "2.prems"(2) ok after'
      by (auto simp: list_all_iff range_den_def range_ok_def)
  qed
qed

text \<open>The shared conclusion of the loop lemmas: the list result, or an unchanged set when the array cannot grow.\<close>

definition sub_result :: "alloc \<Rightarrow> rangeset \<Rightarrow> u64 \<Rightarrow> u64 \<Rightarrow> nat \<Rightarrow> bool" where
  "sub_result ok s b e i =
     ((\<exists>c. sub_loop ok s b e i =
             (None, s\<lparr>rs_r := take i (rs_r s) @ subt (drop i (rs_r s)) b e, rs_cap := c\<rparr>) \<and>
           (rs_count s \<le> rs_cap s \<longrightarrow> i + length (subt (drop i (rs_r s)) b e) \<le> c)) \<or>
      (sub_loop ok s b e i = (Some ENOMEM, s) \<and> \<not> (\<forall>n. ok n) \<and>
         (\<exists>q \<in> set (drop i (rs_r s)). r_base q < b)))"

lemma sub_loop_split:
  assumes i: "i < rs_count s"
    and split: "\<not> (range_end (rs_r s ! i) \<le> b \<or> r_base (rs_r s ! i) \<ge> e)"
      "r_base (rs_r s ! i) < b \<and> range_end (rs_r s ! i) > e"
  shows "sub_result ok s b e i"
proof -
  let ?r = "rs_r s ! i"
  have d: "drop i (rs_r s) = ?r # drop (Suc i) (rs_r s)"
    using i by (simp add: Cons_nth_drop_Suc)
  have nth: "take (Suc i) (rs_r s) = take i (rs_r s) @ [?r]"
    using i by (simp add: take_Suc_conv_app_nth)
  show ?thesis
  proof (cases rule: rangeset_insert_cases [of ok s "Suc i" e "range_end ?r - e"])
    case fail
    then have "sub_loop ok s b e i = (Some ENOMEM, s)"
      using i split by (subst sub_loop.simps) auto
    then show ?thesis using fail(3) split d by (auto simp: sub_result_def)
  next
    case (added c)
    have "sub_loop ok s b e i =
      (None, s\<lparr>rs_r := take i (rs_r s) @ subt (drop i (rs_r s)) b e, rs_cap := c\<rparr>)"
      using i split added(1) d nth
      by (subst sub_loop.simps) (auto simp: nth_append list_update_append Let_def)
    moreover have "rs_count s \<le> rs_cap s \<longrightarrow> i + length (subt (drop i (rs_r s)) b e) \<le> c"
      using added(2) split d i by auto
    ultimately show ?thesis unfolding sub_result_def by blast
  qed
qed

lemma take_Suc_update: "i < length xs \<Longrightarrow> take (Suc i) (xs[i := x]) = take i xs @ [x]"
  by (simp add: take_Suc_conv_app_nth)

lemma sub_loop_subt:
  assumes "i \<le> rs_count s" and "ranges_ok (drop i (rs_r s))" and "b < e"
  shows "sub_result ok s b e i"
  using assms
proof (induction ok s b e i rule: sub_loop.induct)
  case (1 ok s b e i)
  show ?case
  proof (cases "i < rs_count s")
    case False
    then show ?thesis using "1.prems" unfolding sub_result_def
      by (subst (1 2) sub_loop.simps) (auto intro!: exI [of _ "rs_cap s"])
  next
    case True
    let ?r = "rs_r s ! i"
    note loop = sub_loop.simps [of ok s b e i, unfolded Let_def]
    have d: "drop i (rs_r s) = ?r # drop (Suc i) (rs_r s)"
      and nth: "take (Suc i) (rs_r s) = take i (rs_r s) @ [?r]"
      using True by (simp_all add: Cons_nth_drop_Suc take_Suc_conv_app_nth)
    have ok: "range_ok ?r" "ranges_ok (drop (Suc i) (rs_r s))"
      and after: "\<forall>q \<in> set (drop (Suc i) (rs_r s)). range_end ?r < r_base q"
      using "1.prems"(2) by (auto simp: d list_all_iff)
    have nolow: "\<not> (\<exists>q \<in> set (drop (Suc i) (rs_r s)). r_base q < b)"
      if "\<not> (range_end ?r \<le> b \<or> r_base ?r \<ge> e)"
      using that after by (meson less_trans not_le less_asym)
    note facts = True ok "1.prems"(3) d nth
    let ?out = "range_end ?r \<le> b \<or> r_base ?r \<ge> e" and ?split = "r_base ?r < b \<and> range_end ?r > e"
    consider (keep) ?out | (split) "\<not> ?out" ?split
      | (left) "\<not> ?out" "\<not> ?split" "r_base ?r < b"
      | (right) "\<not> ?out" "\<not> ?split" "\<not> r_base ?r < b" "range_end ?r > e"
      | (gone) "\<not> ?out" "\<not> ?split" "\<not> r_base ?r < b" "\<not> range_end ?r > e"
      by blast
    then show ?thesis
    proof cases
      case keep
      then have "sub_loop ok s b e i = sub_loop ok s b e (Suc i)" using True loop by auto
      then show ?thesis
        using "1.IH"(1) [OF True refl refl keep] keep facts by (auto simp: sub_result_def)
    next
      case split
      then show ?thesis by (rule sub_loop_split [OF True])
    next
      case left
      then have "sub_loop ok s b e i =
          sub_loop ok (s\<lparr>rs_r := (rs_r s)[i := ?r\<lparr>r_size := b - r_base ?r\<rparr>]\<rparr>) b e (Suc i)"
        using True loop by auto
      then show ?thesis
        using "1.IH"(2) [OF True refl refl left] left facts nolow [OF left(1)]
        by (simp add: sub_result_def take_Suc_update [OF True])
    next
      case right
      then have "sub_loop ok s b e i =
          sub_loop ok (s\<lparr>rs_r := (rs_r s)[i := ?r\<lparr>r_size := range_end ?r - e, r_base := e\<rparr>]\<rparr>) b e (Suc i)"
        using True loop by auto
      then show ?thesis
        using "1.IH"(3) [OF True refl refl right] right facts nolow [OF right(1)]
        by (simp add: sub_result_def take_Suc_update [OF True])
    next
      case gone
      then have "sub_loop ok s b e i = sub_loop ok (rangeset_remove s i) b e i"
        using True loop by auto
      then show ?thesis
        using "1.IH"(4) [OF True refl refl gone] gone facts nolow [OF gone(1)] True
        by (fastforce simp: sub_result_def rangeset_remove_def)
    qed
  qed
qed

lemma rangeset_subtract_shape:
  assumes inv: "rangeset_inv s" and ok: "b < b + z"
  obtains (fail) "rangeset_subtract alc s b z = (Some ENOMEM, s)" "\<not> (\<forall>n. alc n)"
    | (removed) s' where "rangeset_subtract alc s b z = (None, s')" "rangeset_inv s'"
        "rangeset_den s' = rangeset_den s - {b ..< b + z}"
proof -
  have eq: "rangeset_subtract alc s b z = sub_loop alc s b (b + z) 0"
    using ok by (auto simp: rangeset_subtract_def Let_def)
  have oks: "ranges_ok (rs_r s)" "rs_count s \<le> rs_cap s"
    using inv by (auto simp: rangeset_inv_def)
  have "sub_result alc s b (b + z) 0"
    using sub_loop_subt [of 0 s b "b + z" alc] oks ok by simp
  then show ?thesis
    unfolding sub_result_def eq [symmetric]
    using fail removed subt_correct [OF oks(1) ok] oks(2)
    by (auto simp: rangeset_inv_def rangeset_den_def)
qed

section \<open>The interface the other components use\<close>

text \<open>
  A store of address ranges: an addition is a union, a subtraction a difference,
  a rejected or failed call changes nothing. The clients (the takeable
  resources, the memory maps read from \<open>/proc/iomem\<close> and the device tree) run
  lists of such calls and stop at the first failure; what that does to the
  denoted set is proved here once.
\<close>

locale interval_store =
  fixes inv :: "'s \<Rightarrow> bool"
    and den :: "'s \<Rightarrow> u64 set"
    and add :: "'s \<Rightarrow> u64 \<Rightarrow> u64 \<Rightarrow> rc \<times> 's"
    and subtract :: "'s \<Rightarrow> u64 \<Rightarrow> u64 \<Rightarrow> rc \<times> 's"
  assumes add_done: "inv s \<Longrightarrow> add s b z = (None, s') \<Longrightarrow>
      inv s' \<and> den s' = den s \<union> {b ..< b + z}"
    and add_fail: "inv s \<Longrightarrow> add s b z = (Some e, s') \<Longrightarrow> s' = s"
    and subtract_done: "inv s \<Longrightarrow> subtract s b z = (None, s') \<Longrightarrow>
      inv s' \<and> den s' = den s - {b ..< b + z}"
    and subtract_fail: "inv s \<Longrightarrow> subtract s b z = (Some e, s') \<Longrightarrow> s' = s"
begin

lemma add_inv: "inv s \<Longrightarrow> add s b z = (r, s') \<Longrightarrow> inv s'"
  using add_done [of s b z s'] add_fail [of s b z _ s'] by (cases r) auto

lemma subtract_inv: "inv s \<Longrightarrow> subtract s b z = (r, s') \<Longrightarrow> inv s'"
  using subtract_done [of s b z s'] subtract_fail [of s b z _ s'] by (cases r) auto

lemma add_all_inv:
  "inv s \<Longrightarrow> fold_rc (\<lambda>x s. add s (b x) (z x)) xs s = (r, s') \<Longrightarrow> inv s'"
  by (rule fold_rc_invariant) (auto intro: add_inv)

lemma subtract_all_inv:
  "inv s \<Longrightarrow> fold_rc (\<lambda>x s. subtract s (b x) (z x)) xs s = (r, s') \<Longrightarrow> inv s'"
  by (rule fold_rc_invariant) (auto intro: subtract_inv)

lemma add_all_den:
  "inv s \<Longrightarrow> fold_rc (\<lambda>x s. add s (b x) (z x)) xs s = (None, s') \<Longrightarrow>
     den s' = den s \<union> (\<Union>x \<in> set xs. {b x ..< b x + z x})"
proof (induction xs arbitrary: s)
  case Nil
  then show ?case by simp
next
  case (Cons x xs)
  then obtain s1 where x: "add s (b x) (z x) = (None, s1)"
    and rest: "fold_rc (\<lambda>x s. add s (b x) (z x)) xs s1 = (None, s')"
    by (auto split: prod.splits option.splits)
  with Cons.IH [of s1] add_done [OF Cons.prems(1) x] show ?case by auto
qed

lemma subtract_all_den:
  "inv s \<Longrightarrow> fold_rc (\<lambda>x s. subtract s (b x) (z x)) xs s = (None, s') \<Longrightarrow>
     den s' = den s - (\<Union>x \<in> set xs. {b x ..< b x + z x})"
proof (induction xs arbitrary: s)
  case Nil
  then show ?case by simp
next
  case (Cons x xs)
  then obtain s1 where x: "subtract s (b x) (z x) = (None, s1)"
    and rest: "fold_rc (\<lambda>x s. subtract s (b x) (z x)) xs s1 = (None, s')"
    by (auto split: prod.splits option.splits)
  with Cons.IH [of s1] subtract_done [OF Cons.prems(1) x] show ?case by auto
qed

text \<open>Whatever the outcome, subtracting never adds an address.\<close>

lemma subtract_all_subset:
  "inv s \<Longrightarrow> fold_rc (\<lambda>x s. subtract s (b x) (z x)) xs s = (r, s') \<Longrightarrow> den s' \<subseteq> den s"
proof (induction xs arbitrary: s)
  case Nil
  then show ?case by simp
next
  case (Cons x xs)
  obtain r1 s1 where x: "subtract s (b x) (z x) = (r1, s1)" by fastforce
  have "inv s1 \<and> den s1 \<subseteq> den s"
    using subtract_done [OF Cons.prems(1), of "b x" "z x" s1]
      subtract_fail [OF Cons.prems(1), of "b x" "z x" _ s1] x Cons.prems(1)
    by (cases r1) auto
  then show ?case using Cons.IH [of s1] Cons.prems(2) x by (cases r1) auto
qed

end

lemma rangeset_add_bad: "\<not> b < b + z \<Longrightarrow> rangeset_add alc s b z = (Some EINVAL, s)"
  by (auto simp: rangeset_add_def Let_def range_ok_nonempty)

lemma rangeset_subtract_bad: "\<not> b < b + z \<Longrightarrow> rangeset_subtract alc s b z = (Some EINVAL, s)"
  by (auto simp: rangeset_subtract_def Let_def range_ok_nonempty)

lemma rangeset_add_law:
  assumes "rangeset_inv s"
  shows "case rangeset_add alc s b z of
      (None, s') \<Rightarrow> b < b + z \<and> rangeset_inv s' \<and> rangeset_den s' = rangeset_den s \<union> {b ..< b + z}
    | (Some e, s') \<Rightarrow> s' = s \<and> (if b < b + z then e = ENOMEM \<and> \<not> (\<forall>n. alc n) else e = EINVAL)"
proof (cases "b < b + z")
  case True
  then show ?thesis by (cases rule: rangeset_add_shape [OF assms, of b z alc]) simp_all
qed (simp add: rangeset_add_bad)

lemma rangeset_subtract_law:
  assumes "rangeset_inv s"
  shows "case rangeset_subtract alc s b z of
      (None, s') \<Rightarrow> b < b + z \<and> rangeset_inv s' \<and> rangeset_den s' = rangeset_den s - {b ..< b + z}
    | (Some e, s') \<Rightarrow> s' = s \<and> (if b < b + z then e = ENOMEM \<and> \<not> (\<forall>n. alc n) else e = EINVAL)"
proof (cases "b < b + z")
  case True
  then show ?thesis by (cases rule: rangeset_subtract_shape [OF assms, of b z alc]) simp_all
qed (simp add: rangeset_subtract_bad)

interpretation rs: interval_store rangeset_inv rangeset_den "rangeset_add alc" "rangeset_subtract alc"
  for alc
proof unfold_locales
  fix s s' :: rangeset and b z :: u64 and e :: errno
  assume "rangeset_inv s"
  note laws = rangeset_add_law [OF this, of b z alc] rangeset_subtract_law [OF this, of b z alc]
  show "rangeset_add alc s b z = (None, s') \<Longrightarrow>
      rangeset_inv s' \<and> rangeset_den s' = rangeset_den s \<union> {b ..< b + z}"
    and "rangeset_add alc s b z = (Some e, s') \<Longrightarrow> s' = s"
    and "rangeset_subtract alc s b z = (None, s') \<Longrightarrow>
      rangeset_inv s' \<and> rangeset_den s' = rangeset_den s - {b ..< b + z}"
    and "rangeset_subtract alc s b z = (Some e, s') \<Longrightarrow> s' = s"
    using laws by simp_all
qed

lemma rangeset_inv_empty [simp]: "rangeset_inv (rangeset_free s)" "rangeset_inv RANGESET_INIT"
  by (simp_all add: rangeset_inv_def rangeset_free_def RANGESET_INIT_def)

lemma rangeset_den_empty [simp]: "rangeset_den (rangeset_free s) = {}" "rangeset_den RANGESET_INIT = {}"
  by (simp_all add: rangeset_den_def rangeset_free_def RANGESET_INIT_def)

lemma ranges_ok_sizes: "ranges_ok rs \<Longrightarrow> \<forall>r \<in> set rs. r_base r < r_base r + r_size r"
  by (auto dest: ranges_ok_mem simp: range_ok_def range_end_def)

lemma ranges_den_image: "(\<Union>r \<in> set rs. {r_base r ..< r_base r + r_size r}) = ranges_den rs"
  by (simp add: ranges_den_def range_den_def range_end_def)

lemma rangeset_subtract_set_correct:
  assumes "rangeset_inv s" and "rangeset_subtract_set alc s m = (None, s')"
  shows "rangeset_inv s' \<and> rangeset_den s' = rangeset_den s - rangeset_den m"
  using rs.subtract_all_inv [OF assms(1) assms(2) [unfolded rangeset_subtract_set_def]]
    rs.subtract_all_den [OF assms(1) assms(2) [unfolded rangeset_subtract_set_def]]
  by (simp add: ranges_den_image rangeset_den_def)

lemma rangeset_copy_correct:
  assumes "rangeset_copy alc dst src = (None, s')"
  shows "rangeset_inv s' \<and> rangeset_den s' = rangeset_den src"
  using rs.add_all_inv [OF rangeset_inv_empty(1) assms [unfolded rangeset_copy_def]]
    rs.add_all_den [OF rangeset_inv_empty(1) assms [unfolded rangeset_copy_def]]
  by (simp add: ranges_den_image rangeset_den_empty rangeset_den_def [of src])

text \<open>With memory to allocate, a loop over well-formed ranges runs to its end.\<close>

lemma add_all_returns:
  assumes "\<And>n. alc n" and "rangeset_inv s" and "\<forall>x \<in> set xs. b x < b x + z x"
  shows "\<exists>s'. fold_rc (\<lambda>x s. rangeset_add alc s (b x) (z x)) xs s = (None, s')"
  using assms(2,3)
proof (induction xs arbitrary: s)
  case (Cons x xs)
  then have "b x < b x + z x" by simp
  then obtain s1 where "rangeset_add alc s (b x) (z x) = (None, s1)" "rangeset_inv s1"
    using rangeset_add_shape [OF Cons.prems(1)] assms(1) by metis
  then show ?case using Cons.IH [of s1] Cons.prems(2) by simp
qed simp

lemma subtract_all_returns:
  assumes "\<And>n. alc n" and "rangeset_inv s" and "\<forall>x \<in> set xs. b x < b x + z x"
  shows "\<exists>s'. fold_rc (\<lambda>x s. rangeset_subtract alc s (b x) (z x)) xs s = (None, s')"
  using assms(2,3)
proof (induction xs arbitrary: s)
  case (Cons x xs)
  then have "b x < b x + z x" by simp
  then obtain s1 where "rangeset_subtract alc s (b x) (z x) = (None, s1)" "rangeset_inv s1"
    using rangeset_subtract_shape [OF Cons.prems(1)] assms(1) by metis
  then show ?case using Cons.IH [of s1] Cons.prems(2) by simp
qed simp

section \<open>Intervals inside a range set\<close>

text \<open>
  The ranges are not adjacent, so an interval of addresses that lies in the set
  lies in one of its ranges.
\<close>

lemma ranges_connected:
  assumes "ranges_ok rs" and "lo \<le> hi" and "{lo .. hi} \<subseteq> ranges_den rs"
  shows "\<exists>r \<in> set rs. r_base r \<le> lo \<and> hi < range_end r"
  using assms
proof (induction rs)
  case Nil
  then show ?case by auto
next
  case (Cons r rs)
  have after: "\<forall>q \<in> set rs. range_end r < r_base q" and ok: "range_ok r" "ranges_ok rs"
    using Cons.prems(1) by (auto simp: list_all_iff)
  have gap: "range_end r \<notin> ranges_den (r # rs)" and low: "\<forall>x \<in> ranges_den rs. range_end r < x"
    using after by (force simp: ranges_den_def range_den_def)+
  show ?case
  proof (cases "lo \<in> range_den r")
    case True
    have "hi < range_end r"
    proof (rule ccontr)
      assume "\<not> hi < range_end r"
      then have "range_end r \<in> {lo .. hi}" using True by (auto simp: range_den_def)
      then show False using gap Cons.prems(3) by blast
    qed
    then show ?thesis using True by (auto simp: range_den_def)
  next
    case False
    then have "lo \<in> ranges_den rs" using Cons.prems(2,3) by auto
    then have "{lo .. hi} \<inter> range_den r = {}" using low by (force simp: range_den_def)
    then show ?thesis using Cons.IH [OF ok(2) Cons.prems(2)] Cons.prems(3) by auto
  qed
qed

lemma rangeset_contains_correct:
  assumes "rangeset_inv s" and "b < b + z"
  shows "rangeset_contains s b z \<longleftrightarrow> {b ..< b + z} \<subseteq> rangeset_den s"
proof
  assume "rangeset_contains s b z"
  then obtain r where "r \<in> set (rs_r s)" "r_base r \<le> b" "b + z \<le> range_end r"
    by (auto simp: rangeset_contains_def list_ex_iff)
  then show "{b ..< b + z} \<subseteq> rangeset_den s"
    by (force simp: rangeset_den_def ranges_den_def range_den_def)
next
  assume sub: "{b ..< b + z} \<subseteq> rangeset_den s"
  have pos: "0 < b + z" using assms(2) by (metis word_gt_0 word_not_simps(1))
  note pred = word_less_iff_le_pred [OF pos]
  have "{b .. b + z - 1} \<subseteq> ranges_den (rs_r s)" "b \<le> b + z - 1"
    using sub pred assms(2) by (auto simp: rangeset_den_def)
  then obtain r where r: "r \<in> set (rs_r s)" "r_base r \<le> b" "b + z - 1 < range_end r"
    using ranges_connected assms(1) by (metis rangeset_inv_def)
  then have "b + z \<le> range_end r" using pred [of "range_end r"] by (meson not_le)
  then show "rangeset_contains s b z"
    using r by (auto simp: rangeset_contains_def list_ex_iff)
qed

section \<open>Sizes add up\<close>

lemma unat_u64: "unat (x :: u64) < 2 ^ 64"
  using unsigned_less [of x, where 'a = nat] by simp

lemma ranges_disjoint:
  assumes "ranges_ok rs" and "p \<in> set rs" "q \<in> set rs" and "x \<in> range_den p" "x \<in> range_den q"
  shows "p = q"
  using assms
proof (induction rs)
  case (Cons r rs)
  have "range_end r < r_base t" if "t \<in> set rs" for t
    using Cons.prems(1) that by (simp add: list_all_iff)
  then show ?case using Cons by (auto simp: range_den_def) (meson leD less_imp_le less_le_trans)+
qed simp

lemma card_word_interval: "a \<le> b \<Longrightarrow> card {a ..< (b :: u64)} = unat (b - a)"
proof -
  assume "a \<le> b"
  have "unat ` {a ..< b} = {unat a ..< unat b}"
  proof (intro equalityI subsetI)
    fix n assume n: "n \<in> {unat a ..< unat b}"
    then have "unat (of_nat n :: u64) = n" using unat_u64 [of b] by (simp add: unat_of_nat)
    then show "n \<in> unat ` {a ..< b}" using n
      by (intro image_eqI [of _ _ "of_nat n"]) (simp_all add: word_less_nat_alt word_le_nat_alt)
  qed (auto simp: word_less_nat_alt word_le_nat_alt)
  moreover have "card (unat ` {a ..< b}) = card {a ..< b}"
    by (rule card_image) (auto simp: inj_on_def word_unat_eq_iff)
  ultimately show ?thesis using \<open>a \<le> b\<close> by (simp add: unat_sub)
qed

lemma finite_u64 [simp]: "finite (S :: u64 set)"
  by (rule finite_subset [OF subset_UNIV finite])

lemma card_ranges_den: "ranges_ok rs \<Longrightarrow> card (ranges_den rs) = (\<Sum>r \<leftarrow> rs. unat (r_size r))"
proof (induction rs)
  case (Cons r rs)
  have "range_den r \<inter> ranges_den rs = {}"
    using Cons.prems by (fastforce simp: ranges_den_def range_den_def list_all_iff)
  moreover have "card (range_den r) = unat (r_size r)"
    using Cons.prems card_word_interval [OF less_imp_le, of "r_base r" "range_end r"]
    by (auto simp: range_den_def range_ok_def) (simp add: range_end_def)
  ultimately show ?case using Cons by (simp add: card_Un_disjoint)
qed simp

lemma card_ranges_den_less: "ranges_ok rs \<Longrightarrow> card (ranges_den rs) < 2 ^ 64"
proof -
  assume "ranges_ok rs"
  have "- 1 \<notin> ranges_den rs"
    by (auto simp: ranges_den_def range_den_def not_less)
  then have "ranges_den rs \<subset> UNIV" by auto
  then have "card (ranges_den rs) < card (UNIV :: u64 set)" by (intro psubset_card_mono) simp_all
  then show ?thesis by (simp add: card_word)
qed

lemma rangeset_total_sum: "unat (rangeset_total s) = (\<Sum>r \<leftarrow> rs_r s. unat (r_size r)) mod 2 ^ 64"
proof -
  have "unat (foldl (\<lambda>t r. t + r_size r) t rs) = (unat t + (\<Sum>r \<leftarrow> rs. unat (r_size r))) mod 2 ^ 64"
    for t :: u64 and rs
    by (induction rs arbitrary: t) (simp_all add: unat_word_ariths mod_add_left_eq add.assoc unat_u64 [simplified])
  from this [of 0] show ?thesis by (simp add: rangeset_total_def)
qed

lemma rangeset_total_card: "rangeset_inv s \<Longrightarrow> unat (rangeset_total s) = card (rangeset_den s)"
  using card_ranges_den_less [of "rs_r s"] card_ranges_den [of "rs_r s"]
  by (simp add: rangeset_total_sum rangeset_inv_def rangeset_den_def)

section \<open>Whole blocks\<close>

text \<open>The block of \<open>x\<close> as an interval: it ends early at the top of the address space.\<close>

lemma nat_div_mult_le: "a div m * m \<le> (a :: nat)"
  by (metis div_times_less_eq_dividend)

lemma unat_round_down: "unat (x div m * m) = unat x div unat m * unat (m :: u64)"
proof -
  have "unat x div unat m * unat m < 2 ^ 64"
    using nat_div_mult_le [of "unat x" "unat m"] unat_u64 [of x] by linarith
  then show ?thesis by (simp add: unat_word_ariths unat_div mod_mult_left_eq)
qed

lemma nat_round_up_le: "0 < m \<Longrightarrow> (b + m - 1) div m * m \<le> x \<longleftrightarrow> b \<le> x div m * (m :: nat)"
proof -
  assume m: "0 < m"
  have "(b + m - 1) div m * m \<le> x \<longleftrightarrow> (b + m - 1) div m \<le> x div m"
    using m by (simp add: less_eq_div_iff_mult_less_eq)
  also have "\<dots> \<longleftrightarrow> (b + m - 1) div m < Suc (x div m)" by auto
  also have "\<dots> \<longleftrightarrow> b + m - 1 < Suc (x div m) * m" using m by (simp add: div_less_iff_less_mult)
  also have "\<dots> \<longleftrightarrow> b \<le> x div m * m" using m by auto
  finally show ?thesis .
qed

lemma nat_round_down_less: "0 < m \<Longrightarrow> x < e div m * m \<longleftrightarrow> x div m * m + m \<le> (e :: nat)"
proof -
  assume m: "0 < m"
  have "x < e div m * m \<longleftrightarrow> Suc (x div m) \<le> e div m" using m by (simp add: div_less_iff_less_mult Suc_le_eq)
  also have "\<dots> \<longleftrightarrow> Suc (x div m) * m \<le> e" using m by (rule less_eq_div_iff_mult_less_eq)
  finally show ?thesis by (simp add: add.commute)
qed

lemma same_block: "0 < (m :: u64) \<Longrightarrow>
  y div m = x div m \<longleftrightarrow> unat x div unat m * unat m \<le> unat y \<and> unat y < unat x div unat m * unat m + unat m"
proof -
  assume "0 < m"
  then have m: "0 < unat m" by (simp add: word_gt_0 unat_gt_0)
  have "y div m = x div m \<longleftrightarrow> unat y div unat m = unat x div unat m"
    by (simp add: word_unat_eq_iff unat_div)
  also have "\<dots> \<longleftrightarrow> unat x div unat m * unat m \<le> unat y \<and> unat y < unat x div unat m * unat m + unat m"
    using m by (metis add.commute div_nat_eqI dividend_less_times_div mult.commute mult_Suc nat_div_mult_le)
  finally show ?thesis .
qed

lemma block_interval:
  assumes m: "0 < (m :: u64)"
  shows "(\<forall>y. y div m = x div m \<longrightarrow> b \<le> y \<and> y < e) \<longleftrightarrow>
         unat b \<le> unat x div unat m * unat m \<and> unat x div unat m * unat m + unat m \<le> unat e"
    (is "?block \<longleftrightarrow> unat b \<le> ?lo \<and> ?lo + unat m \<le> unat e")
proof
  assume block: ?block
  define h where "h = min (?lo + unat m - 1) (2 ^ 64 - 1)"
  have "h < 2 ^ 64" by (simp add: h_def)
  then have h: "unat (of_nat h :: u64) = h" by (simp add: unat_of_nat)
  have m': "0 < unat m" using m by (simp add: word_gt_0 unat_gt_0)
  have "?lo < 2 ^ 64" using nat_div_mult_le [of "unat x" "unat m"] unat_u64 [of x] by linarith
  then have "?lo \<le> h" "h < ?lo + unat m" unfolding h_def using m' by linarith+
  then have "(of_nat h :: u64) div m = x div m" using m by (simp add: same_block h)
  then have "h < unat e" using block h by (metis word_less_nat_alt)
  moreover have "unat e < 2 ^ 64" using unat_u64 [of e] by simp
  ultimately have "?lo + unat m \<le> unat e" by (simp add: h_def)
  moreover have "b \<le> x div m * m"
    using block m same_block [OF m, of "x div m * m" x] m' by (simp add: unat_round_down)
  ultimately show "unat b \<le> ?lo \<and> ?lo + unat m \<le> unat e"
    by (simp add: word_le_nat_alt unat_round_down)
next
  assume "unat b \<le> ?lo \<and> ?lo + unat m \<le> unat e"
  then show ?block using m by (auto simp: same_block word_le_nat_alt word_less_nat_alt)
qed

text \<open>The span that one range contributes: exactly the blocks it covers, when rounding its base up
  does not leave the address space.\<close>

definition align_base :: "u64 \<Rightarrow> range \<Rightarrow> u64" where
  "align_base m r = (r_base r + m - 1) div m * m"

definition align_end :: "u64 \<Rightarrow> range \<Rightarrow> u64" where
  "align_end m r = range_end r div m * m"

abbreviation round_fits :: "u64 \<Rightarrow> range \<Rightarrow> bool" where
  "round_fits m r \<equiv> unat (r_base r) + unat m \<le> 2 ^ 64"

lemma align_span:
  assumes "0 < m" and fits: "round_fits m r"
  shows "{align_base m r ..< align_end m r} = {x. \<forall>y. y div m = x div m \<longrightarrow> y \<in> range_den r}"
proof -
  have m: "0 < unat m" using assms(1) by (simp add: word_gt_0 unat_gt_0)
  have "unat (r_base r + (m - 1)) = unat (r_base r) + unat (m - 1)"
    using fits m assms(1) by (intro unat_add_lem [THEN iffD1]) (simp add: unat_minus_one word_gt_0)
  then have "unat (r_base r + m - 1) = unat (r_base r) + unat m - 1"
    using m assms(1) by (simp add: unat_minus_one word_gt_0 algebra_simps)
  then have "align_base m r \<le> x \<longleftrightarrow> unat (r_base r) \<le> unat x div unat m * unat m" for x
    using nat_round_up_le [OF m] by (simp add: align_base_def word_le_nat_alt unat_round_down)
  moreover have "x < align_end m r \<longleftrightarrow> unat x div unat m * unat m + unat m \<le> unat (range_end r)" for x
    using nat_round_down_less [OF m] by (simp add: align_end_def word_less_nat_alt unat_round_down)
  ultimately show ?thesis by (auto simp: range_den_def block_interval [OF assms(1)])
qed

lemma rangeset_align_fold:
  "fold_rc (align_one ok m) rs out =
   fold_rc (\<lambda>r s. rangeset_add ok s (align_base m r) (align_end m r - align_base m r))
     [r \<leftarrow> rs. align_base m r < align_end m r] out"
  by (induction rs arbitrary: out)
    (auto simp: align_one_def Let_def align_base_def align_end_def not_le split: prod.splits option.splits)

lemma ranges_blocks:
  assumes "ranges_ok rs" and "0 < (m :: u64)"
  shows "(\<Union>r \<in> set rs. {x. \<forall>y. y div m = x div m \<longrightarrow> y \<in> range_den r}) =
         {x. \<forall>y. y div m = x div m \<longrightarrow> y \<in> ranges_den rs}" (is "?l = ?r")
proof
  show "?l \<subseteq> ?r" by (auto simp: ranges_den_def)
next
  show "?r \<subseteq> ?l"
  proof
    fix x assume "x \<in> ?r"
    then have r: "\<And>y. y div m = x div m \<Longrightarrow> y \<in> ranges_den rs" by auto
    define lo where "lo = x div m * m"
    have lo: "lo div m = x div m"
      using assms(2) by (simp add: lo_def same_block unat_round_down word_gt_0 unat_gt_0)
    have upto: "\<exists>q \<in> set rs. r_base q \<le> lo \<and> y < range_end q" if "y div m = x div m" for y
    proof -
      have "lo \<le> y" using that assms(2) by (simp add: same_block lo_def word_le_nat_alt unat_round_down)
      moreover have "{lo .. y} \<subseteq> ranges_den rs"
        using r that lo assms(2) by (auto simp: same_block lo_def word_le_nat_alt unat_round_down)
      ultimately show ?thesis using ranges_connected [OF assms(1)] by metis
    qed
    obtain q where q: "q \<in> set rs" "lo \<in> range_den q" using r [OF lo] by (auto simp: ranges_den_def)
    have "y \<in> range_den q" if "y div m = x div m" for y
    proof -
      obtain p where p: "p \<in> set rs" "r_base p \<le> lo" "y < range_end p" using upto [OF \<open>y div m = x div m\<close>] by auto
      have "lo \<le> y" using that assms(2) by (simp add: same_block lo_def word_le_nat_alt unat_round_down)
      with p q have "lo \<in> range_den p" by (auto simp: range_den_def)
      then have "p = q" using ranges_disjoint [OF assms(1)] p(1) q by blast
      then show ?thesis using p q \<open>lo \<le> y\<close> by (auto simp: range_den_def)
    qed
    then show "x \<in> ?l" using q(1) by auto
  qed
qed

lemma rangeset_align_spans:
  assumes "rangeset_inv out" and "rangeset_align alc s m out = (None, out')"
  shows "rangeset_inv out'" and "rangeset_den out' = rangeset_den out \<union> (\<Union>r \<in> set (rs_r s). {align_base m r ..< align_end m r})"
proof -
  have m: "0 < m" using assms(2) by (auto simp: rangeset_align_def word_gt_0 split: if_splits)
  let ?rs = "[r \<leftarrow> rs_r s. align_base m r < align_end m r]"
  have f: "fold_rc (\<lambda>r s. rangeset_add alc s (align_base m r) (align_end m r - align_base m r)) ?rs out = (None, out')"
    using assms(2) m by (auto simp: rangeset_align_def rangeset_align_fold split: if_splits)
  have "(\<Union>r \<in> set ?rs. {align_base m r ..< align_base m r + (align_end m r - align_base m r)}) =
        (\<Union>r \<in> set (rs_r s). {align_base m r ..< align_end m r})"
    by fastforce
  then show "rangeset_inv out'" "rangeset_den out' = rangeset_den out \<union> (\<Union>r \<in> set (rs_r s). {align_base m r ..< align_end m r})"
    using rs.add_all_inv [OF assms(1) f] rs.add_all_den [OF assms(1) f] by simp_all
qed

lemma rangeset_align_correct:
  assumes "rangeset_inv s" and "rangeset_inv out" and "\<forall>r \<in> set (rs_r s). round_fits m r"
    and "rangeset_align alc s m out = (None, out')"
  shows "rangeset_inv out' \<and>
         rangeset_den out' = rangeset_den out \<union> {x. \<forall>y. y div m = x div m \<longrightarrow> y \<in> rangeset_den s}"
proof -
  have m: "0 < m" using assms(4) by (auto simp: rangeset_align_def word_gt_0 split: if_splits)
  have "(\<Union>r \<in> set (rs_r s). {align_base m r ..< align_end m r}) =
      (\<Union>r \<in> set (rs_r s). {x. \<forall>y. y div m = x div m \<longrightarrow> y \<in> range_den r})"
    using align_span m assms(3) by auto
  also have "\<dots> = {x. \<forall>y. y div m = x div m \<longrightarrow> y \<in> rangeset_den s}"
    using ranges_blocks m assms(1) by (simp add: rangeset_inv_def rangeset_den_def)
  finally show ?thesis using rangeset_align_spans [OF assms(2,4)] by simp
qed

text \<open>A base that rounds up past the end of the address space becomes 0.\<close>

lemma align_base_wraps:
  assumes "0 < m" and "\<not> round_fits m r"
  shows "align_base m r = 0"
proof -
  have m: "0 < unat m" using assms(1) by (simp add: word_gt_0 unat_gt_0)
  have "unat (r_base r + (m - 1)) = (unat (r_base r) + (unat m - 1)) mod 2 ^ 64"
    using assms(1) by (simp add: unat_word_ariths unat_minus_one word_gt_0)
  also have "\<dots> = unat (r_base r) + (unat m - 1) - 2 ^ 64"
    using assms(2) m unat_u64 [of "r_base r"] unat_u64 [of m] by (simp add: mod_if)
  also have "\<dots> < unat m" using unat_u64 [of "r_base r"] m by simp
  finally have "unat (r_base r + m - 1) < unat m" by (simp add: algebra_simps)
  then have "unat (align_base m r) = 0" by (simp add: align_base_def unat_round_down)
  then show ?thesis by (simp add: unat_eq_0)
qed

lemma ranges_ok_last:
  assumes "ranges_ok rs" and "r \<in> set rs"
  shows "r_base r \<le> r_base (last rs)" and "range_end r \<le> range_end (last rs)"
proof -
  have rs: "rs = butlast rs @ [last rs]" using assms(2) by (cases rs) auto
  then have "r \<in> set (butlast rs) \<or> r = last rs" using assms(2) by (metis Un_iff set_append list.set_intros(1) empty_iff set_ConsD list.set(1))
  moreover have "range_end r < r_base (last rs) \<and> range_ok r \<and> range_ok (last rs)" if "r \<in> set (butlast rs)"
    using assms rs that ranges_ok_append [of "butlast rs" "[last rs]"] ranges_ok_mem by (metis in_set_butlastD list.set_intros(1) list.distinct(1) last_in_set ranges_ok_mem)
  ultimately show "r_base r \<le> r_base (last rs)" "range_end r \<le> range_end (last rs)"
    by (auto simp: range_ok_def)
qed

section \<open>The properties of the range set\<close>

definition two_ranges :: rangeset where
  "two_ranges = \<lparr>rs_r = [\<lparr>r_base = 0x1000, r_size = 0x1000\<rparr>, \<lparr>r_base = 0x4000, r_size = 0x2000\<rparr>], rs_cap = 16\<rparr>"

lemma two_ranges_inv: "rangeset_inv two_ranges"
  by code_simp

text \<open>C14: on a well-formed set, \<open>rangeset_add\<close> fails with \<open>-EINVAL\<close> exactly for an empty or wrapping
  range, and with \<open>-ENOMEM\<close> exactly when the array is full, the range touches none of the set's, and twice the
  array (eight ranges for the first) is not to be had; otherwise it succeeds.  On success the set stays sorted,
  disjoint and non-adjacent and denotes exactly the old addresses and the new range; on failure it is as it was.\<close>

theorem rangeset_add_union:
  assumes "rangeset_inv s"
  shows "fst (rangeset_add alc s b z) =
      (if \<not> b < b + z then Some EINVAL
       else if add_needs_memory s b (b + z) \<and> \<not> alc (grown_size s) then Some ENOMEM else None) \<and>
    (case rangeset_add alc s b z of
       (None, s') \<Rightarrow> rangeset_inv s' \<and> rangeset_den s' = rangeset_den s \<union> {b ..< b + z}
     | (Some e, s') \<Rightarrow> s' = s)"
  using rangeset_add_law [OF assms, of b z alc] rangeset_add_errno [OF assms, of b z alc]
  by (auto simp: rangeset_add_bad split: prod.splits option.splits if_splits)

theorem rangeset_add_union_witness:
  "rangeset_inv two_ranges \<and>
   (\<exists>s'. rangeset_add (\<lambda>n. False) two_ranges 0x2000 0x2000 = (None, s') \<and> rs_count s' = 1 \<and>
      rangeset_den s' = rangeset_den two_ranges \<union> {0x2000 ..< 0x4000}) \<and>
   fst (rangeset_add (\<lambda>n. n \<noteq> 64) (two_ranges\<lparr>rs_cap := 2\<rparr>) 0x7000 0x1000) = Some ENOMEM"
proof -
  have inv: "rangeset_inv (two_ranges\<lparr>rs_cap := 2\<rparr>)"
    and full: "add_needs_memory (two_ranges\<lparr>rs_cap := 2\<rparr>) 0x7000 (0x7000 + 0x1000)"
    and size: "grown_size (two_ranges\<lparr>rs_cap := 2\<rparr>) = 64"
    by code_simp+
  have "fst (rangeset_add (\<lambda>n. n \<noteq> 64) (two_ranges\<lparr>rs_cap := 2\<rparr>) 0x7000 0x1000) = Some ENOMEM"
    using rangeset_add_union [OF inv, of "\<lambda>n. n \<noteq> 64" "0x7000" "0x1000"] full size by simp
  moreover
  have "rangeset_add (\<lambda>n. False) two_ranges 0x2000 0x2000 =
      (None, \<lparr>rs_r = [\<lparr>r_base = 0x1000, r_size = 0x5000\<rparr>], rs_cap = 16\<rparr>)"
    by code_simp
  ultimately show ?thesis
    using rangeset_add_union [OF two_ranges_inv, of "\<lambda>n. False" "0x2000" "0x2000"] two_ranges_inv by simp
qed

text \<open>C15: on a well-formed set, \<open>rangeset_subtract\<close> either succeeds, keeps the set well formed and
  denotes exactly the old addresses without the range (splitting a range it falls inside); or it leaves
  the set as it was, with \<open>-EINVAL\<close> exactly for an empty or wrapping range.\<close>

theorem rangeset_subtract_difference:
  assumes "rangeset_inv s"
  shows "case rangeset_subtract alc s b z of
      (None, s') \<Rightarrow> b < b + z \<and> rangeset_inv s' \<and> rangeset_den s' = rangeset_den s - {b ..< b + z}
    | (Some e, s') \<Rightarrow> s' = s \<and> (if b < b + z then e = ENOMEM \<and> \<not> (\<forall>n. alc n) else e = EINVAL)"
  using assms by (rule rangeset_subtract_law)

theorem rangeset_subtract_difference_witness:
  "rangeset_inv two_ranges \<and>
   (\<exists>s'. rangeset_subtract always two_ranges 0x4800 0x100 = (None, s') \<and> rs_count s' = 3 \<and>
      rangeset_den s' = rangeset_den two_ranges - {0x4800 ..< 0x4900})"
proof -
  have "rangeset_subtract always two_ranges 0x4800 0x100 =
      (None, \<lparr>rs_r = [\<lparr>r_base = 0x1000, r_size = 0x1000\<rparr>, \<lparr>r_base = 0x4000, r_size = 0x800\<rparr>,
                      \<lparr>r_base = 0x4900, r_size = 0x1700\<rparr>], rs_cap = 16\<rparr>)"
    by code_simp
  then show ?thesis
    using rangeset_subtract_difference [OF two_ranges_inv, of "0x4800" "0x100" always] two_ranges_inv by simp
qed

text \<open>C16: \<open>rangeset_align\<close> adds to \<open>out\<close> exactly the addresses whose whole block of
  \<open>block\<close> bytes lies in \<open>s\<close>, also where a block spans what were separately added ranges,
  provided no base rounds up past the end of the address space.\<close>

theorem rangeset_align_whole_blocks:
  assumes "rangeset_inv s" and "rangeset_inv out"
    and "\<forall>r \<in> set (rs_r s). unat (r_base r) + unat block \<le> 2 ^ 64"
    and "rangeset_align alc s block out = (None, out')"
  shows "rangeset_inv out' \<and>
         rangeset_den out' = rangeset_den out \<union> {x. \<forall>y. y div block = x div block \<longrightarrow> y \<in> rangeset_den s}"
  using assms by (rule rangeset_align_correct)

theorem rangeset_align_whole_blocks_witness:
  "\<exists>out'. rangeset_align always two_ranges 0x2000 RANGESET_INIT = (None, out') \<and>
     rs_r out' = [\<lparr>r_base = 0x4000, r_size = 0x2000\<rparr>] \<and>
     rangeset_den out' = {x. \<forall>y. y div 0x2000 = x div 0x2000 \<longrightarrow> y \<in> rangeset_den two_ranges}"
proof -
  have "rangeset_align always two_ranges 0x2000 RANGESET_INIT =
      (None, \<lparr>rs_r = [\<lparr>r_base = 0x4000, r_size = 0x2000\<rparr>], rs_cap = 8\<rparr>)"
    by code_simp
  then show ?thesis
    using rangeset_align_whole_blocks [OF two_ranges_inv rangeset_inv_empty(2), of "0x2000" always]
    by (simp add: two_ranges_def)
qed

text \<open>C17: What \<open>rangeset_align\<close> adds for a set that is not empty, in every case.  As long as the
  last base does not round up past the end of the address space: the addresses whose whole block lies
  in the set.  Otherwise the rounded base wraps to 0, and it is every address below the end of the last
  range rounded down, whatever the set contains.\<close>

theorem rangeset_align_wraps_at_top:
  assumes "rangeset_inv s" and "rs_r s \<noteq> []" and "rangeset_inv out" and "rangeset_align alc s m out = (None, out')"
  shows "rangeset_den out' = rangeset_den out \<union>
    (if unat (r_base (last (rs_r s))) + unat m \<le> 2 ^ 64
     then {x. \<forall>y. y div m = x div m \<longrightarrow> y \<in> rangeset_den s}
     else {0 ..< range_end (last (rs_r s)) div m * m})"
proof (cases "round_fits m (last (rs_r s))")
  case True
  have ok: "ranges_ok (rs_r s)" using assms(1) by (simp add: rangeset_inv_def)
  have "\<forall>r \<in> set (rs_r s). round_fits m r"
    using True ranges_ok_last(1) [OF ok] by (fastforce simp: word_le_nat_alt)
  then show ?thesis using True rangeset_align_correct [OF assms(1,3) _ assms(4)] by simp
next
  case False
  have ok: "ranges_ok (rs_r s)" and m: "0 < m"
    using assms(1,4) by (auto simp: rangeset_inv_def rangeset_align_def word_gt_0 split: if_splits)
  have "align_end m r \<le> align_end m (last (rs_r s))" if "r \<in> set (rs_r s)" for r
    using ranges_ok_last(2) [OF ok that]
    by (simp add: align_end_def word_le_nat_alt unat_round_down div_le_mono)
  then have "(\<Union>r \<in> set (rs_r s). {align_base m r ..< align_end m r}) = {0 ..< align_end m (last (rs_r s))}"
    using align_base_wraps [OF m False] assms(2) by (fastforce intro: bexI [OF _ last_in_set])
  then show ?thesis using False rangeset_align_spans(2) [OF assms(3,4)] by (simp add: align_end_def)
qed

theorem rangeset_align_wraps_at_top_witness:
  "rangeset_align always \<lparr>rs_r = [\<lparr>r_base = 0xFFFFFFFFFFFFFFF6, r_size = 5\<rparr>], rs_cap = 16\<rparr> 16 RANGESET_INIT =
     (None, \<lparr>rs_r = [\<lparr>r_base = 0, r_size = 0xFFFFFFFFFFFFFFF0\<rparr>], rs_cap = 8\<rparr>) \<and>
   rangeset_den \<lparr>rs_r = [\<lparr>r_base = 0, r_size = 0xFFFFFFFFFFFFFFF0\<rparr>], rs_cap = 8\<rparr> = {0 ..< 0xFFFFFFFFFFFFFFF0}"
proof -
  let ?s = "\<lparr>rs_r = [\<lparr>r_base = 0xFFFFFFFFFFFFFFF6, r_size = 5\<rparr>], rs_cap = 16\<rparr>"
  let ?o = "\<lparr>rs_r = [\<lparr>r_base = 0, r_size = 0xFFFFFFFFFFFFFFF0\<rparr>], rs_cap = 8\<rparr>"
  have inv: "rangeset_inv ?s" by code_simp
  have run: "rangeset_align always ?s 16 RANGESET_INIT = (None, ?o)" by code_simp
  have "rangeset_den ?o = {0 ..< range_end (last (rs_r ?s)) div 16 * 16}"
    using rangeset_align_wraps_at_top [OF inv _ _ run] by simp
  moreover have "range_end (last (rs_r ?s)) div 16 * 16 = 0xFFFFFFFFFFFFFFF0" by (simp add: range_end_def)
  ultimately show ?thesis using run by simp
qed

text \<open>C18: \<open>rangeset_contains\<close> answers whether every address of a non-empty, non-wrapping range is in
  the set.\<close>

theorem rangeset_contains_iff_subset:
  assumes "rangeset_inv s" and "b < b + z"
  shows "rangeset_contains s b z \<longleftrightarrow> {b ..< b + z} \<subseteq> rangeset_den s"
  using assms by (rule rangeset_contains_correct)

theorem rangeset_contains_iff_subset_witness:
  "rangeset_inv two_ranges \<and> {0x4100 ..< 0x4100 + 0x100} \<subseteq> rangeset_den two_ranges"
proof -
  have "rangeset_contains two_ranges 0x4100 0x100" by code_simp
  then show ?thesis
    using rangeset_contains_iff_subset [OF two_ranges_inv, of "0x4100" "0x100"] two_ranges_inv by simp
qed

text \<open>C19: \<open>rangeset_total\<close> is the number of addresses in the set; its 64-bit sum never wraps.\<close>

theorem rangeset_total_counts:
  assumes "rangeset_inv s"
  shows "unat (rangeset_total s) = card (rangeset_den s)"
  using assms by (rule rangeset_total_card)

theorem rangeset_total_counts_witness:
  "rangeset_inv two_ranges \<and> card (rangeset_den two_ranges) = 0x3000"
proof -
  have "rangeset_total two_ranges = 0x3000" by code_simp
  then show ?thesis using rangeset_total_counts [OF two_ranges_inv] two_ranges_inv by simp
qed

end
