(* ===== verification/Parse.thy ===== *)
theory Parse
  imports Kmorph_Prelude
begin

text \<open>
  The value parsers of the configuration and the command line (lib/parse.c):
  sizes with a binary unit, durations, CPU lists and comma separated words.
  The loops over the text are recursive functions on the text left; the CPU
  list grows through a fallible allocator as in the code.
\<close>

section \<open>Numbers with units\<close>

definition parse_u64_prefix :: "string \<Rightarrow> (u64 \<times> string) res" where
  "parse_u64_prefix s =
     (if s = [] \<or> \<not> isdigit (hd s) then Inl EINVAL
      else let (v, e, range) = strtoull 10 s in if range then Inl ERANGE else Inr (v, e))"

definition unit_shift :: "string \<Rightarrow> nat option" where
  "unit_shift u =
     (if u = [] then Some 0
      else if toupper (hd u) = CHR ''K'' then Some 10
      else if toupper (hd u) = CHR ''M'' then Some 20
      else if toupper (hd u) = CHR ''G'' then Some 30
      else if toupper (hd u) = CHR ''T'' then Some 40
      else None)"

definition parse_size :: "string \<Rightarrow> u64 res" where
  "parse_size s =
     (case parse_u64_prefix s of
        Inl e \<Rightarrow> Inl e
      | Inr (v, u) \<Rightarrow>
          (case unit_shift u of
             None \<Rightarrow> Inl EINVAL
           | Some sh \<Rightarrow>
               let u = (if sh \<noteq> 0 then
                          let u = tl u in if u \<noteq> [] \<and> toupper (hd u) = CHR ''B'' then tl u else u
                        else u)
               in if u \<noteq> [] then Inl EINVAL
                  else if sh \<noteq> 0 \<and> v > drop_bit sh (- 1) then Inl ERANGE
                  else Inr (push_bit sh v)))"

definition duration_scale :: "string \<Rightarrow> u64 option" where
  "duration_scale u =
     (if u = '''' \<or> u = ''ms'' then Some 1
      else if u = ''s'' then Some 1000
      else if u = ''m'' then Some (60 * 1000)
      else None)"

definition parse_duration_ms :: "string \<Rightarrow> u64 res" where
  "parse_duration_ms s =
     (case parse_u64_prefix s of
        Inl e \<Rightarrow> Inl e
      | Inr (v, u) \<Rightarrow>
          (case duration_scale u of
             None \<Rightarrow> Inl EINVAL
           | Some scale \<Rightarrow> if v > - 1 div scale then Inl ERANGE else Inr (v * scale)))"

section \<open>CPU lists\<close>

record cpulist =
  cl_ids :: "u64 list"

abbreviation cpulist_empty :: cpulist where
  "cpulist_empty \<equiv> \<lparr>cl_ids = []\<rparr>"

definition cpulist_free :: "cpulist \<Rightarrow> cpulist" where
  "cpulist_free l = l\<lparr>cl_ids := []\<rparr>"

definition cpulist_push :: "alloc \<Rightarrow> u64 \<Rightarrow> cpulist \<times> nat \<Rightarrow> rc \<times> cpulist \<times> nat" where
  "cpulist_push ok cpu = (\<lambda>(l, cap).
     let put = (\<lambda>cap. (None, l\<lparr>cl_ids := cl_ids l @ [cpu]\<rparr>, cap)) in
     if length (cl_ids l) = cap then
       let n = (if cap \<noteq> 0 then cap * 2 else 16)
       in if \<not> ok (n * 8) then (Some ENOMEM, l, cap) else put n
     else put cap)"

text \<open>\<open>for (id = lo; ; id++)\<close>, which ends at \<open>hi\<close> even when that is the largest id.\<close>

function cpulist_push_range :: "alloc \<Rightarrow> u64 \<Rightarrow> u64 \<Rightarrow> cpulist \<times> nat \<Rightarrow> rc \<times> cpulist \<times> nat" where
  "cpulist_push_range ok cpu hi st =
     (case cpulist_push ok cpu st of
        (Some e, st) \<Rightarrow> (Some e, st)
      | (None, st) \<Rightarrow> if cpu = hi then (None, st) else cpulist_push_range ok (cpu + 1) hi st)"
  by pat_completeness auto
termination
proof (relation "measure (\<lambda>(ok, cpu, hi, st). unat (hi - cpu))")
  fix ok :: alloc and cpu hi :: u64 and st p x y
  assume "cpu \<noteq> hi"
  then have "unat (hi - cpu - 1) < unat (hi - cpu)"
    by (simp add: unat_minus_one unat_gt_0)
  then show "((ok, cpu + 1, hi, y), ok, cpu, hi, st) \<in> measure (\<lambda>(ok, cpu, hi, st). unat (hi - cpu))"
    by (simp add: algebra_simps)
qed simp

declare cpulist_push_range.simps [simp del]

text \<open>One element, a number or a range, and the text after it.\<close>

definition cpulist_item :: "string \<Rightarrow> (u64 \<times> u64 \<times> string) res" where
  "cpulist_item s =
     (case parse_u64_prefix s of
        Inl e \<Rightarrow> Inl e
      | Inr (lo, e) \<Rightarrow>
          if e \<noteq> [] \<and> hd e = CHR ''-'' then
            (case parse_u64_prefix (tl e) of
               Inl e \<Rightarrow> Inl e
             | Inr (hi, e) \<Rightarrow> if hi < lo then Inl EINVAL else Inr (lo, hi, e))
          else Inr (lo, lo, e))"

lemma scan_num_shorter: "scan_num b s = Some (neg, v, r) \<Longrightarrow> length r < length s"
proof -
  assume a: "scan_num b s = Some (neg, v, r)"
  define s1 where "s1 = snd (scan_sign (dropWhile isspace s))"
  define s2 where "s2 = scan_prefix b s1"
  have "length s1 \<le> length (dropWhile isspace s)"
    by (auto simp: s1_def scan_sign_def split: list.splits)
  then have 1: "length s1 \<le> length s" using length_dropWhile_le [of isspace s] by linarith
  have 2: "length s2 \<le> length s1" by (auto simp: s2_def scan_prefix_def split: list.splits)
  have r: "r = dropWhile (\<lambda>c. digit_val c < b) s2" "takeWhile (\<lambda>c. digit_val c < b) s2 \<noteq> []"
    using a by (auto simp: scan_num_def Let_def s1_def s2_def split: prod.splits if_splits)
  have "length (takeWhile (\<lambda>c. digit_val c < b) s2 @ r) = length s2" using r(1) by simp
  then have "length r < length s2" using r(2) by (cases "takeWhile (\<lambda>c. digit_val c < b) s2") auto
  then show ?thesis using 1 2 by linarith
qed

lemma parse_u64_prefix_shorter:
  assumes "parse_u64_prefix s = Inr (v, e)"
  shows "length e < length s"
proof -
  have digit: "s \<noteq> []" "isdigit (hd s)" using assms by (auto simp: parse_u64_prefix_def split: if_splits)
  then obtain c s' where s: "s = c # s'" "digit_val c < 10" by (cases s) (auto simp: isdigit_val)
  then have "scan_num 10 s \<noteq> None"
    using digit_not_space [of c] scan_sign_digit [of s] by (simp add: scan_num_def)
  then obtain neg v' where "scan_num 10 s = Some (neg, v', e)"
    using assms digit by (auto simp: parse_u64_prefix_def strtoull_def split: if_splits option.splits)
  then show ?thesis by (rule scan_num_shorter)
qed

lemma cpulist_item_shorter: "cpulist_item s = Inr (lo, hi, e) \<Longrightarrow> length e < length s"
  by (auto simp: cpulist_item_def split: sum.splits if_splits dest!: parse_u64_prefix_shorter)

function cpulist_loop :: "alloc \<Rightarrow> string \<Rightarrow> cpulist \<times> nat \<Rightarrow> rc \<times> cpulist \<times> nat" where
  "cpulist_loop ok s st =
     (if s = [] then (None, st)
      else case cpulist_item s of
        Inl e \<Rightarrow> (Some e, st)
      | Inr (lo, hi, e) \<Rightarrow>
          (case cpulist_push_range ok lo hi st of
             (Some er, st) \<Rightarrow> (Some er, st)
           | (None, st) \<Rightarrow>
               if e \<noteq> [] \<and> hd e = CHR '','' then cpulist_loop ok (tl e) st
               else if e \<noteq> [] then (Some EINVAL, st)
               else cpulist_loop ok e st))"
  by pat_completeness auto
termination
  by (relation "measure (\<lambda>(ok, s, st). length s)") (auto dest!: cpulist_item_shorter)

declare cpulist_loop.simps [simp del]

text \<open>The loop of \<open>cpulist_normalize\<close>, on the array it rewrites in place.\<close>

fun normalize_loop :: "nat \<Rightarrow> nat \<Rightarrow> nat \<Rightarrow> u64 list \<Rightarrow> nat \<times> u64 list" where
  "normalize_loop 0 i n ids = (n, ids)"
| "normalize_loop (Suc k) i n ids =
     (if n = 0 \<or> ids ! (n - 1) \<noteq> ids ! i then normalize_loop k (Suc i) (Suc n) (ids[n := ids ! i])
      else normalize_loop k (Suc i) n ids)"

definition cpulist_normalize :: "cpulist \<Rightarrow> cpulist" where
  "cpulist_normalize l =
     (if cl_ids l = [] then l
      else let ids = sort (cl_ids l);
               (n, ids) = normalize_loop (length ids) 0 0 ids
           in l\<lparr>cl_ids := take n ids\<rparr>)"

definition parse_cpulist :: "alloc \<Rightarrow> string \<Rightarrow> rc \<times> cpulist" where
  "parse_cpulist ok s =
     (if s = [] then (Some EINVAL, cpulist_empty)
      else case cpulist_loop ok s (cpulist_empty, 0) of
        (None, l, cap) \<Rightarrow> (None, cpulist_normalize l)
      | (Some e, l, cap) \<Rightarrow> (Some e, cpulist_free l))"

definition cpulist_has :: "cpulist \<Rightarrow> u64 \<Rightarrow> bool" where
  "cpulist_has l cpu = list_ex (\<lambda>x. x = cpu) (cl_ids l)"

section \<open>Word lists\<close>

record strlist =
  sl_items :: "string list"

definition strlist_free :: "strlist \<Rightarrow> strlist" where
  "strlist_free l = l\<lparr>sl_items := []\<rparr>"

definition rstrip :: "string \<Rightarrow> string" where
  "rstrip s = rev (dropWhile isspace (rev s))"

text \<open>The body of the loop: the list, its capacity, the text left.  \<open>None\<close> is the \<open>goto fail\<close>.\<close>

definition strlist_item :: "alloc \<Rightarrow> string \<Rightarrow> string list \<times> nat \<Rightarrow> (string \<times> string list \<times> nat) option" where
  "strlist_item ok p = (\<lambda>(items, cap).
     let start = dropWhile isspace p;
         word = rstrip (takeWhile (\<lambda>c. c \<noteq> CHR '','') start);
         rest = dropWhile (\<lambda>c. c \<noteq> CHR '','') start;
         n = (if length items = cap then (if cap \<noteq> 0 then cap * 2 else 4) else cap)
     in if word = [] then None
        else if length items = cap \<and> \<not> ok (n * 8) then None
        else if \<not> ok (length word + 1) then None
        else Some (if rest \<noteq> [] then tl rest else rest, items @ [word], n))"

lemma strlist_item_shorter:
  assumes "strlist_item ok p st = Some (p', st')"
  shows "length p' < length p"
proof -
  define start where "start = dropWhile isspace p"
  define word where "word = takeWhile (\<lambda>c. c \<noteq> CHR '','') start"
  define rest where "rest = dropWhile (\<lambda>c. c \<noteq> CHR '','') start"
  have "rstrip word \<noteq> []" and p': "p' = (if rest \<noteq> [] then tl rest else rest)"
    using assms by (cases st; auto simp: strlist_item_def Let_def word_def rest_def start_def split: if_splits)+
  then have "word \<noteq> []" by (auto simp: rstrip_def)
  moreover have "length word + length rest = length start"
    by (metis length_append rest_def takeWhile_dropWhile_id word_def)
  moreover have "length start \<le> length p" by (simp add: start_def length_dropWhile_le)
  ultimately show ?thesis using p' by (cases word) auto
qed

function strlist_loop :: "alloc \<Rightarrow> string \<Rightarrow> string list \<times> nat \<Rightarrow> (string list \<times> nat) option" where
  "strlist_loop ok p st =
     (if p = [] then Some st
      else case strlist_item ok p st of None \<Rightarrow> None | Some (p', st') \<Rightarrow> strlist_loop ok p' st')"
  by pat_completeness auto
termination
  by (relation "measure (\<lambda>(ok, p, st). length p)") (auto dest: strlist_item_shorter)

declare strlist_loop.simps [simp del]

definition parse_strlist :: "alloc \<Rightarrow> string \<Rightarrow> rc \<times> strlist" where
  "parse_strlist ok s =
     (if s = [] then (Some EINVAL, \<lparr>sl_items = []\<rparr>)
      else case strlist_loop ok s ([], 0) of
        None \<Rightarrow> (Some EINVAL, strlist_free \<lparr>sl_items = []\<rparr>)
      | Some (items, cap) \<Rightarrow> (None, \<lparr>sl_items = items\<rparr>))"

section \<open>Sizes and durations\<close>

lemma parse_u64_prefix_dec:
  assumes "n < 2 ^ 64" and "stops 10 r"
  shows "parse_u64_prefix (dec n @ r) = Inr (of_nat n, r)"
  using assms hd_num_str [of 10 n] strtoull_dec [OF assms]
  by (simp add: parse_u64_prefix_def isdigit_val)

lemma parse_u64_prefix_big:
  assumes "2 ^ 64 \<le> n" and "stops 10 r"
  shows "parse_u64_prefix (dec n @ r) = Inl ERANGE"
  using assms hd_num_str [of 10 n] scan_num_dec_str [OF assms(2), of n]
  by (simp add: parse_u64_prefix_def isdigit_val strtoull_def)

lemma unat_of_nat_u64: "n < 2 ^ 64 \<Longrightarrow> unat (of_nat n :: u64) = n"
  by (simp add: unat_of_nat)

lemma shift_fits:
  assumes "n < 2 ^ 64" and "sh < 64"
  shows "(of_nat n :: u64) \<le> drop_bit sh (- 1) \<longleftrightarrow> n * 2 ^ sh < 2 ^ 64"
proof -
  have "unat (drop_bit sh (- 1) :: u64) = (2 ^ 64 - 1) div 2 ^ sh"
    by (subst unat_drop_bit_eq) (simp add: drop_bit_eq_div unsigned_minus_1_eq_mask mask_eq_exp_minus_1)
  moreover have "n \<le> (2 ^ 64 - 1) div 2 ^ sh \<longleftrightarrow> n * 2 ^ sh < 2 ^ 64"
    by (auto simp: less_eq_div_iff_mult_less_eq)
  ultimately show ?thesis using assms by (simp add: word_le_nat_alt unat_of_nat)
qed

lemma push_bit_of_nat: "push_bit sh (of_nat n :: u64) = of_nat (n * 2 ^ sh)"
  by (simp add: push_bit_eq_mult)

section \<open>CPU lists\<close>

lemma remdups_adj_snoc:
  "remdups_adj (ys @ [x]) = (if ys \<noteq> [] \<and> last ys = x then remdups_adj ys else remdups_adj ys @ [x])"
  by (induction ys rule: remdups_adj.induct) auto

lemma normalize_loop_spec:
  assumes "length ids = length xs" and "i + k = length xs" and "n \<le> i"
    and "take n ids = remdups_adj (take i xs)" and "drop i ids = drop i xs"
  shows "case normalize_loop k i n ids of (n', ids') \<Rightarrow> take n' ids' = remdups_adj xs"
  using assms
proof (induction k i n ids rule: normalize_loop.induct)
  case (1 i n ids)
  then show ?case by simp
next
  case (2 k i n ids)
  have i: "i < length xs" using "2.prems" by simp
  have x: "ids ! i = xs ! i" using "2.prems"(1,5) i by (metis hd_drop_conv_nth)
  have next_xs: "take (Suc i) xs = take i xs @ [xs ! i]" using i by (rule take_Suc_conv_app_nth)
  have rest: "drop (Suc i) ids = drop (Suc i) xs" using "2.prems"(5) by (metis drop_Suc drop_drop plus_1_eq_Suc drop_tl tl_drop)
  have empty: "n = 0 \<longleftrightarrow> take i xs = []"
    using "2.prems"(1,3,4) i by (metis le_zero_eq length_0_conv length_take less_imp_le min.absorb2 order.trans remdups_adj_Nil_iff)
  have last_n: "ids ! (n - 1) = last (take i xs)" if "n \<noteq> 0"
  proof -
    have "last (take n ids) = ids ! (n - 1)"
      using that "2.prems"(1,3) i by (subst last_conv_nth) auto
    then show ?thesis using "2.prems"(4) empty that by (metis last_remdups_adj)
  qed
  show ?case
  proof (cases "n = 0 \<or> ids ! (n - 1) \<noteq> ids ! i")
    case True
    then have "take (Suc n) (ids[n := ids ! i]) = remdups_adj (take (Suc i) xs)"
      using "2.prems" i last_n empty x
      by (auto simp: next_xs remdups_adj_snoc take_Suc_conv_app_nth)
    moreover have "drop (Suc i) (ids[n := ids ! i]) = drop (Suc i) xs" using "2.prems"(3) rest by simp
    ultimately show ?thesis using "2.IH"(1) [OF True] "2.prems" True by simp
  next
    case False
    then have "take n ids = remdups_adj (take (Suc i) xs)"
      using "2.prems"(4) last_n empty x by (auto simp: next_xs remdups_adj_snoc)
    then show ?thesis using "2.IH"(2) [OF False] "2.prems" False rest by simp
  qed
qed

lemma distinct_remdups_adj_sorted: "sorted xs \<Longrightarrow> distinct (remdups_adj xs)"
  by (induction xs rule: remdups_adj.induct) (auto simp: order_antisym)

lemma cpulist_normalize_set: "cl_ids (cpulist_normalize l) = sorted_list_of_set (set (cl_ids l))"
proof -
  let ?xs = "sort (cl_ids l)"
  have "case normalize_loop (length ?xs) 0 0 ?xs of (n', ids') \<Rightarrow> take n' ids' = remdups_adj ?xs"
    by (rule normalize_loop_spec) simp_all
  then have "cl_ids (cpulist_normalize l) = remdups_adj ?xs"
    by (auto simp: cpulist_normalize_def Let_def split: prod.splits)
  also have "\<dots> = sorted_list_of_set (set (cl_ids l))"
    by (rule sorted_distinct_set_unique) (simp_all add: distinct_remdups_adj_sorted)
  finally show ?thesis .
qed

lemma cpulist_push_set:
  "cpulist_push ok cpu (l, cap) = (r, l', cap') \<Longrightarrow>
     (r = None \<longrightarrow> set (cl_ids l') = insert cpu (set (cl_ids l))) \<and> (r \<noteq> None \<longrightarrow> \<not> (\<forall>n. ok n))"
  by (auto simp: cpulist_push_def Let_def split: if_splits)

lemma word_interval_step: "lo < hi \<Longrightarrow> {lo .. hi} = insert lo {lo + 1 .. (hi :: u64)}"
proof -
  assume "lo < hi"
  then have "lo \<le> lo + 1" by uint_arith
  then show ?thesis
    using \<open>lo < hi\<close> by (auto dest: order_trans) (metis inc_le order_le_less)
qed

lemma cpulist_push_range_set:
  assumes "lo \<le> hi" and "cpulist_push_range ok lo hi (l, cap) = (r, l', cap')"
  shows "(r = None \<longrightarrow> set (cl_ids l') = set (cl_ids l) \<union> {lo .. hi}) \<and> (r \<noteq> None \<longrightarrow> \<not> (\<forall>n. ok n))"
  using assms
proof (induction ok lo hi "(l, cap)" arbitrary: l cap rule: cpulist_push_range.induct)
  case (1 ok lo hi l cap)
  obtain r1 l1 cap1 where p: "cpulist_push ok lo (l, cap) = (r1, l1, cap1)" by (metis prod_cases3)
  note push = cpulist_push_set [OF p]
  show ?case
  proof (cases "r1 = None \<and> lo \<noteq> hi")
    case True
    then have "lo < hi" using "1.prems"(1) by (simp add: order_le_less)
    then have le: "lo + 1 \<le> hi" by (rule inc_le)
    have rest: "cpulist_push_range ok (lo + 1) hi (l1, cap1) = (r, l', cap')"
      using "1.prems"(2) p True by (simp add: cpulist_push_range.simps [of ok lo])
    have "(r = None \<longrightarrow> set (cl_ids l') = set (cl_ids l1) \<union> {lo + 1 .. hi}) \<and> (r \<noteq> None \<longrightarrow> \<not> (\<forall>n. ok n))"
      using p True by (intro "1.hyps" [OF _ _ _ le rest]) auto
    then show ?thesis using push True word_interval_step [OF \<open>lo < hi\<close>] by auto
  next
    case False
    then show ?thesis
      using push "1.prems"(2) p by (auto simp: cpulist_push_range.simps [of ok lo] split: option.splits)
  qed
qed

text \<open>CPU lists as they are written: single ids and ranges, separated by commas.\<close>

definition cpu_item :: "u64 \<times> u64 \<Rightarrow> string" where
  "cpu_item r = (if fst r = snd r then dec (unat (fst r))
     else dec (unat (fst r)) @ ''-'' @ dec (unat (snd r)))"

lemma cpulist_item_print:
  assumes "lo \<le> hi" and "stops 10 r" and "r \<noteq> [] \<Longrightarrow> hd r \<noteq> CHR ''-''"
  shows "cpulist_item (cpu_item (lo, hi) @ r) = Inr (lo, hi, r)"
proof (cases "lo = hi")
  case True
  then show ?thesis
    using assms parse_u64_prefix_dec [of "unat lo" r] unsigned_less [of lo, where 'a = nat]
    by (auto simp: cpulist_item_def cpu_item_def)
next
  case False
  have "stops 10 (CHR ''-'' # dec (unat hi) @ r)" by (simp add: digit_val_def)
  then show ?thesis
    using False assms parse_u64_prefix_dec [of "unat lo" "CHR ''-'' # dec (unat hi) @ r"]
      parse_u64_prefix_dec [of "unat hi" r] unsigned_less [of lo, where 'a = nat] unsigned_less [of hi, where 'a = nat]
    by (auto simp: cpulist_item_def cpu_item_def)
qed

lemma cpu_item_nonempty [simp]: "cpu_item r \<noteq> []"
  by (simp add: cpu_item_def)

lemma cpulist_loop_items:
  assumes "\<forall>n. ok n" and "\<forall>(lo, hi) \<in> set rs. lo \<le> hi"
  shows "\<exists>l' cap'. cpulist_loop ok (join '','' (map cpu_item rs)) (l, cap) = (None, l', cap') \<and>
    set (cl_ids l') = set (cl_ids l) \<union> (\<Union>(lo, hi) \<in> set rs. {lo .. hi})"
  using assms(2)
proof (induction rs arbitrary: l cap)
  case Nil
  then show ?case by (simp add: cpulist_loop.simps [of ok "[]"])
next
  case (Cons r rs)
  obtain lo hi where r: "r = (lo, hi)" "lo \<le> hi" using Cons.prems by (cases r) auto
  define rest where "rest = (if rs = [] then [] else '','' @ join '','' (map cpu_item rs))"
  have s: "join '','' (map cpu_item (r # rs)) = cpu_item (lo, hi) @ rest"
    by (simp add: join_Cons rest_def r)
  have item: "cpulist_item (cpu_item (lo, hi) @ rest) = Inr (lo, hi, rest)"
    using r by (intro cpulist_item_print) (auto simp: rest_def digit_val_def)
  obtain r1 l1 cap1 where p: "cpulist_push_range ok lo hi (l, cap) = (r1, l1, cap1)" by (metis prod_cases3)
  have l1: "r1 = None" "set (cl_ids l1) = set (cl_ids l) \<union> {lo .. hi}"
    using cpulist_push_range_set [OF r(2) p] assms(1) by auto
  have "cpulist_loop ok (join '','' (map cpu_item (r # rs))) (l, cap) =
      cpulist_loop ok (join '','' (map cpu_item rs)) (l1, cap1)"
    unfolding s using item p l1 by (subst cpulist_loop.simps) (auto simp: rest_def)
  then show ?case using Cons.IH [of l1 cap1] Cons.prems l1(2) r by auto
qed

section \<open>Word lists\<close>

lemma dropWhile_all_append: "\<forall>c \<in> set p. P c \<Longrightarrow> w \<noteq> [] \<Longrightarrow> \<not> P (hd w) \<Longrightarrow> dropWhile P (p @ w @ q) = w @ q"
  by (induction p) (cases w; auto)+

lemma rstrip_spaces:
  assumes "\<forall>c \<in> set q. isspace c" and "w \<noteq> []" and "\<not> isspace (last w)"
  shows "rstrip (w @ q) = w"
proof -
  have "dropWhile isspace (rev q @ rev w @ []) = rev w @ []"
    using assms by (intro dropWhile_all_append) (auto simp: hd_rev)
  then show ?thesis by (simp add: rstrip_def)
qed

text \<open>A word as it may stand in a list: no comma, not empty, white space around it only.\<close>

definition list_word :: "string \<Rightarrow> bool" where
  "list_word w = (w \<noteq> [] \<and> CHR '','' \<notin> set w \<and> \<not> isspace (hd w) \<and> \<not> isspace (last w))"

definition all_space :: "string \<Rightarrow> bool" where
  "all_space p = list_all isspace p"

lemma space_not_comma: "isspace c \<Longrightarrow> c \<noteq> CHR '',''"
  by (auto simp: isspace_def)

lemma strlist_item_word:
  assumes "\<forall>n. ok n" and "all_space p" and "list_word w" and "all_space q" and "r = [] \<or> hd r = CHR '',''"
  shows "\<exists>cap'. strlist_item ok (p @ w @ q @ r) (items, cap) =
    Some (if r = [] then [] else tl r, items @ [w], cap')"
proof -
  have 1: "dropWhile isspace (p @ w @ q @ r) = w @ q @ r"
    using assms(2,3) by (intro dropWhile_all_append) (auto simp: all_space_def list_word_def list_all_iff)
  have noc: "\<forall>c \<in> set (w @ q). c \<noteq> CHR '',''"
    using assms(3,4) space_not_comma by (auto simp: list_word_def all_space_def list_all_iff)
  have "takeWhile (\<lambda>c. c \<noteq> CHR '','') ((w @ q) @ r) = w @ q" "dropWhile (\<lambda>c. c \<noteq> CHR '','') ((w @ q) @ r) = r"
    using assms(5) takeWhile_digits_append [OF noc, of r] by auto
  then have 2: "takeWhile (\<lambda>c. c \<noteq> CHR '','') (w @ q @ r) = w @ q" "dropWhile (\<lambda>c. c \<noteq> CHR '','') (w @ q @ r) = r"
    by simp_all
  have 3: "rstrip (w @ q) = w"
    using assms(3,4) by (intro rstrip_spaces) (auto simp: list_word_def all_space_def list_all_iff)
  show ?thesis using assms(1,3) noc by (simp add: strlist_item_def Let_def 1 2 3 list_word_def)
qed

lemma strlist_loop_words:
  assumes "\<forall>n. ok n" and "\<forall>(p, w, q) \<in> set ws. all_space p \<and> list_word w \<and> all_space q"
  shows "\<exists>cap'. strlist_loop ok (join '','' (map (\<lambda>(p, w, q). p @ w @ q) ws)) (items, cap) =
    Some (items @ map (fst \<circ> snd) ws, cap')"
  using assms(2)
proof (induction ws arbitrary: items cap)
  case Nil
  then show ?case by (simp add: strlist_loop.simps [of ok "[]"])
next
  case (Cons x ws)
  obtain p w q where x: "x = (p, w, q)" by (cases x)
  define rest where "rest = (if ws = [] then [] else '','' @ join '','' (map (\<lambda>(p, w, q). p @ w @ q) ws))"
  have s: "join '','' (map (\<lambda>(p, w, q). p @ w @ q) (x # ws)) = p @ w @ q @ rest"
    by (simp add: join_Cons rest_def x)
  have w: "all_space p" "list_word w" "all_space q" using Cons.prems x by auto
  have rest_comma: "rest = [] \<or> hd rest = CHR '',''" by (simp add: rest_def)
  obtain cap1 where i: "strlist_item ok (p @ w @ q @ rest) (items, cap) =
      Some (if rest = [] then [] else tl rest, items @ [w], cap1)"
    using strlist_item_word [OF assms(1) w rest_comma, of items cap] by blast
  have "p @ w @ q @ rest \<noteq> []" using w by (auto simp: list_word_def)
  then have "strlist_loop ok (p @ w @ q @ rest) (items, cap) =
      strlist_loop ok (join '','' (map (\<lambda>(p, w, q). p @ w @ q) ws)) (items @ [w], cap1)"
    using i by (subst strlist_loop.simps) (auto simp: rest_def)
  then show ?case using Cons.IH [of "items @ [w]" cap1] Cons.prems x s by auto
qed

section \<open>The properties of the parsers\<close>

text \<open>The units of a size, after upper-casing.\<close>

definition size_units :: "(string \<times> nat) list" where
  "size_units = [('''', 0), (''K'', 10), (''KB'', 10), (''M'', 20), (''MB'', 20),
     (''G'', 30), (''GB'', 30), (''T'', 40), (''TB'', 40)]"

lemma size_unit_cases:
  "(case unit_shift u of None \<Rightarrow> None | Some sh \<Rightarrow>
      if (if sh \<noteq> 0 then let u = tl u in if u \<noteq> [] \<and> toupper (hd u) = CHR ''B'' then tl u else u else u) = []
      then Some sh else None) = map_of size_units (map toupper u)"
proof (cases u)
  case Nil
  then show ?thesis by (simp add: unit_shift_def size_units_def)
next
  case (Cons a v)
  show ?thesis
    by (cases v; cases "tl v") (auto simp: Cons unit_shift_def size_units_def Let_def)
qed

lemma size_unit_less: "map_of size_units u = Some sh \<Longrightarrow> sh < 64"
  by (auto simp: size_units_def split: if_splits)

text \<open>C32: \<open>parse_size\<close> on a decimal number and a unit, for every number and every text after it: the
  number times the unit's power of two, \<open>-EINVAL\<close> exactly for an unknown unit, and \<open>-ERANGE\<close> exactly when
  the number or the product does not fit in 64 bits.\<close>

theorem parse_size_value:
  assumes "stops 10 u"
  shows "parse_size (dec n @ u) =
    (if 2 ^ 64 \<le> n then Inl ERANGE
     else case map_of size_units (map toupper u) of
       None \<Rightarrow> Inl EINVAL
     | Some sh \<Rightarrow> if n * 2 ^ sh < 2 ^ 64 then Inr (of_nat (n * 2 ^ sh)) else Inl ERANGE)"
proof (cases "2 ^ 64 \<le> n")
  case True
  then show ?thesis using parse_u64_prefix_big [OF True assms] by (simp add: parse_size_def)
next
  case False
  then have n: "n < 2 ^ 64" by simp
  note p = parse_u64_prefix_dec [OF n assms] and u = size_unit_cases [of u]
  show ?thesis
  proof (cases "unit_shift u")
    case None
    then show ?thesis using u False p by (simp add: parse_size_def)
  next
    case (Some sh)
    then have sh: "sh < 64" by (auto simp: unit_shift_def split: if_splits)
    define t where "t = (if sh \<noteq> 0 then let u = tl u in if u \<noteq> [] \<and> toupper (hd u) = CHR ''B'' then tl u else u else u)"
    have m: "map_of size_units (map toupper u) = (if t = [] then Some sh else None)"
      using u Some by (simp add: t_def)
    have "parse_size (dec n @ u) = (if t \<noteq> [] then Inl EINVAL
        else if sh \<noteq> 0 \<and> of_nat n > (drop_bit sh (- 1) :: u64) then Inl ERANGE else Inr (push_bit sh (of_nat n)))"
      by (simp only: parse_size_def p Some t_def Let_def sum.case prod.case option.case)
    then show ?thesis
      using m n shift_fits [OF n sh] push_bit_of_nat [of sh n] by (cases "sh = 0") (auto simp: not_le not_less)
  qed
qed

theorem parse_size_value_witness:
  "stops 10 ''Gb'' \<and> parse_size (dec 4 @ ''Gb'') = Inr 0x100000000"
proof -
  have "map_of size_units (map toupper ''Gb'') = Some 30" by code_simp
  moreover have "stops 10 ''Gb''" by code_simp
  ultimately show ?thesis using parse_size_value [of "''Gb''" 4] by simp
qed

text \<open>C33: a CPU list written as ids and ranges in any order, overlapping or not, parses to exactly the ids
  it names, sorted and without duplicates.\<close>

theorem parse_cpulist_roundtrip:
  assumes "\<forall>n. ok n" and "rs \<noteq> []" and "\<forall>(lo, hi) \<in> set rs. lo \<le> hi"
  shows "parse_cpulist ok (join '','' (map cpu_item rs)) =
    (None, \<lparr>cl_ids = sorted_list_of_set (\<Union>(lo, hi) \<in> set rs. {lo .. hi})\<rparr>)"
proof -
  have "join '','' (map cpu_item rs) \<noteq> []" using assms(2) by (cases rs) (auto simp: join_Cons)
  moreover obtain l' cap' where "cpulist_loop ok (join '','' (map cpu_item rs)) (cpulist_empty, 0) = (None, l', cap')"
      "set (cl_ids l') = (\<Union>(lo, hi) \<in> set rs. {lo .. hi})"
    using cpulist_loop_items [OF assms(1,3), of cpulist_empty 0] by auto
  ultimately show ?thesis
    using cpulist_normalize_set [of l'] by (simp add: parse_cpulist_def)
qed

theorem parse_cpulist_roundtrip_witness:
  "join '','' (map cpu_item [(8, 9), (3, 3), (9, 10)]) = ''8-9,3,9-10'' \<and>
   parse_cpulist always (join '','' (map cpu_item [(8, 9), (3, 3), (9, 10)])) =
    (None, \<lparr>cl_ids = sorted_list_of_set ({8 .. 9} \<union> {3 .. 3} \<union> {9 .. 10})\<rparr>)"
proof
  show "join '','' (map cpu_item [(8, 9), (3, 3), (9, 10)]) = ''8-9,3,9-10''" by code_simp
  show "parse_cpulist always (join '','' (map cpu_item [(8, 9), (3, 3), (9, 10)])) =
    (None, \<lparr>cl_ids = sorted_list_of_set ({8 .. 9} \<union> {3 .. 3} \<union> {9 .. 10})\<rparr>)"
    using parse_cpulist_roundtrip [of always "[(8, 9), (3, 3), (9, 10)]"]
    by (simp add: Un_assoc del: atLeastAtMost_singleton)
qed

text \<open>C34: a comma separated list of words parses to the words, in order, whatever white space surrounds
  each of them.\<close>

theorem parse_strlist_roundtrip:
  assumes "\<forall>n. ok n" and "ws \<noteq> []" and "\<forall>(p, w, q) \<in> set ws. all_space p \<and> list_word w \<and> all_space q"
  shows "parse_strlist ok (join '','' (map (\<lambda>(p, w, q). p @ w @ q) ws)) =
    (None, \<lparr>sl_items = map (fst \<circ> snd) ws\<rparr>)"
proof -
  have "join '','' (map (\<lambda>(p, w, q). p @ w @ q) ws) \<noteq> []"
    using assms(2,3) by (cases ws) (auto simp: join_Cons list_word_def)
  then show ?thesis
    using strlist_loop_words [OF assms(1,3), of "[]" 0] by (auto simp: parse_strlist_def)
qed

theorem parse_strlist_roundtrip_witness:
  "parse_strlist always (join '','' (map (\<lambda>(p, w, q). p @ w @ q) [([], ''eth0'', '' ''), ('' '', ''a b'', [])])) =
    (None, \<lparr>sl_items = [''eth0'', ''a b'']\<rparr>)"
  using parse_strlist_roundtrip [of always "[([], ''eth0'', '' ''), ('' '', ''a b'', [])]"]
  by (simp add: all_space_def list_word_def isspace_def)

end
