(* ===== verification/Memory.thy ===== *)
theory Memory
  imports Ranges Parse Sysio
begin

text \<open>
  The memory and the CPUs a successor may claim: the RAM of this kernel
  (lib/iomem.c), the granule memory moves in and the record of the memory kept
  for the next pool (lib/memblock.c), and the takeable resources
  (lib/takeable.c).
\<close>

section \<open>System RAM of this kernel\<close>

definition iomem_parse_line :: "string \<Rightarrow> (u64 \<times> u64 \<times> string) option" where
  "iomem_parse_line line =
     (let line = dropWhile (\<lambda>c. c = CHR '' '') line in
      if line = [] \<or> \<not> isxdigit (hd line) then None
      else
        let (start, p, range) = strtoull 16 line in
        if p = [] \<or> hd p \<noteq> CHR ''-'' then None
        else let (e, p, range) = strtoull 16 (tl p) in
             if take 3 p \<noteq> '' : '' then None else Some (start, e, drop 3 p))"

definition is_system_ram :: "string \<Rightarrow> bool" where
  "is_system_ram name =
     (take 10 name = ''System RAM'' \<and>
      (let rest = drop 10 name in
       rest = [] \<or> take 2 rest = '' ('' \<and> last rest = CHR '')''))"

definition iomem_line :: "alloc \<Rightarrow> string \<Rightarrow> rangeset \<Rightarrow> rc \<times> rangeset" where
  "iomem_line ok line ram =
     (case iomem_parse_line line of
        None \<Rightarrow> (None, ram)
      | Some (start, e, name) \<Rightarrow>
          if is_system_ram name then rangeset_add ok ram start (e - start + 1) else (None, ram))"

definition iomem_system_ram :: "alloc \<Rightarrow> 'w sys \<Rightarrow> 'w \<Rightarrow> string \<Rightarrow> rangeset \<Rightarrow> rc \<times> rangeset" where
  "iomem_system_ram ok sys w path ram =
     (case read_string sys w path of
        Inl e \<Rightarrow> (Some e, ram)
      | Inr txt \<Rightarrow> fold_rc (iomem_line ok) (split_lines txt) ram)"

section \<open>The granule and the pool's memory\<close>

definition memblock_size :: "'w sys \<Rightarrow> 'w \<Rightarrow> string \<Rightarrow> u64 res" where
  "memblock_size sys w path =
     (case read_string sys w path of
        Inl e \<Rightarrow> Inl e
      | Inr txt \<Rightarrow> let (block, e, range) = strtoull 16 txt
                 in if e \<noteq> [] \<or> block = 0 then Inl EINVAL else Inr block)"

text \<open>\<open>%#llx\<close> writes no prefix for zero.\<close>

definition hex_alt :: "u64 \<Rightarrow> string" where
  "hex_alt v = (if v = 0 then ''0'' else ''0x'' @ hex (unat v))"

definition pool_claim_text :: "range \<Rightarrow> string" where
  "pool_claim_text r = hex_alt (r_base r) @ '' '' @ hex_alt (r_size r) @ [CHR 0x0A]"

definition pool_claim_write :: "'w sys \<Rightarrow> string \<Rightarrow> range \<Rightarrow> 'w \<Rightarrow> rc \<times> 'w" where
  "pool_claim_write sys path r w = sys_write sys path (pool_claim_text r) w"

definition pool_claim_parse :: "string \<Rightarrow> range res" where
  "pool_claim_parse txt =
     (case fst (sscanf txt [SNum 16 None, SWs, SNum 16 None]) of
        [VNum base, VNum sz] \<Rightarrow> if sz = 0 then Inl EINVAL else Inr \<lparr>r_base = base, r_size = sz\<rparr>
      | _ \<Rightarrow> Inl EINVAL)"

definition pool_claim_read :: "'w sys \<Rightarrow> 'w \<Rightarrow> string \<Rightarrow> range res" where
  "pool_claim_read sys w path =
     (case read_string sys w path of Inl e \<Rightarrow> Inl e | Inr txt \<Rightarrow> pool_claim_parse txt)"

section \<open>Takeable resources\<close>

record takeable =
  ta_memory :: rangeset
  ta_cpus :: cpulist

definition takeable_zero :: takeable where
  "takeable_zero = \<lparr>ta_memory = RANGESET_INIT, ta_cpus = \<lparr>cl_ids = []\<rparr>\<rparr>"

definition takeable_free :: "takeable \<Rightarrow> takeable" where
  "takeable_free t = t\<lparr>ta_memory := rangeset_free (ta_memory t), ta_cpus := cpulist_free (ta_cpus t)\<rparr>"

fun difference_loop :: "u64 list \<Rightarrow> cpulist \<Rightarrow> u64 list \<Rightarrow> u64 list" where
  "difference_loop [] m out = out"
| "difference_loop (x # xs) m out =
     (if \<not> cpulist_has m x \<and> \<not> cpulist_has \<lparr>cl_ids = out\<rparr> x then difference_loop xs m (out @ [x])
      else difference_loop xs m out)"

definition cpulist_difference :: "alloc \<Rightarrow> cpulist \<Rightarrow> cpulist \<Rightarrow> cpulist res" where
  "cpulist_difference ok all m =
     (if \<not> ok ((length (cl_ids all) + 1) * 8) then Inl ENOMEM
      else Inr \<lparr>cl_ids = difference_loop (cl_ids all) m []\<rparr>)"

definition takeable_compute ::
    "alloc \<Rightarrow> rangeset \<Rightarrow> cpulist \<Rightarrow> rangeset \<Rightarrow> rangeset \<Rightarrow> cpulist \<Rightarrow> rc \<times> takeable" where
  "takeable_compute ok host_ram host_cpus own_ram reserved own_cpus =
     (let t = takeable_zero;
          (r, m) = rangeset_copy ok (ta_memory t) host_ram;
          (r, m) = (if r = None then rangeset_subtract_set ok m own_ram else (r, m));
          (r, m) = (if r = None then rangeset_subtract_set ok m reserved else (r, m));
          t = t\<lparr>ta_memory := m\<rparr>;
          (r, t) = (if r = None then
                      (case cpulist_difference ok host_cpus own_cpus of
                         Inl e \<Rightarrow> (Some e, t) | Inr c \<Rightarrow> (None, t\<lparr>ta_cpus := c\<rparr>))
                    else (r, t));
          r = (if r = None \<and> (rs_r (ta_memory t) = [] \<or> cl_ids (ta_cpus t) = []) then Some ENOENT else r)
      in (r, if r = None then t else takeable_free t))"

section \<open>What a listing of iomem gives\<close>

text \<open>A line of the listing: indentation, first and last address, name.\<close>

definition iomem_text :: "nat \<times> u64 \<times> u64 \<times> string \<Rightarrow> string" where
  "iomem_text = (\<lambda>(k, a, b, name). replicate k (CHR '' '') @ zpad 8 (hex (unat a)) @ ''-'' @ zpad 8 (hex (unat b)) @ '' : '' @ name)"

lemma iomem_parse_line_text:
  "iomem_parse_line (iomem_text (k, a, b, name)) = Some (a, b, name)"
proof -
  let ?a = "zpad 8 (hex (unat a))" and ?b = "zpad 8 (hex (unat b))"
  have digits: "\<forall>c \<in> set ?a. digit_val c < 16" by (rule zpad_digits [OF hex_digits])
  then have hd: "digit_val (hd ?a) < 16" by simp
  then have "hd ?a \<noteq> CHR '' ''" by (auto simp: digit_val_def)
  then have 1: "dropWhile (\<lambda>c. c = CHR '' '') (iomem_text (k, a, b, name)) = ?a @ ''-'' @ ?b @ '' : '' @ name"
    unfolding iomem_text_def prod.case by (subst dropWhile_append2) (auto simp: hd_append dropWhile_eq_self_iff)
  have 2: "strtoull 16 (?a @ ''-'' @ ?b @ '' : '' @ name) = (a, ''-'' @ ?b @ '' : '' @ name, False)"
    using strtoull_zpad_hex [of "unat a" "''-'' @ ?b @ '' : '' @ name" 8] unsigned_less [of a, where 'a = nat]
    by (simp add: digit_val_def)
  have 3: "strtoull 16 (?b @ '' : '' @ name) = (b, '' : '' @ name, False)"
    using strtoull_zpad_hex [of "unat b" "'' : '' @ name" 8] unsigned_less [of b, where 'a = nat]
    by (simp add: digit_val_def)
  show ?thesis
    using hd 2 3 by (simp add: iomem_parse_line_def 1 isxdigit_def)
qed

definition ram_entries :: "(nat \<times> u64 \<times> u64 \<times> string) list \<Rightarrow> (u64 \<times> u64) list" where
  "ram_entries es = map (\<lambda>(k, a, b, name). (a, b)) (filter (\<lambda>(k, a, b, name). is_system_ram name) es)"

lemma iomem_lines_fold:
  "fold_rc (iomem_line ok) (map iomem_text es) ram =
   fold_rc (\<lambda>(a, b) s. rangeset_add ok s a (b - a + 1)) (ram_entries es) ram"
  by (induction es arbitrary: ram)
    (auto simp: iomem_line_def iomem_parse_line_text ram_entries_def split: prod.split option.split)

section \<open>Takeable resources are the difference\<close>

lemma difference_loop_set:
  "set (difference_loop xs m out) = set out \<union> (set xs - set (cl_ids m))"
  "distinct out \<Longrightarrow> distinct (difference_loop xs m out)"
  by (induction xs m out rule: difference_loop.induct) (auto simp: cpulist_has_def list_ex_iff)

lemma ranges_ok_nonempty: "rangeset_inv s \<Longrightarrow> rangeset_den s = {} \<longleftrightarrow> rs_r s = []"
proof (cases "rs_r s")
  case (Cons r rs)
  assume "rangeset_inv s"
  then have "r_base r \<in> rangeset_den s"
    by (simp add: rangeset_inv_def rangeset_den_def Cons range_ok_def range_den_def)
  then show ?thesis using Cons by auto
qed (simp add: rangeset_den_def)

lemma takeable_free_zero [simp]:
  "rs_r (ta_memory (takeable_free t)) = []" "cl_ids (ta_cpus (takeable_free t)) = []"
  by (simp_all add: takeable_free_def rangeset_free_def cpulist_free_def)

lemma takeable_compute_law:
  "case takeable_compute ok host_ram host_cpus own_ram reserved own_cpus of
     (None, t) \<Rightarrow>
       rangeset_inv (ta_memory t) \<and>
       rangeset_den (ta_memory t) = rangeset_den host_ram - rangeset_den own_ram - rangeset_den reserved \<and>
       set (cl_ids (ta_cpus t)) = set (cl_ids host_cpus) - set (cl_ids own_cpus) \<and> distinct (cl_ids (ta_cpus t)) \<and>
       rs_r (ta_memory t) \<noteq> [] \<and> cl_ids (ta_cpus t) \<noteq> []
   | (Some e, t) \<Rightarrow> rs_r (ta_memory t) = [] \<and> cl_ids (ta_cpus t) = []"
proof -
  obtain r1 m1 where 1: "rangeset_copy ok RANGESET_INIT host_ram = (r1, m1)" by fastforce
  obtain r2 m2 where 2: "rangeset_subtract_set ok m1 own_ram = (r2, m2)" by fastforce
  obtain r3 m3 where 3: "rangeset_subtract_set ok m2 reserved = (r3, m3)" by fastforce
  have m3: "rangeset_inv m3 \<and> rangeset_den m3 = rangeset_den host_ram - rangeset_den own_ram - rangeset_den reserved"
    if "r1 = None" "r2 = None" "r3 = None"
    using rangeset_copy_correct [of ok RANGESET_INIT host_ram m1] rangeset_subtract_set_correct [of m1 ok own_ram m2]
      rangeset_subtract_set_correct [of m2 ok reserved m3] that 1 2 3 by auto
  show ?thesis
    using m3 difference_loop_set(1) [of "cl_ids host_cpus" own_cpus "[]"]
      difference_loop_set(2) [of "[]" "cl_ids host_cpus" own_cpus]
    by (auto simp: takeable_compute_def takeable_zero_def Let_def 1 2 3 cpulist_difference_def
        split: if_splits option.splits)
qed

section \<open>The record of the next pool's memory\<close>

lemma scan_number_hex_alt:
  assumes "r = [] \<or> isspace (hd r)"
  shows "scan_number 16 None (hex_alt v @ r) = Some (v, r)"
proof -
  have s: "stops 16 r" "r = [] \<or> hd r \<noteq> CHR ''x'' \<and> hd r \<noteq> CHR ''X''"
    using assms digit_not_space by (auto simp: stops_def isspace_lit)
  have "scan_num 16 (hex_alt v @ r) = Some (False, unat v, r)"
  proof (cases "v = 0")
    case True
    then show ?thesis
      using scan_num_digits [of "''0''" 16 r] s by (simp add: hex_alt_def digit_val_def num_val_def)
  next
    case False
    then show ?thesis using scan_num_0x [of "hex (unat v)" r] s hex_digits [of "unat v"] by (simp add: hex_alt_def)
  qed
  moreover have "dropWhile isspace (hex_alt v @ r) = hex_alt v @ r" by (simp add: hex_alt_def isspace_lit)
  ultimately show ?thesis
    using unsigned_less [of v, where 'a = nat] by (simp add: scan_number_def strtoull_def)
qed

lemma pool_claim_parse_text:
  "pool_claim_parse (hex_alt (r_base r) @ '' '' @ hex_alt (r_size r)) = (if r_size r = 0 then Inl EINVAL else Inr r)"
proof -
  have "dropWhile isspace (CHR '' '' # hex_alt (r_size r)) = hex_alt (r_size r)" by (simp add: hex_alt_def isspace_lit)
  then show ?thesis
    using scan_number_hex_alt [of "CHR '' '' # hex_alt (r_size r)" "r_base r"] scan_number_hex_alt [of "[]" "r_size r"]
    by (simp add: pool_claim_parse_def sscanf_def isspace_lit)
qed

lemma hex_no_breaks: "c \<in> set (hex_alt v) \<Longrightarrow> c \<noteq> CHR 0x0A \<and> c \<noteq> CHR 0x00"
  using hex_digits [of "unat v"] by (auto simp: hex_alt_def digit_val_def split: if_splits)

lemma pool_claim_file_text:
  "file_read_string (Inr (pool_claim_text r)) = Inr (hex_alt (r_base r) @ '' '' @ hex_alt (r_size r))"
proof -
  let ?t = "hex_alt (r_base r) @ '' '' @ hex_alt (r_size r)"
  have ne: "hex_alt (r_size r) \<noteq> []" by (simp add: hex_alt_def)
  then have "last (hex_alt (r_size r)) \<noteq> CHR 0x0A" using hex_no_breaks [OF last_in_set] by blast
  then have "strip_newlines (?t @ [CHR 0x0A]) = ?t"
    using ne by (cases "hex_alt (r_size r)" rule: rev_exhaust) (auto simp: strip_newlines_def)
  moreover have "cstr ?t = ?t" using hex_no_breaks by (force simp: cstr_def takeWhile_eq_all_conv)
  ultimately show ?thesis by (simp add: file_read_string_def pool_claim_text_def)
qed

section \<open>The properties of the takeable resources\<close>

text \<open>C13: what \<open>takeable_compute\<close> offers is exactly the machine's RAM without this kernel's own and
  without the reserved regions, and every machine CPU this kernel does not own, each once; both are non-empty.
  When it fails it offers nothing.\<close>

theorem takeable_is_machine_minus_own:
  "case takeable_compute ok host_ram host_cpus own_ram reserved own_cpus of
     (None, t) \<Rightarrow>
       rangeset_inv (ta_memory t) \<and>
       rangeset_den (ta_memory t) = rangeset_den host_ram - rangeset_den own_ram - rangeset_den reserved \<and>
       set (cl_ids (ta_cpus t)) = set (cl_ids host_cpus) - set (cl_ids own_cpus) \<and> distinct (cl_ids (ta_cpus t)) \<and>
       rs_r (ta_memory t) \<noteq> [] \<and> cl_ids (ta_cpus t) \<noteq> []
   | (Some e, t) \<Rightarrow> rs_r (ta_memory t) = [] \<and> cl_ids (ta_cpus t) = []"
  by (rule takeable_compute_law)

text \<open>C35: reading this kernel's iomem listing yields exactly the addresses of its System RAM lines, the ones
  a driver hot-added included, whatever other lines it has and however they are indented.\<close>

theorem iomem_reads_system_ram:
  assumes "es \<noteq> []" and "\<forall>(k, a, b, name) \<in> set es. CHR 0x0A \<notin> set name \<and> CHR 0x00 \<notin> set name \<and> a \<le> b \<and> b \<noteq> - 1"
    and "read_string sys w path = Inr (join [CHR 0x0A] (map iomem_text es))"
    and "\<forall>n. ok n"
  shows "\<exists>ram. iomem_system_ram ok sys w path RANGESET_INIT = (None, ram) \<and> rangeset_inv ram \<and>
    rangeset_den ram = (\<Union>(a, b) \<in> set (ram_entries es). {a .. b})"
proof -
  have nl: "CHR 0x0A \<notin> set (iomem_text (k, a, b, name))" if "CHR 0x0A \<notin> set name" for k a b name
  proof -
    have "CHR 0x0A \<notin> set (zpad 8 (hex n))" for n
      using zpad_digits [OF hex_digits, of 8 n] by (auto simp: digit_val_def)
    then show ?thesis using that by (auto simp: iomem_text_def)
  qed
  have lines: "split_lines (join [CHR 0x0A] (map iomem_text es)) = map iomem_text es"
    using assms(1,2) nl by (intro split_lines_join) auto
  have fits: "a < a + (b - a + 1)" "{a ..< a + (b - a + 1)} = {a .. b}" if "(a, b) \<in> set (ram_entries es)" for a b
  proof -
    have "a \<le> b" "b \<noteq> - 1" using assms(2) that by (auto simp: ram_entries_def)
    then have "b < b + 1" by (simp add: word_less_nat_alt unat_plus_one)
    moreover have "a + (b - a + 1) = b + 1" by simp
    ultimately show "a < a + (b - a + 1)" "{a ..< a + (b - a + 1)} = {a .. b}"
      using \<open>a \<le> b\<close> by (auto intro: le_less_trans simp: word_less_iff_le_pred [of "b + 1"])
        (metis add_diff_cancel_right' not_less word_less_iff_le_pred word_not_simps(1) word_gt_0)+
  qed
  obtain ram where ram: "fold_rc (\<lambda>x s. rangeset_add ok s (fst x) (snd x - fst x + 1)) (ram_entries es) RANGESET_INIT = (None, ram)"
    using add_all_returns [of ok RANGESET_INIT "ram_entries es" fst "\<lambda>x. snd x - fst x + 1"] assms(4) fits by fastforce
  have "iomem_system_ram ok sys w path RANGESET_INIT = (None, ram)"
    using assms(3) ram by (simp add: iomem_system_ram_def lines iomem_lines_fold split_def)
  then show ?thesis
    using rs.add_all_inv [OF rangeset_inv_empty(2) ram] rs.add_all_den [OF rangeset_inv_empty(2) ram] fits
    by (intro exI [of _ ram]) (auto simp: split_def)
qed

text \<open>A world of one file.\<close>

definition one_file :: "string \<Rightarrow> unit sys" where
  "one_file content = \<lparr>sys_read = (\<lambda>w p. Inr content), sys_write = (\<lambda>p c w. (None, w)), sys_attr = (\<lambda>p c w. (None, w)),
     sys_readdir = (\<lambda>w p. Inr []), sys_isdir = (\<lambda>w p. False), sys_access = (\<lambda>w p. True),
     sys_pread = (\<lambda>p off n w. (Inr [], w)), sys_pwrite = (\<lambda>p off c w. (0, w))\<rparr>"

theorem iomem_reads_system_ram_witness:
  "\<exists>ram. iomem_system_ram always (one_file (join [CHR 0x0A] (map iomem_text
      [(0, 0, 15, ''System RAM''), (2, 3, 4, ''Kernel code''), (0, 32, 47, ''System RAM (kmem)'')]))) () [] RANGESET_INIT = (None, ram) \<and>
    rangeset_den ram = {0 .. 15} \<union> {32 .. 47}"
proof -
  let ?es = "[(0, 0, 15, ''System RAM''), (2, 3, 4, ''Kernel code''), (0, 32, 47, ''System RAM (kmem)'')]"
  have "read_string (one_file (join [CHR 0x0A] (map iomem_text ?es))) () [] = Inr (join [CHR 0x0A] (map iomem_text ?es))"
    by code_simp
  moreover have "ram_entries ?es = [(0, 15), (32, 47)]" by code_simp
  ultimately show ?thesis
    using iomem_reads_system_ram [of ?es "one_file (join [CHR 0x0A] (map iomem_text ?es))" "()" "[]" always] by auto
qed

text \<open>C36: the record of the memory kept for the next pool is read back exactly as it was written, for every
  range of non-zero size.\<close>

theorem pool_claim_roundtrip:
  assumes "r_size r \<noteq> 0" and "sys_read sys w path = Inr (pool_claim_text r)"
  shows "pool_claim_read sys w path = Inr r"
  using assms pool_claim_parse_text [of r] by (simp add: pool_claim_read_def pool_claim_file_text)

theorem pool_claim_roundtrip_witness:
  "pool_claim_read (one_file (pool_claim_text \<lparr>r_base = 0x100000000, r_size = 0x8000000\<rparr>)) () [] =
    Inr \<lparr>r_base = 0x100000000, r_size = 0x8000000\<rparr>"
  by (rule pool_claim_roundtrip) (simp_all add: one_file_def)

end
