(* ===== verification/Pci.thy ===== *)
theory Pci
  imports Sysio "HOL-Library.List_Lexorder" "HOL-Library.Char_ord"
begin

text \<open>
  PCI functions in sysfs (lib/pci.c).  \<open>scandir\<close> with \<open>alphasort\<close> is the
  filtered directory listing, sorted by character codes.
\<close>

definition PATH_MAX :: nat where
  "PATH_MAX = 4096"

text \<open>\<open>snprintf\<close> into a \<open>char[PATH_MAX]\<close>.\<close>

definition mkpath :: "string list \<Rightarrow> string" where
  "mkpath parts = snd (snprintf PATH_MAX (join ''/'' parts))"

record pci_ids =
  pi_id :: string
  pi_vendor :: u32
  pi_device :: u32
  pi_class :: u32
  pi_iommu :: u64

record pci_list =
  pl_devs :: "pci_ids list"

definition pci_id_valid :: "string \<Rightarrow> bool" where
  "pci_id_valid i =
     (length i = 12 \<and>
      length (fst (sscanf i [SNum 16 (Some 4), SLit (CHR '':''), SNum 16 (Some 2), SLit (CHR '':''),
        SNum 16 (Some 2), SLit (CHR ''.''), SNum 16 (Some 1), SChar])) = 4)"

definition read_hex_attr :: "'w sys \<Rightarrow> 'w \<Rightarrow> string \<Rightarrow> string \<Rightarrow> string \<Rightarrow> u32 \<Rightarrow> rc \<times> u32" where
  "read_hex_attr sys w root i attr v =
     (case read_string sys w (mkpath [root, i, attr]) of
        Inl e \<Rightarrow> (Some e, v)
      | Inr txt \<Rightarrow> let (n, e, range) = strtoull 16 txt in (if e \<noteq> [] then Some EINVAL else None, ucast n))"

definition read_iommu :: "'w sys \<Rightarrow> 'w \<Rightarrow> string \<Rightarrow> string \<Rightarrow> u64 \<Rightarrow> u64" where
  "read_iommu sys w root i base =
     (case read_string sys w (mkpath [root, i, ''iommu/intel-iommu/address'']) of
        Inl e \<Rightarrow> base
      | Inr txt \<Rightarrow> let (n, e, range) = strtoull 16 txt in if e \<noteq> [] then 0 else n)"

abbreviation pci_zero :: pci_ids where
  "pci_zero \<equiv> \<lparr>pi_id = [], pi_vendor = 0, pi_device = 0, pi_class = 0, pi_iommu = 0\<rparr>"

definition pci_read_ids :: "'w sys \<Rightarrow> 'w \<Rightarrow> string \<Rightarrow> string \<Rightarrow> pci_ids \<Rightarrow> rc \<times> pci_ids" where
  "pci_read_ids sys w root i out =
     (if \<not> pci_id_valid i then (Some EINVAL, out)
      else
        let d = pci_zero\<lparr>pi_id := snd (snprintf 16 i)\<rparr>;
            (r, v) = read_hex_attr sys w root i ''vendor'' (pi_vendor d);
            d = d\<lparr>pi_vendor := v\<rparr>;
            (r, v) = (if r = None then read_hex_attr sys w root i ''device'' (pi_device d) else (r, pi_device d));
            d = d\<lparr>pi_device := v\<rparr>;
            (r, v) = (if r = None then read_hex_attr sys w root i ''class'' (pi_class d) else (r, pi_class d));
            d = d\<lparr>pi_class := v\<rparr>;
            d = (if r = None then d\<lparr>pi_iommu := read_iommu sys w root i (pi_iommu d)\<rparr> else d)
        in (r, d))"

definition pci_list_free :: "pci_list \<Rightarrow> pci_list" where
  "pci_list_free l = l\<lparr>pl_devs := []\<rparr>"

definition alphasort :: "(string \<Rightarrow> bool) \<Rightarrow> string list \<Rightarrow> string list" where
  "alphasort filt names = sort (filter filt names)"

definition pci_list_all :: "alloc \<Rightarrow> 'w sys \<Rightarrow> 'w \<Rightarrow> string \<Rightarrow> rc \<times> pci_list" where
  "pci_list_all ok sys w root =
     (case sys_readdir sys w root of
        Inl e \<Rightarrow> (Some e, \<lparr>pl_devs = []\<rparr>)
      | Inr names \<Rightarrow>
          let names = alphasort pci_id_valid names in
          if \<not> ok ((length names + 1) * 40) then (Some ENOMEM, \<lparr>pl_devs = []\<rparr>)
          else case fold_rc (\<lambda>i l. let (r, d) = pci_read_ids sys w root i pci_zero
                                 in (r, if r = None then l\<lparr>pl_devs := pl_devs l @ [d]\<rparr> else l)) names \<lparr>pl_devs = []\<rparr> of
               (None, l) \<Rightarrow> (None, l)
             | (Some e, l) \<Rightarrow> (Some e, pci_list_free l))"

definition pci_is_bridge :: "pci_ids \<Rightarrow> bool" where
  "pci_is_bridge d = (drop_bit 16 (pi_class d) = 0x06)"

definition pci_set_autoprobe :: "'w sys \<Rightarrow> string \<Rightarrow> bool \<Rightarrow> 'w \<Rightarrow> rc \<times> 'w" where
  "pci_set_autoprobe sys bus on w =
     sys_attr sys (mkpath [bus, ''drivers_autoprobe'']) (if on then ''1'' else ''0'') w"

definition pci_probe_driver :: "'w sys \<Rightarrow> string \<Rightarrow> string \<Rightarrow> 'w \<Rightarrow> rc \<times> 'w" where
  "pci_probe_driver sys bus i w = sys_attr sys (mkpath [bus, ''drivers_probe'']) i w"

definition pci_reset_function :: "'w sys \<Rightarrow> string \<Rightarrow> string \<Rightarrow> 'w \<Rightarrow> rc \<times> 'w" where
  "pci_reset_function sys bus i w = sys_attr sys (mkpath [bus, ''devices'', i, ''reset'']) ''1'' w"

definition PCI_COMMAND_OFFSET :: nat where
  "PCI_COMMAND_OFFSET = 4"

definition PCI_COMMAND_MASTER :: u8 where
  "PCI_COMMAND_MASTER = 4"

definition byte_of :: "char \<Rightarrow> u8" where
  "byte_of c = of_nat (of_char c)"

definition char_of_byte :: "u8 \<Rightarrow> char" where
  "char_of_byte b = char_of (unat b)"

definition pci_clear_bus_master :: "'w sys \<Rightarrow> string \<Rightarrow> string \<Rightarrow> 'w \<Rightarrow> rc \<times> 'w" where
  "pci_clear_bus_master sys bus i w =
     (let path = mkpath [bus, ''devices'', i, ''config''] in
      case sys_pread sys path PCI_COMMAND_OFFSET 2 w of
        (Inl e, w) \<Rightarrow> (Some e, w)
      | (Inr cmd, w) \<Rightarrow>
          if length cmd \<noteq> 2 then (Some EIO, w)
          else if and (byte_of (cmd ! 0)) PCI_COMMAND_MASTER \<noteq> 0 then
            let c0 = and (byte_of (cmd ! 0)) (not PCI_COMMAND_MASTER);
                (n, w) = sys_pwrite sys path PCI_COMMAND_OFFSET [char_of_byte c0, cmd ! 1] w
            in (if n \<noteq> 2 then Some EIO else None, w)
          else (None, w))"

end
