(* ===== verification/Dt.thy ===== *)
theory Dt
  imports Fdt_Writer Memory Pci
begin

text \<open>
  The trees kmorph hands to the kernel: the property helpers of
  lib/fdtutil.c, the overlays and baselines of lib/dt.c and the host tree of
  lib/host_tree.c.  Every builder is a sequence of writer calls, each in the
  macro \<open>TRY\<close>; the specification of each is a tree, and the lemmas show that a
  builder emits exactly its tree.
\<close>

section \<open>What a vmcore needs, and the host tree\<close>

record vmcore_info =
  vi_has_page_offset :: bool
  vi_page_offset :: u64
  vi_vmcoreinfo :: range
  vi_cpu_notes :: rangelist

definition VMCORE_INFO_INIT :: vmcore_info where
  "VMCORE_INFO_INIT = \<lparr>vi_has_page_offset = False, vi_page_offset = 0,
     vi_vmcoreinfo = \<lparr>r_base = 0, r_size = 0\<rparr>, vi_cpu_notes = \<lparr>rl_r = []\<rparr>\<rparr>"

definition vmcore_info_present :: "vmcore_info \<Rightarrow> bool" where
  "vmcore_info_present vi =
     (vi_has_page_offset vi \<or> r_size (vi_vmcoreinfo vi) \<noteq> 0 \<or> rl_r (vi_cpu_notes vi) \<noteq> [])"

definition vmcore_info_free :: "vmcore_info \<Rightarrow> vmcore_info" where
  "vmcore_info_free vi =
     vi\<lparr>vi_cpu_notes := rangelist_free (vi_cpu_notes vi), vi_vmcoreinfo := \<lparr>r_base = 0, r_size = 0\<rparr>,
        vi_has_page_offset := False, vi_page_offset := 0\<rparr>"

record host_tree =
  ht_cpus :: cpulist
  ht_ram :: rangeset
  ht_devices :: pci_list
  ht_vmcore :: vmcore_info

definition host_tree_zero :: host_tree where
  "host_tree_zero = \<lparr>ht_cpus = \<lparr>cl_ids = []\<rparr>, ht_ram = RANGESET_INIT, ht_devices = \<lparr>pl_devs = []\<rparr>,
     ht_vmcore = VMCORE_INFO_INIT\<rparr>"

definition host_tree_free :: "host_tree \<Rightarrow> host_tree" where
  "host_tree_free ht = ht\<lparr>ht_cpus := cpulist_free (ht_cpus ht), ht_ram := rangeset_free (ht_ram ht),
     ht_devices := pci_list_free (ht_devices ht), ht_vmcore := vmcore_info_free (ht_vmcore ht)\<rparr>"

section \<open>Property helpers\<close>

type_synonym fdt_fn = "fdt_sw \<Rightarrow> fdt_rc \<times> fdt_sw"

definition fdtutil_prop_reg :: "u64 \<Rightarrow> u64 \<Rightarrow> fdt_fn" where
  "fdtutil_prop_reg base sz = fdt_property ''reg'' (be64 base @ be64 sz)"

definition fdtutil_prop_cpulist :: "alloc \<Rightarrow> string \<Rightarrow> cpulist \<Rightarrow> fdt_fn" where
  "fdtutil_prop_cpulist ok name l st =
     (if \<not> ok (length (cl_ids l) * 8 + 1) then (Some FDT_ERR_INTERNAL, st)
      else fdt_property name (enc_cells64 (cl_ids l)) st)"

definition fdtutil_prop_regs :: "alloc \<Rightarrow> rangelist \<Rightarrow> fdt_fn" where
  "fdtutil_prop_regs ok l st =
     (if \<not> ok (2 * length (rl_r l) * 8 + 1) then (Some FDT_ERR_INTERNAL, st)
      else fdt_property ''reg'' (enc_cells64 (concat (map (\<lambda>r. [r_base r, r_size r]) (rl_r l)))) st)"

section \<open>Overlays\<close>

definition OVERLAY_COMPATIBLE :: string where
  "OVERLAY_COMPATIBLE = ''linux,multikernel-overlay''"

definition INSTANCES_PATH :: string where
  "INSTANCES_PATH = ''/instances''"

definition POOL_PATH :: string where
  "POOL_PATH = ''/resources''"

definition node_name :: "string \<Rightarrow> string" where
  "node_name s = snd (snprintf 32 s)"

definition instance_target :: "string \<Rightarrow> string" where
  "instance_target name = snd (snprintf 256 (INSTANCES_PATH @ ''/'' @ name))"

definition fragment_begin :: "nat \<Rightarrow> string \<Rightarrow> fdt_fn" where
  "fragment_begin index target_path = try_all
     [fdt_begin_node (node_name (''fragment@'' @ dec index)),
      fdt_property_string ''target-path'' target_path,
      fdt_begin_node ''__overlay__'']"

definition fragment_end :: fdt_fn where
  "fragment_end = try_all [fdt_end_node, fdt_end_node]"

definition overlay_begin :: "string \<Rightarrow> fdt_fn" where
  "overlay_begin target_path = try_all
     [fdt_begin_node [], fdt_property_string ''compatible'' OVERLAY_COMPATIBLE, fragment_begin 0 target_path]"

definition overlay_end :: fdt_fn where
  "overlay_end = try_all [fragment_end, fdt_end_node]"

definition emit_platform_device_nodes :: "strlist \<Rightarrow> fdt_fn" where
  "emit_platform_device_nodes names = fold_rc (\<lambda>n. try_all
     [fdt_begin_node n, fdt_property_string ''device-type'' ''platform'',
      fdt_property_string ''device-name'' n, fdt_end_node]) (sl_items names)"

definition emit_platform_devices :: "strlist \<Rightarrow> fdt_fn" where
  "emit_platform_devices names = try_all
     [fdt_begin_node ''devices'', emit_platform_device_nodes names, fdt_end_node]"

definition emit_device_add :: "nat \<Rightarrow> string \<Rightarrow> strlist \<Rightarrow> fdt_fn" where
  "emit_device_add fragment target devices = try_all
     [fragment_begin fragment target,
      fdt_begin_node ''device-add'',
      fold_rc (\<lambda>(i, d). try_all
        [fdt_begin_node (node_name (''pci@'' @ dec i)), fdt_property_string ''pci-id'' d, fdt_end_node])
        (enumerate 0 (sl_items devices)),
      fdt_end_node,
      fragment_end]"

text \<open>The node of a PCI function: \<open>:\<close> and \<open>.\<close> become underscores.\<close>

definition pci_node :: "string \<Rightarrow> string" where
  "pci_node i = map (\<lambda>c. if c = CHR '':'' \<or> c = CHR ''.'' then CHR ''_'' else c) (node_name (''pci_'' @ i))"

definition emit_pci_device_nodes :: "bool \<Rightarrow> pci_list \<Rightarrow> fdt_fn" where
  "emit_pci_device_nodes host_tree devices = fold_rc (\<lambda>d. try_all
     ([fdt_begin_node (pci_node (pi_id d)), fdt_property_string ''device-type'' ''pci'',
       fdt_property_string ''pci-id'' (pi_id d), fdt_property_u32 ''vendor-id'' (pi_vendor d),
       fdt_property_u32 ''device-id'' (pi_device d)] @
      (if host_tree then [fdt_property_u32 ''class-code'' (pi_class d)] else []) @
      (if host_tree \<and> pi_iommu d \<noteq> 0 then [fdt_property_u64 ''multikernel,iommu-base'' (pi_iommu d)] else []) @
      [fdt_end_node])) (pl_devs devices)"

definition dt_emit_pci_devices :: "pci_list \<Rightarrow> fdt_fn" where
  "dt_emit_pci_devices devices = try_all
     [fdt_begin_node ''devices'', emit_pci_device_nodes True devices, fdt_end_node]"

section \<open>The host tree\<close>

definition emit_cells :: fdt_fn where
  "emit_cells = try_all [fdt_property_u32 ''#address-cells'' 2, fdt_property_u32 ''#size-cells'' 2]"

definition emit_vmcore :: "alloc \<Rightarrow> vmcore_info \<Rightarrow> fdt_fn" where
  "emit_vmcore ok vi = try_all
     ([fdt_begin_node ''vmcore'', emit_cells] @
      (if vi_has_page_offset vi then [fdt_property_u64 ''page-offset'' (vi_page_offset vi)] else []) @
      (if r_size (vi_vmcoreinfo vi) \<noteq> 0 then
         [fdt_begin_node ''vmcoreinfo'',
          fdtutil_prop_reg (r_base (vi_vmcoreinfo vi)) (r_size (vi_vmcoreinfo vi)), fdt_end_node] else []) @
      (if rl_r (vi_cpu_notes vi) \<noteq> [] then
         [fdt_begin_node ''cpu-notes'', fdtutil_prop_regs ok (vi_cpu_notes vi), fdt_end_node] else []) @
      [fdt_end_node])"

definition host_tree_emit :: "alloc \<Rightarrow> host_tree \<Rightarrow> fdt_fn" where
  "host_tree_emit ok ht st =
     (if cl_ids (ht_cpus ht) = [] \<or> rs_r (ht_ram ht) = [] then (Some (FDT_ERR_OTHER EINVAL), st)
      else try_all
        ([emit_cells, fdtutil_prop_cpulist ok ''cpus'' (ht_cpus ht),
          fold_rc (\<lambda>r. try_all
            [fdt_begin_node (node_name (''memory@'' @ hex (unat (r_base r)))),
             fdt_property_string ''device_type'' ''memory'', fdtutil_prop_reg (r_base r) (r_size r), fdt_end_node])
            (rs_r (ht_ram ht))] @
         (if pl_devs (ht_devices ht) \<noteq> [] then [dt_emit_pci_devices (ht_devices ht)] else []) @
         (if vmcore_info_present (ht_vmcore ht) then [emit_vmcore ok (ht_vmcore ht)] else [])) st)"

section \<open>The builders\<close>

record instance_args =
  ia_name :: string
  ia_cpus :: cpulist
  ia_memory_bytes :: u64
  ia_devices :: "strlist option"
  ia_platform_devices :: "strlist option"
  ia_host_tree :: "host_tree option"

abbreviation has_items :: "strlist option \<Rightarrow> bool" where
  "has_items l \<equiv> (case l of None \<Rightarrow> False | Some l \<Rightarrow> sl_items l \<noteq> [])"

definition build_instance_create :: "alloc \<Rightarrow> instance_args \<Rightarrow> fdt_fn" where
  "build_instance_create ok a = try_all
     ([overlay_begin INSTANCES_PATH,
       fdt_begin_node ''instance-create'',
       fdt_property_string ''instance-name'' (ia_name a),
       fdt_begin_node ''resources'',
       fdtutil_prop_cpulist ok ''cpus'' (ia_cpus a),
       fdt_property_u64 ''memory-bytes'' (ia_memory_bytes a)] @
      (if has_items (ia_platform_devices a) then [emit_platform_devices (the (ia_platform_devices a))] else []) @
      [fdt_end_node] @
      (case ia_host_tree a of None \<Rightarrow> []
       | Some ht \<Rightarrow> [fdt_begin_node ''chosen'', fdt_begin_node ''multikernel,host-tree'', host_tree_emit ok ht,
                     fdt_end_node, fdt_end_node]) @
      [fdt_end_node, fragment_end] @
      (if has_items (ia_devices a)
       then [emit_device_add 1 (instance_target (ia_name a)) (the (ia_devices a))] else []) @
      [fdt_end_node])"

definition dt_build_instance_create :: "alloc \<Rightarrow> instance_args \<Rightarrow> string res" where
  "dt_build_instance_create ok a =
     (if cl_ids (ia_cpus a) = [] \<or> ia_memory_bytes a = 0 then Inl EINVAL
      else fdtutil_build ok (build_instance_create ok a))"

definition build_instance_remove :: "string \<Rightarrow> fdt_fn" where
  "build_instance_remove name = try_all
     [overlay_begin INSTANCES_PATH, fdt_begin_node ''instance-remove'',
      fdt_property_string ''instance-name'' name, fdt_end_node, overlay_end]"

definition dt_build_instance_remove :: "alloc \<Rightarrow> string \<Rightarrow> string res" where
  "dt_build_instance_remove ok name = fdtutil_build ok (build_instance_remove name)"

definition emit_cpu_add :: "cpulist \<Rightarrow> fdt_fn" where
  "emit_cpu_add cpus = try_all
     [fdt_begin_node ''cpu-add'',
      fold_rc (\<lambda>i. try_all [fdt_begin_node (node_name (''cpu@'' @ dec (unat i))), fdt_property_u64 ''reg'' i, fdt_end_node])
        (cl_ids cpus),
      fdt_end_node]"

definition DT_MEM_NORMAL :: u32 where
  "DT_MEM_NORMAL = 1"

definition emit_memory_add :: "rangeset \<Rightarrow> fdt_fn" where
  "emit_memory_add memory = try_all
     [fdt_begin_node ''memory-add'',
      fold_rc (\<lambda>(i, r). try_all
        [fdt_begin_node (node_name (''memory@'' @ dec i)), fdtutil_prop_reg (r_base r) (r_size r),
         fdt_property_u32 ''mem-type'' DT_MEM_NORMAL, fdt_end_node])
        (enumerate 0 (rs_r memory)),
      fdt_end_node]"

definition build_adopt :: "string \<Rightarrow> cpulist \<Rightarrow> rangeset \<Rightarrow> fdt_fn" where
  "build_adopt name cpus memory = try_all
     ([overlay_begin (instance_target name)] @
      (if cl_ids cpus \<noteq> [] then [emit_cpu_add cpus] else []) @
      (if rs_r memory \<noteq> [] then [emit_memory_add memory] else []) @
      [overlay_end])"

definition dt_build_adopt :: "alloc \<Rightarrow> string \<Rightarrow> cpulist \<Rightarrow> rangeset \<Rightarrow> string res" where
  "dt_build_adopt ok name cpus memory =
     (if cl_ids cpus = [] \<and> rs_r memory = [] then Inl EINVAL
      else fdtutil_build ok (build_adopt name cpus memory))"

definition build_adopt_device :: "string \<Rightarrow> string \<Rightarrow> fdt_fn" where
  "build_adopt_device name pci_id = try_all
     [fdt_begin_node [], fdt_property_string ''compatible'' OVERLAY_COMPATIBLE,
      emit_device_add 0 (instance_target name) \<lparr>sl_items = [pci_id]\<rparr>, fdt_end_node]"

definition dt_build_adopt_device :: "alloc \<Rightarrow> string \<Rightarrow> string \<Rightarrow> string res" where
  "dt_build_adopt_device ok name pci_id = fdtutil_build ok (build_adopt_device name pci_id)"

definition build_iommu_add :: "string \<Rightarrow> u64 \<Rightarrow> fdt_fn" where
  "build_iommu_add name base = try_all
     [overlay_begin (instance_target name), fdt_begin_node ''iommu-add'', fdt_begin_node ''dmar@0'',
      fdt_property_u64 ''reg'' base, fdt_end_node, fdt_end_node, overlay_end]"

definition dt_build_iommu_add :: "alloc \<Rightarrow> string \<Rightarrow> u64 \<Rightarrow> string res" where
  "dt_build_iommu_add ok name base = fdtutil_build ok (build_iommu_add name base)"

record pool_args =
  pa_cpus :: cpulist
  pa_memory_bytes :: u64
  pa_claim :: "range option"
  pa_devices :: "pci_list option"
  pa_platform_devices :: "strlist option"

definition build_pool_baseline :: "alloc \<Rightarrow> pool_args \<Rightarrow> fdt_fn" where
  "build_pool_baseline ok a =
     (let bytes = pa_memory_bytes a;
          grow = (case pa_claim a of None \<Rightarrow> bytes
                  | Some c \<Rightarrow> if bytes > r_size c then bytes - r_size c else 0);
          has_devs = (case pa_devices a of None \<Rightarrow> False | Some l \<Rightarrow> pl_devs l \<noteq> [])
      in try_all
        ([fdt_begin_node [], fdt_begin_node ''resources'', fdtutil_prop_cpulist ok ''cpus'' (pa_cpus a)] @
         (case pa_claim a of None \<Rightarrow> []
          | Some c \<Rightarrow> [fdt_begin_node ''memory@0'', fdt_property_string ''device_type'' ''memory'',
                       fdtutil_prop_reg (r_base c) (r_size c), fdt_end_node]) @
         (if grow \<noteq> 0 then
            [fdt_begin_node (if pa_claim a \<noteq> None then ''memory@1'' else ''memory@0''),
             fdt_property_string ''device_type'' ''memory'', fdt_property_u64 ''size'' grow, fdt_end_node] else []) @
         (if has_devs \<or> has_items (pa_platform_devices a) then
            [fdt_begin_node ''devices''] @
            (case pa_devices a of None \<Rightarrow> [] | Some l \<Rightarrow> [emit_pci_device_nodes False l]) @
            (case pa_platform_devices a of None \<Rightarrow> [] | Some l \<Rightarrow> [emit_platform_device_nodes l]) @
            [fdt_end_node] else []) @
         [fdt_end_node, fdt_end_node]))"

definition dt_build_pool_baseline :: "alloc \<Rightarrow> pool_args \<Rightarrow> string res" where
  "dt_build_pool_baseline ok a =
     (if cl_ids (pa_cpus a) = [] \<or> pa_memory_bytes a = 0 \<or>
         (case pa_claim a of None \<Rightarrow> False | Some c \<Rightarrow> r_size c = 0) then Inl EINVAL
      else fdtutil_build ok (build_pool_baseline ok a))"

definition build_pool_device_add :: "strlist \<Rightarrow> fdt_fn" where
  "build_pool_device_add devices = try_all
     [fdt_begin_node [], fdt_property_string ''compatible'' OVERLAY_COMPATIBLE,
      emit_device_add 0 POOL_PATH devices, fdt_end_node]"

definition dt_build_pool_device_add :: "alloc \<Rightarrow> strlist \<Rightarrow> string res" where
  "dt_build_pool_device_add ok devices =
     (if sl_items devices = [] then Inl EINVAL else fdtutil_build ok (build_pool_device_add devices))"

definition build_foreign_baseline :: "alloc \<Rightarrow> takeable \<Rightarrow> fdt_fn" where
  "build_foreign_baseline ok t = try_all
     [fdt_begin_node [], fdt_begin_node ''resources'', fdtutil_prop_cpulist ok ''cpus'' (ta_cpus t),
      fold_rc (\<lambda>(i, r). try_all
        [fdt_begin_node (node_name (''memory@'' @ dec i)), fdt_property_string ''device_type'' ''memory'',
         fdtutil_prop_reg (r_base r) (r_size r), fdt_end_node])
        (enumerate 0 (rs_r (ta_memory t))),
      fdt_end_node, fdt_end_node]"

definition dt_build_foreign_baseline :: "alloc \<Rightarrow> takeable \<Rightarrow> string res" where
  "dt_build_foreign_baseline ok t =
     (if cl_ids (ta_cpus t) = [] \<or> rs_r (ta_memory t) = [] then Inl EINVAL
      else fdtutil_build ok (build_foreign_baseline ok t))"

section \<open>What a builder emits\<close>

text \<open>A builder that emits a fixed sequence of calls.\<close>

definition emits :: "fdt_fn \<Rightarrow> fdt_call list \<Rightarrow> bool" where
  "emits f cs = (\<forall>st. f st = fold_rc fdt_emit cs st)"

named_theorems emit_rules \<open>what the writer calls and their sequences emit\<close>

lemma fold_rc_single: "fold_rc f [x] s = f x s"
  by (cases "f x s") (auto split: option.split)

lemma emits_begin [emit_rules]: "emits (fdt_begin_node n) [Begin_node n]"
  by (simp add: emits_def fold_rc_single fdt_emit_def del: fold_rc.simps)

lemma emits_end [emit_rules]: "emits fdt_end_node [End_node]"
  by (simp add: emits_def fold_rc_single fdt_emit_def del: fold_rc.simps)

lemma emits_property: "emits (fdt_property n v) [Property n v]"
  by (simp add: emits_def fold_rc_single fdt_emit_def del: fold_rc.simps)

lemma emits_property_kinds [emit_rules]:
  "emits (fdt_property_string n s) [Property n (s @ [CHR 0x00])]"
  "emits (fdt_property_u32 n v32) [Property n (be32 v32)]"
  "emits (fdt_property_u64 n v64) [Property n (be64 v64)]"
  "emits (fdtutil_prop_reg b z) [Property ''reg'' (be64 b @ be64 z)]"
  using emits_property
  by (auto simp: emits_def fdt_property_string_def fdt_property_u32_def fdt_property_u64_def fdtutil_prop_reg_def)

lemma emits_cpulist [emit_rules]:
  "\<forall>n. ok n \<Longrightarrow> emits (fdtutil_prop_cpulist ok n l) [Property n (enc_cells64 (cl_ids l))]"
  using emits_property by (auto simp: emits_def fdtutil_prop_cpulist_def)

lemma emits_regs [emit_rules]:
  "\<forall>n. ok n \<Longrightarrow> emits (fdtutil_prop_regs ok l)
     [Property ''reg'' (enc_cells64 (concat (map (\<lambda>r. [r_base r, r_size r]) (rl_r l))))]"
  using emits_property by (auto simp: emits_def fdtutil_prop_regs_def)

lemma emits_try_Nil [emit_rules]: "emits (try_all []) []"
  by (simp add: emits_def)

lemma emits_try_Cons [emit_rules]:
  "emits f cs \<Longrightarrow> emits (try_all fs) ds \<Longrightarrow> emits (try_all (f # fs)) (cs @ ds)"
  by (simp add: emits_def fold_rc_append split: prod.split option.split)

lemma emits_try_append [emit_rules]:
  "emits (try_all fs) cs \<Longrightarrow> emits (try_all gs) ds \<Longrightarrow> emits (try_all (fs @ gs)) (cs @ ds)"
  by (simp add: emits_def fold_rc_append split: prod.split option.split)

lemma emits_loop [emit_rules]:
  "(\<And>x. emits (f x) (g x)) \<Longrightarrow> emits (fold_rc f xs) (concat (map g xs))"
proof (induction xs)
  case (Cons x xs)
  then show ?case by (simp add: emits_def fold_rc_append split: prod.split option.split)
qed (simp add: emits_def)

lemma emits_loop2 [emit_rules]:
  "(\<And>i x. emits (f i x) (g i x)) \<Longrightarrow> emits (fold_rc (\<lambda>(i, x). f i x) xs) (concat (map (\<lambda>(i, x). g i x) xs))"
  using emits_loop [of "\<lambda>(i, x). f i x" "\<lambda>(i, x). g i x" xs] by (simp add: split_def)

lemma emits_if [emit_rules]:
  "(b \<Longrightarrow> emits (try_all fs) cs) \<Longrightarrow> emits (try_all (if b then fs else [])) (if b then cs else [])"
  by (simp add: emits_def)

lemma emits_eq: "emits f cs \<Longrightarrow> cs = ds \<Longrightarrow> emits f ds"
  by simp

text \<open>Trees: a name, properties, subnodes; their flattening is how libfdt is called.\<close>

datatype dtnode = Node string "(string \<times> string) list" "dtnode list"

fun flatten :: "dtnode \<Rightarrow> fdt_call list" where
  "flatten (Node n ps cs) = [Begin_node n] @ map (\<lambda>(k, v). Property k v) ps @ concat (map flatten cs) @ [End_node]"

definition dt_string :: "string \<Rightarrow> string" where
  "dt_string s = s @ [CHR 0x00]"

definition overlay_tree :: "(nat \<times> string \<times> dtnode list) list \<Rightarrow> dtnode" where
  "overlay_tree frags = Node [] [(''compatible'', dt_string OVERLAY_COMPATIBLE)]
     (map (\<lambda>(i, target, body). Node (node_name (''fragment@'' @ dec i)) [(''target-path'', dt_string target)]
        [Node ''__overlay__'' [] body]) frags)"

definition cpu_add_node :: "u64 list \<Rightarrow> dtnode" where
  "cpu_add_node ids = Node ''cpu-add'' [] (map (\<lambda>i. Node (node_name (''cpu@'' @ dec (unat i))) [(''reg'', be64 i)] []) ids)"

definition memory_add_node :: "range list \<Rightarrow> dtnode" where
  "memory_add_node rs = Node ''memory-add'' [] (map (\<lambda>(i, r). Node (node_name (''memory@'' @ dec i))
     [(''reg'', be64 (r_base r) @ be64 (r_size r)), (''mem-type'', be32 DT_MEM_NORMAL)] []) (enumerate 0 rs))"

definition device_add_node :: "string list \<Rightarrow> dtnode" where
  "device_add_node ids = Node ''device-add'' [] (map (\<lambda>(i, d). Node (node_name (''pci@'' @ dec i))
     [(''pci-id'', dt_string d)] []) (enumerate 0 ids))"

definition adopt_tree :: "string \<Rightarrow> cpulist \<Rightarrow> rangeset \<Rightarrow> dtnode" where
  "adopt_tree name cpus memory = overlay_tree [(0, instance_target name,
     (if cl_ids cpus \<noteq> [] then [cpu_add_node (cl_ids cpus)] else []) @
     (if rs_r memory \<noteq> [] then [memory_add_node (rs_r memory)] else []))]"

definition adopt_device_tree :: "string \<Rightarrow> string \<Rightarrow> dtnode" where
  "adopt_device_tree name d = overlay_tree [(0, instance_target name, [device_add_node [d]])]"

definition iommu_tree :: "string \<Rightarrow> u64 \<Rightarrow> dtnode" where
  "iommu_tree name base = overlay_tree [(0, instance_target name,
     [Node ''iommu-add'' [] [Node ''dmar@0'' [(''reg'', be64 base)] []]])]"

definition instance_remove_tree :: "string \<Rightarrow> dtnode" where
  "instance_remove_tree name = overlay_tree [(0, INSTANCES_PATH,
     [Node ''instance-remove'' [(''instance-name'', dt_string name)] []])]"

lemma build_adopt_emits: "emits (build_adopt name cpus memory) (flatten (adopt_tree name cpus memory))"
  unfolding build_adopt_def overlay_begin_def fragment_begin_def overlay_end_def fragment_end_def
    emit_cpu_add_def emit_memory_add_def
  by (rule emits_eq, (rule emit_rules | assumption)+)
    (auto simp: adopt_tree_def overlay_tree_def cpu_add_node_def memory_add_node_def dt_string_def comp_def split_def)

lemma build_adopt_device_emits: "emits (build_adopt_device name d) (flatten (adopt_device_tree name d))"
  unfolding build_adopt_device_def fragment_begin_def fragment_end_def emit_device_add_def
  by (rule emits_eq, (rule emit_rules | assumption)+)
    (simp add: adopt_device_tree_def overlay_tree_def device_add_node_def dt_string_def)

lemma build_iommu_add_emits: "emits (build_iommu_add name base) (flatten (iommu_tree name base))"
  unfolding build_iommu_add_def overlay_begin_def fragment_begin_def overlay_end_def fragment_end_def
  by (rule emits_eq, (rule emit_rules | assumption)+) (simp add: iommu_tree_def overlay_tree_def dt_string_def)

lemma build_instance_remove_emits: "emits (build_instance_remove name) (flatten (instance_remove_tree name))"
  unfolding build_instance_remove_def overlay_begin_def fragment_begin_def overlay_end_def fragment_end_def
  by (rule emits_eq, (rule emit_rules | assumption)+)
    (simp add: instance_remove_tree_def overlay_tree_def dt_string_def)

text \<open>The host tree as the header of host_tree.h draws it.\<close>

definition cells_props :: "(string \<times> string) list" where
  "cells_props = [(''#address-cells'', be32 2), (''#size-cells'', be32 2)]"

definition pci_device_node :: "bool \<Rightarrow> pci_ids \<Rightarrow> dtnode" where
  "pci_device_node host_tree d = Node (pci_node (pi_id d))
     ([(''device-type'', dt_string ''pci''), (''pci-id'', dt_string (pi_id d)),
       (''vendor-id'', be32 (pi_vendor d)), (''device-id'', be32 (pi_device d))] @
      (if host_tree then [(''class-code'', be32 (pi_class d))] else []) @
      (if host_tree \<and> pi_iommu d \<noteq> 0 then [(''multikernel,iommu-base'', be64 (pi_iommu d))] else [])) []"

definition vmcore_node :: "vmcore_info \<Rightarrow> dtnode" where
  "vmcore_node vi = Node ''vmcore''
     (cells_props @ (if vi_has_page_offset vi then [(''page-offset'', be64 (vi_page_offset vi))] else []))
     ((if r_size (vi_vmcoreinfo vi) \<noteq> 0 then
         [Node ''vmcoreinfo'' [(''reg'', be64 (r_base (vi_vmcoreinfo vi)) @ be64 (r_size (vi_vmcoreinfo vi)))] []] else []) @
      (if rl_r (vi_cpu_notes vi) \<noteq> [] then
         [Node ''cpu-notes'' [(''reg'', enc_cells64 (concat (map (\<lambda>r. [r_base r, r_size r]) (rl_r (vi_cpu_notes vi)))))] []] else []))"

definition ram_node :: "range \<Rightarrow> dtnode" where
  "ram_node r = Node (node_name (''memory@'' @ hex (unat (r_base r))))
     [(''device_type'', dt_string ''memory''), (''reg'', be64 (r_base r) @ be64 (r_size r))] []"

definition host_tree_props :: "host_tree \<Rightarrow> (string \<times> string) list" where
  "host_tree_props ht = cells_props @ [(''cpus'', enc_cells64 (cl_ids (ht_cpus ht)))]"

definition host_tree_nodes :: "host_tree \<Rightarrow> dtnode list" where
  "host_tree_nodes ht =
     map ram_node (rs_r (ht_ram ht)) @
     (if pl_devs (ht_devices ht) \<noteq> [] then
        [Node ''devices'' [] (map (pci_device_node True) (pl_devs (ht_devices ht)))] else []) @
     (if vmcore_info_present (ht_vmcore ht) then [vmcore_node (ht_vmcore ht)] else [])"

lemma emit_pci_device_nodes_emits [emit_rules]:
  "emits (emit_pci_device_nodes b l) (concat (map (flatten \<circ> pci_device_node b) (pl_devs l)))"
  unfolding emit_pci_device_nodes_def
  by (rule emits_eq, (rule emit_rules | assumption)+)
    (auto simp: pci_device_node_def dt_string_def comp_def intro!: arg_cong [of _ _ concat] map_cong)

lemma dt_emit_pci_devices_emits [emit_rules]:
  "emits (dt_emit_pci_devices l) (flatten (Node ''devices'' [] (map (pci_device_node True) (pl_devs l))))"
  unfolding dt_emit_pci_devices_def
  by (rule emits_eq, (rule emit_rules | assumption)+) simp

lemma emit_vmcore_emits [emit_rules]: "\<forall>n. ok n \<Longrightarrow> emits (emit_vmcore ok vi) (flatten (vmcore_node vi))"
  unfolding emit_vmcore_def emit_cells_def
  by (rule emits_eq, (rule emit_rules | assumption)+)
    (auto simp: vmcore_node_def cells_props_def)

lemma host_tree_emit_emits:
  assumes "\<forall>n. ok n" and "cl_ids (ht_cpus ht) \<noteq> []" and "rs_r (ht_ram ht) \<noteq> []"
  shows "emits (host_tree_emit ok ht)
    (map (\<lambda>(k, v). Property k v) (host_tree_props ht) @ concat (map flatten (host_tree_nodes ht)))"
proof -
  have unf: "host_tree_emit ok ht = try_all
        ([emit_cells, fdtutil_prop_cpulist ok ''cpus'' (ht_cpus ht),
          fold_rc (\<lambda>r. try_all
            [fdt_begin_node (node_name (''memory@'' @ hex (unat (r_base r)))),
             fdt_property_string ''device_type'' ''memory'', fdtutil_prop_reg (r_base r) (r_size r), fdt_end_node])
            (rs_r (ht_ram ht))] @
         (if pl_devs (ht_devices ht) \<noteq> [] then [dt_emit_pci_devices (ht_devices ht)] else []) @
         (if vmcore_info_present (ht_vmcore ht) then [emit_vmcore ok (ht_vmcore ht)] else []))"
    using assms(2,3) by (intro ext) (simp add: host_tree_emit_def del: fold_rc.simps)
  show ?thesis
    using assms(1) unfolding unf emit_cells_def
    by - (rule emits_eq, (rule emit_rules | assumption)+,
      auto simp: host_tree_props_def host_tree_nodes_def ram_node_def cells_props_def dt_string_def comp_def)
qed

text \<open>The overlay that creates an instance: the instance with its resources and the host tree below it,
  then the fragment that adds its devices.\<close>

definition platform_node :: "string \<Rightarrow> dtnode" where
  "platform_node n = Node n [(''device-type'', dt_string ''platform''), (''device-name'', dt_string n)] []"

definition instance_create_tree :: "instance_args \<Rightarrow> dtnode" where
  "instance_create_tree a = overlay_tree
     ([(0, INSTANCES_PATH, [Node ''instance-create'' [(''instance-name'', dt_string (ia_name a))]
        ([Node ''resources'' [(''cpus'', enc_cells64 (cl_ids (ia_cpus a))), (''memory-bytes'', be64 (ia_memory_bytes a))]
           (if has_items (ia_platform_devices a) then
              [Node ''devices'' [] (map platform_node (sl_items (the (ia_platform_devices a))))] else [])] @
         (case ia_host_tree a of None \<Rightarrow> []
          | Some ht \<Rightarrow> [Node ''chosen'' [] [Node ''multikernel,host-tree'' (host_tree_props ht) (host_tree_nodes ht)]]))])] @
      (if has_items (ia_devices a) then
         [(1, instance_target (ia_name a), [device_add_node (sl_items (the (ia_devices a)))])] else []))"

lemma emits_case_option [emit_rules]:
  "(\<And>x. z = Some x \<Longrightarrow> emits (try_all (f x)) (g x)) \<Longrightarrow>
   emits (try_all (case z of None \<Rightarrow> [] | Some x \<Rightarrow> f x)) (case z of None \<Rightarrow> [] | Some x \<Rightarrow> g x)"
  by (cases z) (simp_all add: emits_def)

lemma build_instance_create_emits:
  assumes "\<forall>n. ok n" and "\<forall>ht. ia_host_tree a = Some ht \<longrightarrow> cl_ids (ht_cpus ht) \<noteq> [] \<and> rs_r (ht_ram ht) \<noteq> []"
  shows "emits (build_instance_create ok a) (flatten (instance_create_tree a))"
proof -
  have ht: "emits (host_tree_emit ok x)
      (map (\<lambda>(k, v). Property k v) (host_tree_props x) @ concat (map flatten (host_tree_nodes x)))"
    if "ia_host_tree a = Some x" for x
    using host_tree_emit_emits [of ok x] assms that by auto
  show ?thesis
    using assms(1)
    unfolding build_instance_create_def overlay_begin_def fragment_begin_def fragment_end_def
      emit_platform_devices_def emit_platform_device_nodes_def emit_device_add_def
    by - (rule emits_eq, (rule emit_rules | rule ht | assumption)+,
      auto simp: instance_create_tree_def overlay_tree_def device_add_node_def platform_node_def dt_string_def comp_def split_def
        split: option.split)
qed

end
