(* ===== verification/Devtree.thy ===== *)
theory Devtree
  imports Dt
begin

text \<open>
  What a successor reads of its own boot tree and of the host tree below
  \<open>/proc/device-tree\<close> (lib/devtree.c, lib/host_tree.c), where the kernel shows
  a node as a directory and a property as a file.
\<close>

section \<open>Cells\<close>

definition fdtutil_cells_to_cpulist :: "alloc \<Rightarrow> string \<Rightarrow> cpulist res" where
  "fdtutil_cells_to_cpulist ok cells =
     (if length cells mod 8 \<noteq> 0 then Inl EINVAL
      else let n = length cells div 8 in
           if n \<noteq> 0 \<and> \<not> ok (n * 8) then Inl ENOMEM else Inr \<lparr>cl_ids = cells64 cells\<rparr>)"

definition fdtutil_cells_to_rangelist :: "alloc \<Rightarrow> string \<Rightarrow> rangelist \<Rightarrow> rc \<times> rangelist" where
  "fdtutil_cells_to_rangelist ok cells out =
     (if length cells mod 16 \<noteq> 0 then (Some EINVAL, out)
      else case fold_rc (\<lambda>i l. rangelist_add ok l (cell64 cells (2 * i)) (cell64 cells (2 * i + 1)))
                  [0 ..< length cells div 16] \<lparr>rl_r = []\<rparr> of
             (None, l) \<Rightarrow> (None, l)
           | (Some e, l) \<Rightarrow> (Some e, rangelist_free l))"

section \<open>This kernel's own tree\<close>

definition HOST_TREE_REL :: string where
  "HOST_TREE_REL = ''chosen/multikernel,host-tree''"

definition RESERVED_PROPERTY :: string where
  "RESERVED_PROPERTY = ''chosen/multikernel,reserved-memory''"

definition IOMMUS_REL :: string where
  "IOMMUS_REL = ''chosen/multikernel,iommus''"

record self_info =
  si_name :: "string option"
  si_id :: u32
  si_own_cpus :: cpulist
  si_reserved :: rangeset

definition self_info_zero :: self_info where
  "self_info_zero = \<lparr>si_name = None, si_id = 0, si_own_cpus = \<lparr>cl_ids = []\<rparr>, si_reserved = RANGESET_INIT\<rparr>"

definition self_info_free :: "self_info \<Rightarrow> self_info" where
  "self_info_free s = self_info_zero"

definition devtree_has_host_tree :: "'w sys \<Rightarrow> 'w \<Rightarrow> string \<Rightarrow> bool" where
  "devtree_has_host_tree sys w root = sys_isdir sys w (mkpath [root, HOST_TREE_REL])"

definition read_cpulist_prop :: "alloc \<Rightarrow> 'w sys \<Rightarrow> 'w \<Rightarrow> string \<Rightarrow> string \<Rightarrow> cpulist res" where
  "read_cpulist_prop ok sys w root rel =
     (case sys_read sys w (mkpath [root, rel]) of
        Inl e \<Rightarrow> Inl e
      | Inr cells \<Rightarrow> fdtutil_cells_to_cpulist ok cells)"

definition read_id_prop :: "'w sys \<Rightarrow> 'w \<Rightarrow> string \<Rightarrow> u32 res" where
  "read_id_prop sys w root =
     (case sys_read sys w (mkpath [root, ''id'']) of
        Inl e \<Rightarrow> Inl e
      | Inr cell \<Rightarrow> if length cell = 4 then Inr (fdt32_to_cpu cell) else Inl EINVAL)"

text \<open>\<open>for (i = 0; !ret && i + 1 < len / 8; i += 2)\<close>.\<close>

definition read_reserved :: "alloc \<Rightarrow> 'w sys \<Rightarrow> 'w \<Rightarrow> string \<Rightarrow> rangeset \<Rightarrow> rc \<times> rangeset" where
  "read_reserved ok sys w root out =
     (case sys_read sys w (mkpath [root, RESERVED_PROPERTY]) of
        Inl e \<Rightarrow> (if e = ENOENT then None else Some e, out)
      | Inr cells \<Rightarrow>
          if length cells mod 16 \<noteq> 0 then (Some EINVAL, out)
          else fold_rc (\<lambda>i s. rangeset_add ok s (cell64 cells (2 * i)) (cell64 cells (2 * i + 1)))
                 [0 ..< length cells div 16] out)"

definition devtree_read_self :: "alloc \<Rightarrow> 'w sys \<Rightarrow> 'w \<Rightarrow> string \<Rightarrow> rc \<times> self_info" where
  "devtree_read_self ok sys w root =
     (let s = self_info_zero;
          (r, s) = (case read_string sys w (mkpath [root, ''model'']) of
                      Inl e \<Rightarrow> (Some e, s) | Inr n \<Rightarrow> (None, s\<lparr>si_name := Some n\<rparr>));
          (r, s) = (if r = None then (case read_id_prop sys w root of
                      Inl e \<Rightarrow> (Some e, s) | Inr i \<Rightarrow> (None, s\<lparr>si_id := i\<rparr>)) else (r, s));
          (r, s) = (if r = None then (case read_cpulist_prop ok sys w root ''resources/cpus'' of
                      Inl e \<Rightarrow> (Some e, s) | Inr c \<Rightarrow> (None, s\<lparr>si_own_cpus := c\<rparr>)) else (r, s));
          (r, s) = (if r = None then (let (r, m) = read_reserved ok sys w root (si_reserved s)
                                      in (r, s\<lparr>si_reserved := m\<rparr>)) else (r, s))
      in (r, if r = None then s else self_info_free s))"

definition iommu_node_filter :: "string \<Rightarrow> bool" where
  "iommu_node_filter d = (take 6 d = ''iommu@'')"

definition devtree_read_iommus :: "alloc \<Rightarrow> 'w sys \<Rightarrow> 'w \<Rightarrow> string \<Rightarrow> rangelist \<Rightarrow> rc \<times> rangelist" where
  "devtree_read_iommus ok sys w root out =
     (let dir = mkpath [root, IOMMUS_REL] in
      case sys_readdir sys w dir of
        Inl e \<Rightarrow> (if e = ENOENT then None else Some e, out)
      | Inr names \<Rightarrow>
          (case fold_rc (\<lambda>n l. case sys_read sys w (join ''/'' [dir, n, ''reg'']) of
                  Inl e \<Rightarrow> (Some e, l)
                | Inr reg \<Rightarrow> if length reg = 16 then rangelist_add ok l (cell64 reg 0) (cell64 reg 1)
                             else (Some EINVAL, l)) (alphasort iommu_node_filter names) out of
             (None, l) \<Rightarrow> (None, l)
           | (Some e, l) \<Rightarrow> (Some e, rangelist_free l)))"

section \<open>CPUs of a firmware tree\<close>

definition read_be_cells :: "'w sys \<Rightarrow> 'w \<Rightarrow> string \<Rightarrow> u64 \<Rightarrow> u64 res" where
  "read_be_cells sys w path cells =
     (case sys_read sys w path of
        Inl e \<Rightarrow> Inl e
      | Inr buf \<Rightarrow>
          let cells = take_bit 32 cells in
          if cells = 0 \<or> cells > 2 \<or> length buf \<noteq> unat cells * 4 then Inl EINVAL
          else Inr (of_nat (be_val buf)))"

definition is_cpu_node :: "'w sys \<Rightarrow> 'w \<Rightarrow> string \<Rightarrow> string \<Rightarrow> bool" where
  "is_cpu_node sys w cpus_dir name =
     (case sys_read sys w (mkpath [cpus_dir, name, ''device_type'']) of
        Inl e \<Rightarrow> False | Inr t \<Rightarrow> t = ''cpu'' @ [CHR 0x00])"

definition devtree_cpu :: "alloc \<Rightarrow> 'w sys \<Rightarrow> 'w \<Rightarrow> string \<Rightarrow> u64 \<Rightarrow> string \<Rightarrow> cpulist \<times> nat \<Rightarrow> rc \<times> cpulist \<times> nat" where
  "devtree_cpu ok sys w cpus_dir cells name st =
     (if name \<noteq> [] \<and> hd name = CHR ''.'' then (None, st)
      else if \<not> is_cpu_node sys w cpus_dir name then (None, st)
      else case read_be_cells sys w (mkpath [cpus_dir, name, ''reg'']) cells of
             Inl e \<Rightarrow> (Some e, st)
           | Inr i \<Rightarrow> cpulist_push ok i st)"

definition devtree_read_cpus :: "alloc \<Rightarrow> 'w sys \<Rightarrow> 'w \<Rightarrow> string \<Rightarrow> rc \<times> cpulist" where
  "devtree_read_cpus ok sys w cpus_dir =
     (case read_be_cells sys w (mkpath [cpus_dir, ''#address-cells'']) 1 of
        Inl e \<Rightarrow> (Some e, cpulist_empty)
      | Inr cells \<Rightarrow>
          (case sys_readdir sys w cpus_dir of
             Inl e \<Rightarrow> (Some e, cpulist_empty)
           | Inr names \<Rightarrow>
               let (r, l, cap) = fold_rc (devtree_cpu ok sys w cpus_dir cells) names (cpulist_empty, 0);
                   r = (if r = None \<and> cl_ids l = [] then Some ENOENT else r)
               in (r, if r \<noteq> None then cpulist_free l else cpulist_normalize l)))"

section \<open>The host tree\<close>

definition read_reg_file :: "alloc \<Rightarrow> 'w sys \<Rightarrow> 'w \<Rightarrow> string \<Rightarrow> string \<Rightarrow> rangeset \<Rightarrow> rc \<times> rangeset" where
  "read_reg_file ok sys w dir node ram =
     (case sys_read sys w (mkpath [dir, node, ''reg'']) of
        Inl e \<Rightarrow> (Some e, ram)
      | Inr cells \<Rightarrow> if length cells = 16 then rangeset_add ok ram (cell64 cells 0) (cell64 cells 1)
                     else (Some EINVAL, ram))"

definition memory_node_filter :: "string \<Rightarrow> bool" where
  "memory_node_filter d = (take 7 d = ''memory@'')"

text \<open>\<open>None\<close>: the file is absent, which is no error.\<close>

definition read_optional :: "'w sys \<Rightarrow> 'w \<Rightarrow> string \<Rightarrow> string \<Rightarrow> string option res" where
  "read_optional sys w dir rel =
     (case sys_read sys w (mkpath [dir, rel]) of
        Inl e \<Rightarrow> if e = ENOENT then Inr None else Inl e
      | Inr buf \<Rightarrow> Inr (Some buf))"

definition read_vmcore :: "alloc \<Rightarrow> 'w sys \<Rightarrow> 'w \<Rightarrow> string \<Rightarrow> vmcore_info \<Rightarrow> rc \<times> vmcore_info" where
  "read_vmcore ok sys w dir vi = try_all
     [\<lambda>vi. (case read_optional sys w dir ''vmcore/page-offset'' of
         Inl e \<Rightarrow> (Some e, vi)
       | Inr None \<Rightarrow> (None, vi)
       | Inr (Some buf) \<Rightarrow>
           if length buf \<noteq> 8 then (Some EINVAL, vi)
           else (None, vi\<lparr>vi_page_offset := fdt64_to_cpu buf, vi_has_page_offset := True\<rparr>)),
      \<lambda>vi. (case read_optional sys w dir ''vmcore/vmcoreinfo/reg'' of
         Inl e \<Rightarrow> (Some e, vi)
       | Inr None \<Rightarrow> (None, vi)
       | Inr (Some cells) \<Rightarrow>
           if length cells \<noteq> 16 then (Some EINVAL, vi)
           else (None, vi\<lparr>vi_vmcoreinfo := \<lparr>r_base = cell64 cells 0, r_size = cell64 cells 1\<rparr>\<rparr>)),
      \<lambda>vi. (case read_optional sys w dir ''vmcore/cpu-notes/reg'' of
         Inl e \<Rightarrow> (Some e, vi)
       | Inr None \<Rightarrow> (None, vi)
       | Inr (Some cells) \<Rightarrow> let (r, l) = fdtutil_cells_to_rangelist ok cells (vi_cpu_notes vi) in (r, vi\<lparr>vi_cpu_notes := l\<rparr>))] vi"

definition read_device_u32 :: "'w sys \<Rightarrow> 'w \<Rightarrow> string \<Rightarrow> string \<Rightarrow> string \<Rightarrow> u32 \<Rightarrow> rc \<times> u32" where
  "read_device_u32 sys w dir node prop v =
     (let rel = snd (snprintf (255 + 32) (''devices/'' @ node @ ''/'' @ prop)) in
      case read_optional sys w dir rel of
        Inl e \<Rightarrow> (Some e, v)
      | Inr None \<Rightarrow> (None, v)
      | Inr (Some cell) \<Rightarrow> if length cell = 4 then (None, fdt32_to_cpu cell) else (Some EINVAL, v))"

definition read_pci_device :: "'w sys \<Rightarrow> 'w \<Rightarrow> string \<Rightarrow> string \<Rightarrow> rc \<times> pci_ids" where
  "read_pci_device sys w dir node =
     (case sys_read sys w (mkpath [dir, ''devices'', node, ''pci-id'']) of
        Inl e \<Rightarrow> (Some e, pci_zero)
      | Inr i \<Rightarrow>
          if \<not> (i \<noteq> [] \<and> length i \<le> 16 \<and> last i = CHR 0x00) then (Some EINVAL, pci_zero)
          else try_all
            [\<lambda>d. (let (r, v) = read_device_u32 sys w dir node ''vendor-id'' (pi_vendor d) in (r, d\<lparr>pi_vendor := v\<rparr>)),
             \<lambda>d. (let (r, v) = read_device_u32 sys w dir node ''device-id'' (pi_device d) in (r, d\<lparr>pi_device := v\<rparr>)),
             \<lambda>d. (let (r, v) = read_device_u32 sys w dir node ''class-code'' (pi_class d) in (r, d\<lparr>pi_class := v\<rparr>))]
            (pci_zero\<lparr>pi_id := cstr i\<rparr>))"

definition pci_node_filter :: "string \<Rightarrow> bool" where
  "pci_node_filter d = (take 4 d = ''pci_'')"

definition read_devices :: "alloc \<Rightarrow> 'w sys \<Rightarrow> 'w \<Rightarrow> string \<Rightarrow> pci_list \<Rightarrow> rc \<times> pci_list" where
  "read_devices ok sys w dir out =
     (case sys_readdir sys w (mkpath [dir, ''devices'']) of
        Inl e \<Rightarrow> (if e = ENOENT then None else Some e, out)
      | Inr names \<Rightarrow>
          let names = alphasort pci_node_filter names in
          if \<not> ok ((length names + 1) * 40) then (Some ENOMEM, out)
          else fold_rc (\<lambda>n l. let (r, d) = read_pci_device sys w dir n
                              in (r, if r = None then l\<lparr>pl_devs := pl_devs l @ [d]\<rparr> else l)) names out)"

definition host_tree_read :: "alloc \<Rightarrow> 'w sys \<Rightarrow> 'w \<Rightarrow> string \<Rightarrow> rc \<times> host_tree" where
  "host_tree_read ok sys w dir =
     (case try_all
        [\<lambda>ht. (case sys_read sys w (mkpath [dir, ''cpus'']) of
             Inl e \<Rightarrow> (Some e, ht)
           | Inr cells \<Rightarrow> (case fdtutil_cells_to_cpulist ok cells of
               Inl e \<Rightarrow> (Some e, ht) | Inr c \<Rightarrow> (None, ht\<lparr>ht_cpus := c\<rparr>))),
         \<lambda>ht. (case sys_readdir sys w dir of
             Inl e \<Rightarrow> (Some e, ht)
           | Inr names \<Rightarrow> (let (r, m) = fold_rc (read_reg_file ok sys w dir) (alphasort memory_node_filter names) (ht_ram ht)
                          in (r, ht\<lparr>ht_ram := m\<rparr>))),
         \<lambda>ht. (let (r, l) = read_devices ok sys w dir (ht_devices ht) in (r, ht\<lparr>ht_devices := l\<rparr>)),
         \<lambda>ht. (let (r, vi) = read_vmcore ok sys w dir (ht_vmcore ht) in (r, ht\<lparr>ht_vmcore := vi\<rparr>))]
        host_tree_zero of
       (None, ht) \<Rightarrow> (None, ht)
     | (Some e, ht) \<Rightarrow> (Some e, host_tree_free ht))"

end
