(* ===== verification/Fdt_Reader.thy ===== *)
theory Fdt_Reader
  imports Fdt_Writer
begin

text \<open>
  The reader of libfdt (lib/fdt/fdt.c, lib/fdt/fdt_ro.c, compiled with no
  assumptions) on the bytes of a blob.  Offsets and error codes are C ints, a
  header field is the value of its four bytes, a pointer into the blob is a
  position in it, and additions wrap where the source's do.  The buffer is
  taken to be aligned, as the allocator makes it.
\<close>

section \<open>The header\<close>

definition fdt32_ld :: "string \<Rightarrow> nat \<Rightarrow> int" where
  "fdt32_ld fdt p = int (be_val (take 4 (drop p fdt)))"

abbreviation fdt_magic :: "string \<Rightarrow> int" where "fdt_magic fdt \<equiv> fdt32_ld fdt 0"
abbreviation fdt_totalsize :: "string \<Rightarrow> int" where "fdt_totalsize fdt \<equiv> fdt32_ld fdt 4"
abbreviation fdt_off_dt_struct :: "string \<Rightarrow> int" where "fdt_off_dt_struct fdt \<equiv> fdt32_ld fdt 8"
abbreviation fdt_off_dt_strings :: "string \<Rightarrow> int" where "fdt_off_dt_strings fdt \<equiv> fdt32_ld fdt 12"
abbreviation fdt_off_mem_rsvmap :: "string \<Rightarrow> int" where "fdt_off_mem_rsvmap fdt \<equiv> fdt32_ld fdt 16"
abbreviation fdt_version :: "string \<Rightarrow> int" where "fdt_version fdt \<equiv> fdt32_ld fdt 20"
abbreviation fdt_last_comp_version :: "string \<Rightarrow> int" where "fdt_last_comp_version fdt \<equiv> fdt32_ld fdt 24"
abbreviation fdt_size_dt_strings :: "string \<Rightarrow> int" where "fdt_size_dt_strings fdt \<equiv> fdt32_ld fdt 32"
abbreviation fdt_size_dt_struct :: "string \<Rightarrow> int" where "fdt_size_dt_struct fdt \<equiv> fdt32_ld fdt 36"

abbreviation u32_wrap :: "int \<Rightarrow> int" where
  "u32_wrap i \<equiv> i mod 2 ^ 32"

definition FDT_MAGIC :: int where "FDT_MAGIC = 0xd00dfeed"
definition FDT_SW_MAGIC :: int where "FDT_SW_MAGIC = 0x2ff20112"

abbreviation (input) NOTFOUND :: int where "NOTFOUND \<equiv> - 1"
abbreviation (input) BADOFFSET :: int where "BADOFFSET \<equiv> - 4"
abbreviation (input) BADPATH :: int where "BADPATH \<equiv> - 5"
abbreviation (input) BADSTATE :: int where "BADSTATE \<equiv> - 7"
abbreviation (input) TRUNCATED :: int where "TRUNCATED \<equiv> - 8"
abbreviation (input) BADMAGIC :: int where "BADMAGIC \<equiv> - 9"
abbreviation (input) BADVERSION :: int where "BADVERSION \<equiv> - 10"
abbreviation (input) BADSTRUCTURE :: int where "BADSTRUCTURE \<equiv> - 11"
abbreviation (input) INTERNAL :: int where "INTERNAL \<equiv> - 13"

definition fdt_ro_probe :: "string \<Rightarrow> int" where
  "fdt_ro_probe fdt =
     (let totalsize = fdt_totalsize fdt;
          last = (if totalsize < 2 ^ 31 - 1 then totalsize else TRUNCATED)
      in if fdt_magic fdt = FDT_MAGIC then
           if fdt_version fdt < 2 then BADVERSION
           else if fdt_last_comp_version fdt > 17 then BADVERSION
           else last
         else if fdt_magic fdt = FDT_SW_MAGIC then
           if fdt_size_dt_struct fdt = 0 then BADSTATE else last
         else BADMAGIC)"

definition check_off :: "int \<Rightarrow> int \<Rightarrow> int \<Rightarrow> bool" where
  "check_off hdrsize totalsize off = (off \<ge> hdrsize \<and> off \<le> totalsize)"

definition check_block :: "int \<Rightarrow> int \<Rightarrow> int \<Rightarrow> int \<Rightarrow> bool" where
  "check_block hdrsize totalsize base sz =
     (check_off hdrsize totalsize base \<and> \<not> u32_wrap (base + sz) < base \<and>
      check_off hdrsize totalsize (u32_wrap (base + sz)))"

definition fdt_header_size :: "int \<Rightarrow> int" where
  "fdt_header_size version =
     (if version \<le> 1 then 28 else if version \<le> 2 then 32 else if version \<le> 3 then 36
      else if version \<le> 16 then 36 else 40)"

definition fdt_check_header :: "string \<Rightarrow> int" where
  "fdt_check_header fdt =
     (let hdrsize = fdt_header_size (fdt_version fdt); total = fdt_totalsize fdt in
      if fdt_magic fdt \<noteq> FDT_MAGIC then BADMAGIC
      else if fdt_version fdt < 2 \<or> fdt_last_comp_version fdt > 17 then BADVERSION
      else if fdt_version fdt < fdt_last_comp_version fdt then BADVERSION
      else if total < hdrsize \<or> total > 2 ^ 31 - 1 then TRUNCATED
      else if \<not> check_off hdrsize total (fdt_off_mem_rsvmap fdt) then TRUNCATED
      else if fdt_version fdt < 17 \<and> \<not> check_off hdrsize total (fdt_off_dt_struct fdt) then TRUNCATED
      else if \<not> fdt_version fdt < 17 \<and>
              \<not> check_block hdrsize total (fdt_off_dt_struct fdt) (fdt_size_dt_struct fdt) then TRUNCATED
      else if \<not> check_block hdrsize total (fdt_off_dt_strings fdt) (fdt_size_dt_strings fdt) then TRUNCATED
      else 0)"

definition fdtutil_check :: "string \<Rightarrow> rc" where
  "fdtutil_check fdt =
     (if length fdt < 40 \<or> fdt_check_header fdt \<noteq> 0 then Some EINVAL
      else if fdt_totalsize fdt \<le> int (length fdt) then None else Some EINVAL)"

section \<open>Tags\<close>

definition fdt_offset_ptr :: "string \<Rightarrow> int \<Rightarrow> int \<Rightarrow> nat option" where
  "fdt_offset_ptr fdt offset len =
     (let uoffset = u32_wrap offset; absoffset = u32_wrap (offset + fdt_off_dt_struct fdt) in
      if offset < 0 then None
      else if absoffset < uoffset \<or> u32_wrap (absoffset + len) < absoffset \<or>
              u32_wrap (absoffset + len) > fdt_totalsize fdt then None
      else if fdt_version fdt \<ge> 0x11 \<and>
              (u32_wrap (uoffset + len) < uoffset \<or> u32_wrap (offset + len) > fdt_size_dt_struct fdt) then None
      else Some (nat (fdt_off_dt_struct fdt + offset)))"

abbreviation (input) FDT_BEGIN_NODE :: int where "FDT_BEGIN_NODE \<equiv> 1"
abbreviation (input) FDT_END_NODE :: int where "FDT_END_NODE \<equiv> 2"
abbreviation (input) FDT_PROP :: int where "FDT_PROP \<equiv> 3"
abbreviation (input) FDT_NOP :: int where "FDT_NOP \<equiv> 4"
abbreviation (input) FDT_END :: int where "FDT_END \<equiv> 9"

text \<open>The offset behind the name that starts here; \<open>None\<close> when it does not end in the block.\<close>

definition off_measure :: "int \<Rightarrow> nat" where
  "off_measure x = (if x < 0 then 0 else if x \<ge> 2 ^ 31 then 2 ^ 31 + 2 else nat (2 ^ 31 + 1 - x))"

lemma to_int_range: "- (2 ^ 31) \<le> to_int i" "to_int i < 2 ^ 31"
  by (simp_all add: to_int_def)

lemma off_measure_less:
  "0 \<le> x \<Longrightarrow> y < 2 ^ 31 \<Longrightarrow> y < 0 \<or> 2 ^ 31 \<le> x \<or> x < y \<Longrightarrow> off_measure y < off_measure x"
  by (auto simp: off_measure_def)

lemma to_int_cases: "0 \<le> i \<Longrightarrow> i < 2 ^ 32 \<Longrightarrow> to_int i = (if i < 2 ^ 31 then i else i - 2 ^ 32)"
proof -
  assume i: "0 \<le> i" "i < 2 ^ 32"
  show ?thesis
  proof (cases "i < 2 ^ 31")
    case False
    have "(i + 2 ^ 31) mod 2 ^ 32 = (i + 2 ^ 31 - 2 ^ 32) mod 2 ^ 32" by (rule minus_mod_self2 [symmetric])
    also have "\<dots> = i + 2 ^ 31 - 2 ^ 32" using i False by (intro mod_pos_pos_trivial) auto
    finally show ?thesis using False by (simp add: to_int_def)
  qed (use i in \<open>simp add: to_int_id\<close>)
qed

function skip_name :: "string \<Rightarrow> int \<Rightarrow> int option" where
  "skip_name fdt offset =
     (case fdt_offset_ptr fdt offset 1 of
        None \<Rightarrow> None
      | Some p \<Rightarrow>
          if take 1 (drop p fdt) = [CHR 0x00] then Some (to_int (offset + 1))
          else skip_name fdt (to_int (offset + 1)))"
  by pat_completeness auto
termination
proof (relation "measure (\<lambda>(fdt, offset). off_measure offset)")
  fix fdt :: string and offset :: int and p
  assume "fdt_offset_ptr fdt offset 1 = Some p"
  then have o: "0 \<le> offset" by (auto simp: fdt_offset_ptr_def Let_def split: if_splits)
  have "to_int (offset + 1) < 0 \<or> 2 ^ 31 \<le> offset \<or> offset < to_int (offset + 1)"
    using o to_int_cases [of "offset + 1"] by (cases "offset < 2 ^ 31") auto
  then show "((fdt, to_int (offset + 1)), fdt, offset) \<in> measure (\<lambda>(fdt, offset). off_measure offset)"
    using off_measure_less [OF o] to_int_range by simp
qed simp

declare skip_name.simps [simp del]

definition FDT_TAGALIGN :: "int \<Rightarrow> int" where
  "FDT_TAGALIGN x = to_int ((x + 3) div 4 * 4)"

text \<open>The tag and \<open>*nextoffset\<close>.\<close>

definition fdt_next_tag :: "string \<Rightarrow> int \<Rightarrow> int \<times> int" where
  "fdt_next_tag fdt startoffset =
     (case fdt_offset_ptr fdt startoffset 4 of
        None \<Rightarrow> (FDT_END, TRUNCATED)
      | Some tagp \<Rightarrow>
          let tag = fdt32_ld fdt tagp; offset = to_int (startoffset + 4);
              leave = (\<lambda>offset.
                case fdt_offset_ptr fdt startoffset (u32_wrap (offset - startoffset)) of
                  None \<Rightarrow> (FDT_END, BADSTRUCTURE)
                | Some _ \<Rightarrow> (tag, FDT_TAGALIGN offset))
          in if tag = FDT_BEGIN_NODE then
               (case skip_name fdt offset of None \<Rightarrow> (FDT_END, BADSTRUCTURE) | Some offset \<Rightarrow> leave offset)
             else if tag = FDT_PROP then
               (case fdt_offset_ptr fdt offset 4 of
                  None \<Rightarrow> (FDT_END, BADSTRUCTURE)
                | Some lenp \<Rightarrow>
                    let len = fdt32_ld fdt lenp; sum = u32_wrap (len + offset) in
                    if 2 ^ 31 - 1 \<le> sum \<or> sum < u32_wrap offset then (FDT_END, BADSTRUCTURE)
                    else
                      let offset = to_int (offset + 8 + len);
                          offset = (if fdt_version fdt < 0x10 \<and> len \<ge> 8 \<and> (offset - len) mod 8 \<noteq> 0
                                    then to_int (offset + 4) else offset)
                      in leave offset)
             else if tag = FDT_END \<or> tag = FDT_END_NODE \<or> tag = FDT_NOP then leave offset
             else (FDT_END, BADSTRUCTURE))"

lemma fdt_offset_ptr_nonneg: "fdt_offset_ptr fdt offset len = Some p \<Longrightarrow> 0 \<le> offset"
  by (auto simp: fdt_offset_ptr_def Let_def split: if_splits)

lemma skip_name_after:
  "skip_name fdt offset = Some o' \<Longrightarrow> - (2 ^ 31) \<le> o' \<and> o' < 2 ^ 31 \<and> (o' < - 4 \<or> 2 ^ 31 \<le> offset \<or> offset < o')"
proof (induction fdt offset arbitrary: o' rule: skip_name.induct)
  case (1 fdt offset)
  obtain p where p: "fdt_offset_ptr fdt offset 1 = Some p"
    using "1.prems" by (subst (asm) skip_name.simps) (auto split: option.splits)
  have o: "0 \<le> offset" using p by (rule fdt_offset_ptr_nonneg)
  have n: "to_int (offset + 1) < - 4 \<or> 2 ^ 31 \<le> offset \<or> to_int (offset + 1) = offset + 1"
    using o to_int_cases [of "offset + 1"] by (cases "offset < 2 ^ 31") auto
  show ?case
  proof (cases "take 1 (drop p fdt) = [CHR 0x00]")
    case True
    then have "o' = to_int (offset + 1)"
      using "1.prems" p by (subst (asm) skip_name.simps) simp
    then show ?thesis using n to_int_range by auto
  next
    case False
    then have r: "skip_name fdt (to_int (offset + 1)) = Some o'"
      using "1.prems" p by (subst (asm) skip_name.simps) simp
    then have "0 \<le> to_int (offset + 1)"
      by (subst (asm) skip_name.simps) (auto split: option.splits dest: fdt_offset_ptr_nonneg)
    moreover have "to_int (offset + 1) < 2 ^ 31" by (rule to_int_range)
    ultimately show ?thesis using "1.IH" [OF p False r] n by linarith
  qed
qed

lemma FDT_TAGALIGN_after:
  assumes "o' < 2 ^ 31" and "- (2 ^ 31) \<le> o'"
  shows "if o' < - 4 then FDT_TAGALIGN o' < 0 else FDT_TAGALIGN o' < 0 \<or> o' \<le> FDT_TAGALIGN o'"
proof -
  let ?a = "(o' + 3) div 4 * 4"
  have "o' \<le> ?a" "?a \<le> o' + 3" by presburger+
  then show ?thesis
    using assms to_int_cases [of ?a] to_int_id [of ?a] by (cases "0 \<le> ?a") (auto simp: FDT_TAGALIGN_def)
qed

lemma fdt32_ld_bound: "0 \<le> fdt32_ld fdt p" "fdt32_ld fdt p < 2 ^ 32"
proof -
  have "be_val (take 4 (drop p fdt)) < 256 ^ length (take 4 (drop p fdt))" by (rule be_val_less)
  also have "\<dots> \<le> 256 ^ 4" by (rule power_increasing) simp_all
  finally show "0 \<le> fdt32_ld fdt p" "fdt32_ld fdt p < 2 ^ 32" by (simp_all add: fdt32_ld_def)
qed

lemma to_int_add_cases:
  "0 \<le> i \<Longrightarrow> i < 2 ^ 31 + 16 \<Longrightarrow> to_int i < - 4 \<or> to_int i = i"
  using to_int_cases [of i] by auto

text \<open>Every tag but the end is behind its offset: the loops over tags end.\<close>

lemma next_tag_offset:
  assumes "fdt_next_tag fdt start = (tag, n)" and "tag \<noteq> FDT_END"
  shows "\<exists>o'. n = FDT_TAGALIGN o' \<and> (let o1 = to_int (start + 4) in
    o' = o1 \<or> skip_name fdt o1 = Some o' \<or>
    (\<exists>len. 0 \<le> o1 \<and> 0 \<le> len \<and> len < 2 ^ 32 \<and> \<not> 2 ^ 31 - 1 \<le> u32_wrap (len + o1) \<and> \<not> u32_wrap (len + o1) < u32_wrap o1 \<and>
      (o' = to_int (o1 + 8 + len) \<or> o' = to_int (to_int (o1 + 8 + len) + 4))))"
proof -
  obtain tagp where tagp: "fdt_offset_ptr fdt start 4 = Some tagp"
    using assms by (auto simp: fdt_next_tag_def split: option.splits)
  let ?o = "to_int (start + 4)"
  consider "fdt32_ld fdt tagp = FDT_BEGIN_NODE" | "fdt32_ld fdt tagp = FDT_PROP"
    | "fdt32_ld fdt tagp \<noteq> FDT_BEGIN_NODE" "fdt32_ld fdt tagp \<noteq> FDT_PROP" by blast
  then show ?thesis
  proof cases
    case 1
    then show ?thesis using assms tagp
      by (auto simp: fdt_next_tag_def Let_def split: option.splits)
  next
    case 2
    obtain lenp where l: "fdt_offset_ptr fdt ?o 4 = Some lenp"
      using assms tagp 2 by (auto simp: fdt_next_tag_def Let_def split: option.splits)
    have "\<not> (2 ^ 31 - 1 \<le> u32_wrap (fdt32_ld fdt lenp + ?o) \<or> u32_wrap (fdt32_ld fdt lenp + ?o) < u32_wrap ?o)"
      using assms tagp 2 l by (auto simp: fdt_next_tag_def Let_def)
    moreover have "n = FDT_TAGALIGN (to_int (?o + 8 + fdt32_ld fdt lenp)) \<or>
        n = FDT_TAGALIGN (to_int (to_int (?o + 8 + fdt32_ld fdt lenp) + 4))"
      using assms tagp 2 l by (auto simp: fdt_next_tag_def Let_def split: option.splits if_splits)
    ultimately show ?thesis
      using fdt_offset_ptr_nonneg [OF l] fdt32_ld_bound [of fdt lenp] by (auto simp: Let_def)
  next
    case 3
    then show ?thesis using assms tagp
      by (auto simp: fdt_next_tag_def Let_def split: option.splits if_splits)
  qed
qed

lemma u32_add_no_wrap:
  assumes "0 \<le> a" "a < 2 ^ 32" "0 \<le> b" "b < 2 ^ 32" "\<not> u32_wrap (a + b) < b"
  shows "u32_wrap (a + b) = a + b"
proof (cases "a + b < 2 ^ 32")
  case False
  have "u32_wrap (a + b) = u32_wrap (a + b - 2 ^ 32)" by (rule minus_mod_self2 [symmetric])
  also have "\<dots> = a + b - 2 ^ 32" using assms False by (intro mod_pos_pos_trivial) auto
  finally show ?thesis using assms by simp
qed (use assms in \<open>simp add: mod_pos_pos_trivial\<close>)

lemma to_int_add: "to_int (to_int a + b) = to_int (a + b)"
proof -
  have "((a + 2 ^ 31) mod 2 ^ 32 - 2 ^ 31 + b + 2 ^ 31) mod 2 ^ 32 = ((a + 2 ^ 31) mod 2 ^ 32 + b) mod 2 ^ 32" by simp
  also have "\<dots> = (a + b + 2 ^ 31) mod 2 ^ 32" by (simp only: mod_add_left_eq) (simp add: algebra_simps)
  finally show ?thesis by (simp add: to_int_def)
qed

lemma next_tag_advances:
  assumes "fdt_next_tag fdt start = (tag, n)" and "tag \<noteq> FDT_END"
  shows "0 \<le> start \<and> n < 2 ^ 31 \<and> (n < 0 \<or> 2 ^ 31 \<le> start \<or> start < n)"
proof -
  obtain tagp where tagp: "fdt_offset_ptr fdt start 4 = Some tagp"
    using assms by (auto simp: fdt_next_tag_def split: option.splits)
  have s: "0 \<le> start" using tagp by (rule fdt_offset_ptr_nonneg)
  let ?o = "to_int (start + 4)"
  obtain o' where n: "n = FDT_TAGALIGN o'" and o': "(let o1 = to_int (start + 4) in
    o' = o1 \<or> skip_name fdt o1 = Some o' \<or>
    (\<exists>len. 0 \<le> o1 \<and> 0 \<le> len \<and> len < 2 ^ 32 \<and> \<not> 2 ^ 31 - 1 \<le> u32_wrap (len + o1) \<and> \<not> u32_wrap (len + o1) < u32_wrap o1 \<and>
      (o' = to_int (o1 + 8 + len) \<or> o' = to_int (to_int (o1 + 8 + len) + 4))))"
    using next_tag_offset [OF assms] by blast
  have n': "n < 2 ^ 31" unfolding n FDT_TAGALIGN_def by (rule to_int_range)
  show ?thesis
  proof (cases "start < 2 ^ 31")
    case True
    have o: "?o < - 4 \<or> ?o = start + 4" using s True to_int_add_cases [of "start + 4"] by simp
    have r: "- (2 ^ 31) \<le> ?o" "?o < 2 ^ 31" by (rule to_int_range)+
    consider "o' = ?o" | "skip_name fdt ?o = Some o'"
      | len where "0 \<le> ?o" "0 \<le> len" "len < 2 ^ 32" "\<not> 2 ^ 31 - 1 \<le> u32_wrap (len + ?o)"
          "\<not> u32_wrap (len + ?o) < u32_wrap ?o"
          "o' = to_int (?o + 8 + len) \<or> o' = to_int (to_int (?o + 8 + len) + 4)"
      using o' by (auto simp: Let_def)
    then have "- (2 ^ 31) \<le> o' \<and> o' < 2 ^ 31 \<and> (o' < - 4 \<or> start < o')"
    proof cases
      case 2
      then have "0 \<le> ?o" by (subst (asm) skip_name.simps) (auto split: option.splits dest: fdt_offset_ptr_nonneg)
      then show ?thesis using skip_name_after [OF 2] o r by auto
    next
      case 3
      then have "u32_wrap (len + ?o) = len + ?o" using r by (intro u32_add_no_wrap) auto
      then show ?thesis
        using 3 o to_int_add_cases [of "?o + 8 + len"] to_int_add_cases [of "?o + 8 + len + 4"]
          to_int_range [of "?o + 8 + len"] to_int_range [of "?o + 8 + len + 4"] by (auto simp: to_int_add)
    qed (use o r in auto)
    then show ?thesis using s n' FDT_TAGALIGN_after [of o'] by (auto simp: n split: if_splits)
  qed (use s n' in auto)
qed

section \<open>Nodes\<close>

definition fdt_check_node_offset :: "string \<Rightarrow> int \<Rightarrow> int" where
  "fdt_check_node_offset fdt offset =
     (if offset < 0 \<or> offset mod 4 \<noteq> 0 then BADOFFSET
      else let (tag, n) = fdt_next_tag fdt offset in if tag \<noteq> FDT_BEGIN_NODE then BADOFFSET else n)"

definition fdt_check_prop_offset :: "string \<Rightarrow> int \<Rightarrow> int" where
  "fdt_check_prop_offset fdt offset =
     (if offset < 0 \<or> offset mod 4 \<noteq> 0 then BADOFFSET
      else let (tag, n) = fdt_next_tag fdt offset in if tag \<noteq> FDT_PROP then BADOFFSET else n)"

text \<open>The loop of \<open>fdt_next_node\<close>, with \<open>depth\<close> always given: the node and \<open>*depth\<close>.\<close>

function next_node_loop :: "string \<Rightarrow> int \<Rightarrow> int \<Rightarrow> int \<times> int" where
  "next_node_loop fdt offset depth =
     (case fdt_next_tag fdt offset of (tag, n) \<Rightarrow>
        if tag = FDT_BEGIN_NODE then (offset, depth + 1)
        else if tag = FDT_END_NODE then
          if depth - 1 < 0 then (n, depth - 1) else next_node_loop fdt n (depth - 1)
        else if tag = FDT_END then (if n \<ge> 0 then NOTFOUND else n, depth)
        else next_node_loop fdt n depth)"
  by pat_completeness auto
termination
  by (relation "measure (\<lambda>(fdt, offset, depth). off_measure offset)")
    (simp, (fastforce dest!: sym [of "(_, _)"] next_tag_advances intro: off_measure_less)+)

declare next_node_loop.simps [simp del]

definition fdt_next_node :: "string \<Rightarrow> int \<Rightarrow> int \<Rightarrow> int \<times> int" where
  "fdt_next_node fdt offset depth =
     (if offset \<ge> 0 then
        let n = fdt_check_node_offset fdt offset
        in if n < 0 then (n, depth) else next_node_loop fdt n depth
      else next_node_loop fdt 0 depth)"

definition fdt_first_subnode :: "string \<Rightarrow> int \<Rightarrow> int" where
  "fdt_first_subnode fdt offset =
     (let (offset, depth) = fdt_next_node fdt offset 0
      in if offset < 0 \<or> depth \<noteq> 1 then NOTFOUND else offset)"

lemma next_node_loop_after:
  "next_node_loop fdt offset depth = (o', d') \<Longrightarrow> offset < 2 ^ 31 \<Longrightarrow> o' < 2 ^ 31 \<and> (o' < 0 \<or> offset \<le> o')"
proof (induction fdt offset depth rule: next_node_loop.induct)
  case (1 fdt offset depth)
  obtain tag n where t: "fdt_next_tag fdt offset = (tag, n)" by fastforce
  have a: "tag \<noteq> FDT_END \<Longrightarrow> 0 \<le> offset \<and> n < 2 ^ 31 \<and> (n < 0 \<or> offset < n)"
    using next_tag_advances [OF t] "1.prems"(2) by auto
  have neg: "o' < 0" if "next_node_loop fdt n d = (o', d')" "n < 0" for d
  proof -
    have "fdt_next_tag fdt n = (FDT_END, TRUNCATED)" using that(2) by (simp add: fdt_next_tag_def fdt_offset_ptr_def Let_def)
    then show ?thesis using that(1) by (subst (asm) next_node_loop.simps) simp
  qed
  have u: "(o', d') = (if tag = FDT_BEGIN_NODE then (offset, depth + 1)
        else if tag = FDT_END_NODE then
          if depth - 1 < 0 then (n, depth - 1) else next_node_loop fdt n (depth - 1)
        else if tag = FDT_END then (if n \<ge> 0 then NOTFOUND else n, depth)
        else next_node_loop fdt n depth)"
    using "1.prems"(1) by (subst (asm) next_node_loop.simps) (simp add: t)
  have rec: "o' < 2 ^ 31 \<and> (o' < 0 \<or> offset \<le> o')"
    if "next_node_loop fdt n d = (o', d')" "tag \<noteq> FDT_END"
      "n < 2 ^ 31 \<Longrightarrow> o' < 2 ^ 31 \<and> (o' < 0 \<or> n \<le> o')" for d
    using that neg a by fastforce
  consider "tag = FDT_BEGIN_NODE" | "tag = FDT_END_NODE" "depth - 1 < 0" | "tag = FDT_END_NODE" "\<not> depth - 1 < 0"
    | "tag = FDT_END" | "tag \<noteq> FDT_BEGIN_NODE" "tag \<noteq> FDT_END_NODE" "tag \<noteq> FDT_END" by blast
  then show ?case
  proof cases
    case 3
    then show ?thesis
      using u rec [of "depth - 1"] "1.IH"(1) [OF t [symmetric]] by simp
  next
    case 5
    then show ?thesis using u rec [of depth] "1.IH"(2) [OF t [symmetric]] by simp
  qed (use u a "1.prems"(2) in \<open>auto split: if_splits\<close>)
qed

lemma next_node_after:
  assumes "fdt_next_node fdt offset depth = (o', d')" and "0 \<le> offset"
  shows "o' < 2 ^ 31 \<and> (o' < 0 \<or> 2 ^ 31 \<le> offset \<or> offset < o')"
proof -
  obtain tag n where t: "fdt_next_tag fdt offset = (tag, n)" by fastforce
  show ?thesis
    using assms next_tag_advances [OF t] next_node_loop_after [of fdt n depth o' d']
    by (auto simp: fdt_next_node_def fdt_check_node_offset_def Let_def t split: if_splits)
qed

function fdt_next_subnode_loop :: "string \<Rightarrow> int \<Rightarrow> int \<Rightarrow> int" where
  "fdt_next_subnode_loop fdt offset depth =
     (case fdt_next_node fdt offset depth of (offset', depth) \<Rightarrow>
        if offset' < 0 \<or> depth < 1 then NOTFOUND
        else if depth > 1 then fdt_next_subnode_loop fdt offset' depth
        else offset')"
  by pat_completeness auto
termination
proof (relation "measure (\<lambda>(fdt, offset, depth). if offset < 0 then 2 ^ 31 + 3 else off_measure offset)")
  fix fdt :: string and offset depth x o' d' :: int
  assume n: "(o', d') = fdt_next_node fdt offset depth" and o': "\<not> (o' < 0 \<or> d' < 1)"
  have "off_measure o' < off_measure offset" if "0 \<le> offset"
    using next_node_after [OF n [symmetric] that] o' off_measure_less that by auto
  moreover have "off_measure o' < 2 ^ 31 + 3" using o' by (auto simp: off_measure_def nat_less_iff)
  ultimately show "((fdt, o', d'), fdt, offset, depth) \<in>
      measure (\<lambda>(fdt, offset, depth). if offset < 0 then 2 ^ 31 + 3 else off_measure offset)"
    using o' by simp
qed simp

declare fdt_next_subnode_loop.simps [simp del]

definition fdt_next_subnode :: "string \<Rightarrow> int \<Rightarrow> int" where
  "fdt_next_subnode fdt offset = fdt_next_subnode_loop fdt offset 1"

definition fdt_get_name :: "string \<Rightarrow> int \<Rightarrow> string option" where
  "fdt_get_name fdt nodeoffset =
     (if fdt_ro_probe fdt < 0 \<or> fdt_check_node_offset fdt nodeoffset < 0 then None
      else
        let name = cstr (drop (nat (fdt_off_dt_struct fdt + nodeoffset + 4)) fdt) in
        if fdt_version fdt < 0x10 then
          if CHR ''/'' \<in> set name then Some (rev (takeWhile (\<lambda>c. c \<noteq> CHR ''/'') (rev name))) else None
        else Some name)"

definition fdt_nodename_eq :: "string \<Rightarrow> int \<Rightarrow> string \<Rightarrow> bool" where
  "fdt_nodename_eq fdt offset s =
     (case fdt_get_name fdt offset of
        None \<Rightarrow> False
      | Some p \<Rightarrow>
          length s \<le> length p \<and> take (length s) p = s \<and>
          (length p = length s \<or> CHR ''@'' \<notin> set s \<and> p ! length s = CHR ''@''))"

text \<open>The loop of \<open>fdt_subnode_offset_namelen\<close>.\<close>

function subnode_loop :: "string \<Rightarrow> string \<Rightarrow> int \<Rightarrow> int \<Rightarrow> int" where
  "subnode_loop fdt name offset depth =
     (if offset < 0 \<or> depth < 0 then (if depth < 0 then NOTFOUND else offset)
      else if depth = 1 \<and> fdt_nodename_eq fdt offset name then offset
      else case fdt_next_node fdt offset depth of (offset, depth) \<Rightarrow> subnode_loop fdt name offset depth)"
  by pat_completeness auto
termination
  by (relation "measure (\<lambda>(fdt, name, offset, depth). off_measure offset)")
    (simp, (fastforce dest!: sym [of "(_, _)"] next_node_after intro: off_measure_less)+)

declare subnode_loop.simps [simp del]

definition fdt_subnode_offset :: "string \<Rightarrow> int \<Rightarrow> string \<Rightarrow> int" where
  "fdt_subnode_offset fdt offset name =
     (if fdt_ro_probe fdt < 0 then fdt_ro_probe fdt else subnode_loop fdt name offset 0)"

section \<open>Properties\<close>

text \<open>The string at an offset of the string table.\<close>

definition fdt_get_string :: "string \<Rightarrow> int \<Rightarrow> string option" where
  "fdt_get_string fdt stroffset =
     (let totalsize = fdt_ro_probe fdt; absoffset = u32_wrap (stroffset + fdt_off_dt_strings fdt);
          len = totalsize - absoffset;
          found = (\<lambda>len. let s = take (nat len) (drop (nat absoffset) fdt)
                         in if CHR 0x00 \<in> set s then Some (cstr s) else None)
      in if totalsize < 0 then None
         else if absoffset \<ge> totalsize then None
         else if fdt_magic fdt = FDT_MAGIC then
           if stroffset < 0 then None
           else if fdt_version fdt \<ge> 17 then
             if stroffset \<ge> fdt_size_dt_strings fdt then None
             else found (min (fdt_size_dt_strings fdt - stroffset) len)
           else found len
         else if fdt_magic fdt = FDT_SW_MAGIC then
           if stroffset \<ge> 0 \<or> - stroffset > fdt_size_dt_strings fdt then None
           else found (min (- stroffset) len)
         else None)"

definition fdt_string_eq :: "string \<Rightarrow> int \<Rightarrow> string \<Rightarrow> bool" where
  "fdt_string_eq fdt stroffset s = (fdt_get_string fdt stroffset = Some s)"

function nextprop :: "string \<Rightarrow> int \<Rightarrow> int" where
  "nextprop fdt offset =
     (case fdt_next_tag fdt offset of (tag, n) \<Rightarrow>
        if tag = FDT_END then (if n \<ge> 0 then BADSTRUCTURE else n)
        else if tag = FDT_PROP then offset
        else if tag = FDT_NOP then nextprop fdt n
        else NOTFOUND)"
  by pat_completeness auto
termination
  by (relation "measure (\<lambda>(fdt, offset). off_measure offset)")
    (simp, (fastforce dest!: sym [of "(_, _)"] next_tag_advances intro: off_measure_less)+)

declare nextprop.simps [simp del]

definition fdt_first_property_offset :: "string \<Rightarrow> int \<Rightarrow> int" where
  "fdt_first_property_offset fdt nodeoffset =
     (let offset = fdt_check_node_offset fdt nodeoffset
      in if offset < 0 then offset else nextprop fdt offset)"

definition fdt_next_property_offset :: "string \<Rightarrow> int \<Rightarrow> int" where
  "fdt_next_property_offset fdt offset =
     (let offset = fdt_check_prop_offset fdt offset
      in if offset < 0 then offset else nextprop fdt offset)"

lemma nextprop_after:
  "nextprop fdt offset = o' \<Longrightarrow> offset < 2 ^ 31 \<Longrightarrow> o' < 2 ^ 31 \<and> (o' < 0 \<or> offset \<le> o')"
proof (induction fdt offset arbitrary: o' rule: nextprop.induct)
  case (1 fdt offset)
  obtain tag n where t: "fdt_next_tag fdt offset = (tag, n)" by fastforce
  have neg: "nextprop fdt n < 0" if "n < 0"
  proof -
    have "fdt_next_tag fdt n = (FDT_END, TRUNCATED)" using that by (simp add: fdt_next_tag_def fdt_offset_ptr_def Let_def)
    then show ?thesis by (subst nextprop.simps) simp
  qed
  show ?case
  proof (cases "tag = FDT_NOP")
    case True
    then have "o' = nextprop fdt n" using "1.prems"(1) by (subst (asm) nextprop.simps) (simp add: t)
    moreover have "n < 2 ^ 31" "n < 0 \<or> offset < n" using next_tag_advances [OF t] True "1.prems"(2) by auto
    ultimately show ?thesis using "1.IH" [OF t [symmetric], of o'] True neg by (cases "n < 0") auto
  next
    case False
    then show ?thesis using "1.prems" by (subst (asm) nextprop.simps) (auto simp: t split: if_splits)
  qed
qed

text \<open>The loop of \<open>fdt_get_property_namelen_\<close>: the offset of the property, or an error.\<close>

function get_property_loop :: "string \<Rightarrow> string \<Rightarrow> int \<Rightarrow> int" where
  "get_property_loop fdt name offset =
     (if offset < 0 then offset
      else if fdt_check_prop_offset fdt offset < 0 then INTERNAL
      else if fdt_string_eq fdt (to_int (fdt32_ld fdt (nat (fdt_off_dt_struct fdt + offset) + 8))) name then offset
      else get_property_loop fdt name (fdt_next_property_offset fdt offset))"
  by pat_completeness auto
termination
proof (relation "measure (\<lambda>(fdt, name, offset). off_measure offset)")
  fix fdt name :: string and offset :: int
  assume o: "\<not> offset < 0" and p: "\<not> fdt_check_prop_offset fdt offset < 0"
  obtain tag n where t: "fdt_next_tag fdt offset = (tag, n)" by fastforce
  have c: "tag = FDT_PROP" "fdt_check_prop_offset fdt offset = n" "0 \<le> n"
    using p by (auto simp: fdt_check_prop_offset_def t split: if_splits)
  then have "n < 2 ^ 31" "2 ^ 31 \<le> offset \<or> offset < n" using next_tag_advances [OF t] by auto
  moreover have "fdt_next_property_offset fdt offset = nextprop fdt n"
    using c by (simp add: fdt_next_property_offset_def Let_def)
  ultimately show "((fdt, name, fdt_next_property_offset fdt offset), fdt, name, offset) \<in>
      measure (\<lambda>(fdt, name, offset). off_measure offset)"
    using nextprop_after [of fdt n "nextprop fdt n"] off_measure_less [of offset "nextprop fdt n"] o by auto
qed simp

declare get_property_loop.simps [simp del]

text \<open>Where the value starts, and \<open>*lenp\<close>; an error otherwise.\<close>

definition fdt_getprop :: "string \<Rightarrow> int \<Rightarrow> string \<Rightarrow> int + nat \<times> int" where
  "fdt_getprop fdt nodeoffset name =
     (let poffset = get_property_loop fdt name (fdt_first_property_offset fdt nodeoffset) in
      if poffset < 0 then Inl poffset
      else
        let prop = nat (fdt_off_dt_struct fdt + poffset); len = fdt32_ld fdt (prop + 4) in
        if fdt_version fdt < 0x10 \<and> (poffset + 12) mod 8 \<noteq> 0 \<and> len \<ge> 8
        then Inr (prop + 16, to_int len) else Inr (prop + 12, to_int len))"

abbreviation prop_bytes :: "string \<Rightarrow> nat \<Rightarrow> int \<Rightarrow> string" where
  "prop_bytes fdt p len \<equiv> take (nat len) (drop p fdt)"

function fdt_stringlist_contains :: "string \<Rightarrow> nat \<Rightarrow> int \<Rightarrow> string \<Rightarrow> bool" where
  "fdt_stringlist_contains fdt p listlen str =
     (if listlen < int (length str) then False
      else if take (length str + 1) (drop p fdt) = str @ [CHR 0x00] then True
      else
        let l = prop_bytes fdt p listlen in
        if CHR 0x00 \<notin> set l then False
        else let n = length (cstr l) + 1 in fdt_stringlist_contains fdt (p + n) (listlen - int n) str)"
  by pat_completeness auto
termination
proof (relation "measure (\<lambda>(fdt, p, listlen, str). nat listlen)")
  fix fdt str l :: string and p n :: nat and listlen :: int
  assume "l = prop_bytes fdt p listlen" "\<not> CHR 0x00 \<notin> set l" "n = length (cstr l) + 1"
  moreover from this have "0 < listlen" by (cases "0 < listlen") auto
  ultimately show "((fdt, p + n, listlen - int n, str), fdt, p, listlen, str) \<in> measure (\<lambda>(fdt, p, listlen, str). nat listlen)"
    by simp
qed simp

declare fdt_stringlist_contains.simps [simp del]

definition fdt_node_check_compatible :: "string \<Rightarrow> int \<Rightarrow> string \<Rightarrow> int" where
  "fdt_node_check_compatible fdt nodeoffset compatible =
     (case fdt_getprop fdt nodeoffset ''compatible'' of
        Inl e \<Rightarrow> e
      | Inr (p, len) \<Rightarrow> if fdt_stringlist_contains fdt p len compatible then 0 else 1)"

section \<open>Paths\<close>

lemma length_dropWhile_less: "hd xs \<noteq> c \<Longrightarrow> xs \<noteq> [] \<Longrightarrow> length (dropWhile (\<lambda>x. x \<noteq> c) xs) < length xs"
  by (cases xs) (simp_all add: length_dropWhile_le less_Suc_eq_le)

function path_loop :: "string \<Rightarrow> int \<Rightarrow> string \<Rightarrow> int" where
  "path_loop fdt offset p =
     (let p = dropWhile (\<lambda>c. c = CHR ''/'') p in
      if p = [] then offset
      else
        let offset = fdt_subnode_offset fdt offset (takeWhile (\<lambda>c. c \<noteq> CHR ''/'') p) in
        if offset < 0 then offset
        else path_loop fdt offset (dropWhile (\<lambda>c. c \<noteq> CHR ''/'') p))"
  by pat_completeness auto
termination
proof (relation "measure (\<lambda>(fdt, offset, p). length p)")
  fix fdt x p :: string and offset y :: int
  assume x: "x = dropWhile (\<lambda>c. c = CHR ''/'') p" and ne: "x \<noteq> []"
  have "hd x \<noteq> CHR ''/''" using hd_dropWhile [of "\<lambda>c. c = CHR ''/''" p] ne by (simp only: x simp_thms)
  then have "length (dropWhile (\<lambda>c. c \<noteq> CHR ''/'') x) < length x"
    using ne by (rule length_dropWhile_less)
  also have "\<dots> \<le> length p" unfolding x by (rule length_dropWhile_le)
  finally show "((fdt, y, dropWhile (\<lambda>c. c \<noteq> CHR ''/'') x), fdt, offset, p) \<in> measure (\<lambda>(fdt, offset, p). length p)"
    by (simp only: in_measure split)
qed simp

declare path_loop.simps [simp del]

definition fdt_path_offset_abs :: "string \<Rightarrow> string \<Rightarrow> int" where
  "fdt_path_offset_abs fdt path = (if fdt_ro_probe fdt < 0 then fdt_ro_probe fdt else path_loop fdt 0 path)"

definition fdt_get_alias :: "string \<Rightarrow> string \<Rightarrow> string option" where
  "fdt_get_alias fdt name =
     (let offset = fdt_path_offset_abs fdt ''/aliases'' in
      if offset < 0 then None
      else case fdt_getprop fdt offset name of
        Inl e \<Rightarrow> None
      | Inr (p, len) \<Rightarrow>
          let alias = prop_bytes fdt p len in
          if len > 0 \<and> alias \<noteq> [] \<and> last alias = CHR 0x00 \<and> hd alias = CHR ''/'' then Some (cstr alias) else None)"

definition fdt_path_offset :: "string \<Rightarrow> string \<Rightarrow> int" where
  "fdt_path_offset fdt path =
     (if fdt_ro_probe fdt < 0 then fdt_ro_probe fdt
      else if path = [] then BADPATH
      else if hd path \<noteq> CHR ''/'' then
        (case fdt_get_alias fdt (takeWhile (\<lambda>c. c \<noteq> CHR ''/'') path) of
           None \<Rightarrow> BADPATH
         | Some p \<Rightarrow> path_loop fdt (fdt_path_offset_abs fdt p) (dropWhile (\<lambda>c. c \<noteq> CHR ''/'') path))
      else path_loop fdt 0 path)"

section \<open>The children of a node\<close>

lemma next_subnode_loop_after:
  "0 \<le> offset \<Longrightarrow> fdt_next_subnode_loop fdt offset depth = o' \<Longrightarrow> o' < 2 ^ 31 \<and> (o' < 0 \<or> 2 ^ 31 \<le> offset \<or> offset < o')"
proof (induction fdt offset depth rule: fdt_next_subnode_loop.induct)
  case (1 fdt offset depth)
  obtain o1 d where n: "fdt_next_node fdt offset depth = (o1, d)" by fastforce
  have a: "o1 < 2 ^ 31 \<and> (o1 < 0 \<or> 2 ^ 31 \<le> offset \<or> offset < o1)" using n "1.prems"(1) by (rule next_node_after)
  have u: "o' = (if o1 < 0 \<or> d < 1 then NOTFOUND else if d > 1 then fdt_next_subnode_loop fdt o1 d else o1)"
    using "1.prems"(2) by (subst (asm) fdt_next_subnode_loop.simps) (simp add: n)
  show ?case
  proof (cases "o1 < 0 \<or> d < 1 \<or> \<not> d > 1")
    case False
    then show ?thesis using "1.IH" [OF n [symmetric]] u a by auto
  qed (use u a in \<open>auto split: if_splits\<close>)
qed

text \<open>The nodes \<open>fdt_for_each_subnode\<close> visits from \<open>node\<close> on.\<close>

function fdt_subnodes_from :: "string \<Rightarrow> int \<Rightarrow> int list" where
  "fdt_subnodes_from fdt node =
     (if node < 0 then [] else node # fdt_subnodes_from fdt (fdt_next_subnode fdt node))"
  by pat_completeness auto
termination
proof (relation "measure (\<lambda>(fdt, node). off_measure node)")
  fix fdt :: string and node :: int
  assume "\<not> node < 0"
  then have "off_measure (fdt_next_subnode fdt node) < off_measure node"
    using next_subnode_loop_after [of node fdt 1 "fdt_next_subnode fdt node"]
    by (intro off_measure_less) (auto simp: fdt_next_subnode_def)
  then show "((fdt, fdt_next_subnode fdt node), fdt, node) \<in> measure (\<lambda>(fdt, node). off_measure node)" by simp
qed simp

declare fdt_subnodes_from.simps [simp del]

definition fdt_for_each_subnode :: "string \<Rightarrow> int \<Rightarrow> int list" where
  "fdt_for_each_subnode fdt parent = fdt_subnodes_from fdt (fdt_first_subnode fdt parent)"

end
