(* ===== verification/Mkfs.thy ===== *)
theory Mkfs
  imports Pci
begin

text \<open>
  The multikernel filesystem (lib/mkfs.c): overlays are written to
  \<open>overlays/new\<close> and judged by the status of the newest transaction.  The
  mount itself is a parameter.
\<close>

definition mkfs_path :: "string \<Rightarrow> string \<Rightarrow> string" where
  "mkfs_path root rel = snd (snprintf PATH_MAX (root @ ''/'' @ rel))"

text \<open>The number in \<open>tx_<number>\<close>.  \<open>strtol\<close> is kept in a \<open>long\<close> and compared as one.\<close>

definition tx_number :: "string \<Rightarrow> int option" where
  "tx_number name =
     (if take 3 name \<noteq> ''tx_'' \<or> drop 3 name = [] \<or> \<not> isdigit (name ! 3) then None
      else let (n, e) = strtoll 10 (drop 3 name) in if e = [] then Some n else None)"

definition mkfs_latest_tx :: "'w sys \<Rightarrow> 'w \<Rightarrow> string \<Rightarrow> int res" where
  "mkfs_latest_tx sys w root =
     (case sys_readdir sys w (mkfs_path root ''overlays'') of
        Inl e \<Rightarrow> Inl e
      | Inr names \<Rightarrow>
          Inr (foldl (\<lambda>latest name. case tx_number name of
                 None \<Rightarrow> latest | Some n \<Rightarrow> if n > latest then to_int n else latest) (- 1) names))"

definition mkfs_mount :: "('w \<Rightarrow> rc \<times> 'w) \<Rightarrow> 'w sys \<Rightarrow> string \<Rightarrow> 'w \<Rightarrow> rc \<times> 'w" where
  "mkfs_mount mount sys root w =
     (if sys_access sys w (mkfs_path root ''device_tree'') then (None, w) else mount w)"

text \<open>The return code, the transaction (\<open>-1\<close>: none) and the new world.\<close>

definition mkfs_apply_overlay :: "'w sys \<Rightarrow> string \<Rightarrow> string \<Rightarrow> 'w \<Rightarrow> rc \<times> int \<times> 'w" where
  "mkfs_apply_overlay sys root dtbo w =
     (let (r, w) = sys_write sys (mkfs_path root ''overlays/new'') dtbo w in
      if r \<noteq> None then (r, - 1, w)
      else case mkfs_latest_tx sys w root of
        Inl e \<Rightarrow> (Some EIO, - 1, w)
      | Inr tx \<Rightarrow>
          if tx < 0 then (Some EIO, - 1, w)
          else
            let rel = snd (snprintf 64 (''overlays/tx_'' @ dec_int tx @ ''/status'')) in
            case read_string sys w (mkfs_path root rel) of
              Inl e \<Rightarrow> (Some e, tx, w)
            | Inr status \<Rightarrow> (if status \<noteq> ''applied'' then Some EIO else None, tx, w))"

definition mkfs_write_baseline :: "'w sys \<Rightarrow> string \<Rightarrow> string \<Rightarrow> 'w \<Rightarrow> rc \<times> 'w" where
  "mkfs_write_baseline sys root dtb w = sys_write sys (mkfs_path root ''device_tree'') dtb w"

definition mkfs_read_root_tree :: "'w sys \<Rightarrow> string \<Rightarrow> 'w \<Rightarrow> string res" where
  "mkfs_read_root_tree sys root w = sys_read sys w (mkfs_path root ''device_tree'')"

definition mkfs_rel :: "string \<Rightarrow> string \<Rightarrow> string" where
  "mkfs_rel name attr = snd (snprintf (255 + 32) (''instances/'' @ name @ ''/'' @ attr))"

definition mkfs_instance_id :: "'w sys \<Rightarrow> string \<Rightarrow> 'w \<Rightarrow> string \<Rightarrow> u32 res" where
  "mkfs_instance_id sys root w name = file_read_u32 (sys_read sys w (mkfs_path root (mkfs_rel name ''id'')))"

definition mkfs_instance_status :: "'w sys \<Rightarrow> string \<Rightarrow> 'w \<Rightarrow> string \<Rightarrow> nat \<Rightarrow> string res" where
  "mkfs_instance_status sys root w name len =
     (case read_string sys w (mkfs_path root (mkfs_rel name ''status'')) of
        Inl e \<Rightarrow> Inl e
      | Inr s \<Rightarrow> Inr (snd (snprintf len s)))"

definition other_active :: "'w sys \<Rightarrow> string \<Rightarrow> 'w \<Rightarrow> string \<Rightarrow> string \<Rightarrow> bool" where
  "other_active sys root w name e =
     (\<not> (e \<noteq> [] \<and> hd e = CHR ''.'' \<or> e = name) \<and>
      (case mkfs_instance_id sys root w e of Inl _ \<Rightarrow> False | Inr i \<Rightarrow> i \<noteq> 0) \<and>
      mkfs_instance_status sys root w e 32 = Inr ''active'')"

text \<open>The name of another running kernel, cut to the caller's buffer.\<close>

definition mkfs_other_running :: "'w sys \<Rightarrow> string \<Rightarrow> 'w \<Rightarrow> string \<Rightarrow> nat \<Rightarrow> string option res" where
  "mkfs_other_running sys root w name len =
     (case sys_readdir sys w (mkfs_path root ''instances'') of
        Inl e \<Rightarrow> Inl e
      | Inr names \<Rightarrow> Inr (map_option (\<lambda>e. snd (snprintf len e)) (find (other_active sys root w name) names)))"

end
