(* ===== verification/Dt_Read.thy ===== *)
theory Dt_Read
  imports Devtree Fdt_Reader Mkfs
begin

text \<open>
  What kmorph reads of a tree the kernel publishes (lib/dt.c, lib/fdtutil.c):
  the state of the pool and the memory granule.  A property whose length the
  source does not check is read from where it starts; a visited node has a name.
\<close>

section \<open>Properties of a node\<close>

definition fdtutil_read_reg :: "string \<Rightarrow> int \<Rightarrow> (u64 \<times> u64) res" where
  "fdtutil_read_reg fdt node =
     (case fdt_getprop fdt node ''reg'' of
        Inl e \<Rightarrow> Inl EINVAL
      | Inr (p, len) \<Rightarrow>
          if len \<noteq> 16 then Inl EINVAL
          else let reg = prop_bytes fdt p len in Inr (cell64 reg 0, cell64 reg 1))"

definition fdtutil_read_u64 :: "string \<Rightarrow> int \<Rightarrow> string \<Rightarrow> u64 res" where
  "fdtutil_read_u64 fdt node name =
     (case fdt_getprop fdt node name of
        Inl e \<Rightarrow> Inl EINVAL
      | Inr (p, len) \<Rightarrow> if len \<noteq> 8 then Inl EINVAL else Inr (fdt64_to_cpu (prop_bytes fdt p len)))"

definition fdtutil_read_cpulist :: "alloc \<Rightarrow> string \<Rightarrow> int \<Rightarrow> string \<Rightarrow> cpulist res" where
  "fdtutil_read_cpulist ok fdt node name =
     (case fdt_getprop fdt node name of
        Inl e \<Rightarrow> Inl ENOENT
      | Inr (p, len) \<Rightarrow> fdtutil_cells_to_cpulist ok (prop_bytes fdt p len))"

definition dt_read_memory_granule :: "string \<Rightarrow> u64 res" where
  "dt_read_memory_granule fdt =
     (if fdtutil_check fdt \<noteq> None then Inl EINVAL else fdtutil_read_u64 fdt 0 ''memory-granule'')"

text \<open>lib/memblock.c: the granule the kernel publishes, if it is a power of two, else its memory block size.\<close>

definition memory_granule :: "'w sys \<Rightarrow> 'w \<Rightarrow> string \<Rightarrow> string \<Rightarrow> u64 res" where
  "memory_granule sys w root block_size_path =
     (let published = (case mkfs_read_root_tree sys root w of
            Inl e \<Rightarrow> Inl e
          | Inr tree \<Rightarrow> if tree \<noteq> [] then dt_read_memory_granule tree else Inl ENOENT)
      in case published of
           Inr g \<Rightarrow> if g \<noteq> 0 \<and> and g (g - 1) = 0 then Inr g else memblock_size sys w block_size_path
         | Inl e \<Rightarrow> memblock_size sys w block_size_path)"

section \<open>The pool\<close>

record pool_view =
  pv_free_cpus :: cpulist
  pv_total_bytes :: u64
  pv_free_bytes :: u64
  pv_devices :: strlist
  pv_platform_devices :: strlist

definition pool_view_zero :: pool_view where
  "pool_view_zero = \<lparr>pv_free_cpus = \<lparr>cl_ids = []\<rparr>, pv_total_bytes = 0, pv_free_bytes = 0,
     pv_devices = \<lparr>sl_items = []\<rparr>, pv_platform_devices = \<lparr>sl_items = []\<rparr>\<rparr>"

definition pool_view_free :: "pool_view \<Rightarrow> pool_view" where
  "pool_view_free v = v\<lparr>pv_free_cpus := cpulist_free (pv_free_cpus v), pv_devices := strlist_free (pv_devices v),
     pv_platform_devices := strlist_free (pv_platform_devices v)\<rparr>"

definition sum_chunks :: "string \<Rightarrow> int \<Rightarrow> u64" where
  "sum_chunks fdt resources =
     foldl (\<lambda>total node.
       case fdt_get_name fdt node of
         None \<Rightarrow> total
       | Some name \<Rightarrow>
           if take 7 name = ''memory@'' then
             (case fdtutil_read_reg fdt node of Inl e \<Rightarrow> total | Inr (base, sz) \<Rightarrow> total + sz)
           else total) 0 (fdt_for_each_subnode fdt resources)"

definition sum_instance_memory :: "string \<Rightarrow> u64" where
  "sum_instance_memory fdt =
     (let instances = fdt_path_offset fdt INSTANCES_PATH in
      if instances < 0 then 0
      else foldl (\<lambda>total node.
        let res = fdt_subnode_offset fdt node ''resources'' in
        if res \<ge> 0 then
          (case fdtutil_read_u64 fdt res ''memory-bytes'' of Inl e \<Rightarrow> total | Inr bytes \<Rightarrow> total + bytes)
        else total) 0 (fdt_for_each_subnode fdt instances))"

definition strlist_push :: "alloc \<Rightarrow> string \<Rightarrow> strlist \<Rightarrow> rc \<times> strlist" where
  "strlist_push ok s l =
     (if \<not> ok ((length (sl_items l) + 1) * 8) then (Some ENOMEM, l)
      else if \<not> ok (length s + 1) then (Some ENOMEM, l)
      else (None, l\<lparr>sl_items := sl_items l @ [s]\<rparr>))"

definition pci_reg_id :: "nat \<Rightarrow> nat \<Rightarrow> string" where
  "pci_reg_id domain hi = snd (snprintf 16
     (zpad 4 (hex domain) @ '':'' @ zpad 2 (hex (hi div 2 ^ 16 mod 2 ^ 8)) @ '':'' @
      zpad 2 (hex (hi div 2 ^ 11 mod 2 ^ 5)) @ ''.'' @ hex (hi div 2 ^ 8 mod 2 ^ 3)))"

definition collect_pci_functions :: "alloc \<Rightarrow> string \<Rightarrow> int \<Rightarrow> strlist \<Rightarrow> rc \<times> strlist" where
  "collect_pci_functions ok fdt bridge =
     (let domain = (case fdt_getprop fdt bridge ''linux,pci-domain'' of Inl e \<Rightarrow> 0 | Inr (p, len) \<Rightarrow> nat (fdt32_ld fdt p)) in
      fold_rc (\<lambda>node out.
        case fdt_getprop fdt node ''vendor-id'' of
          Inl e \<Rightarrow> (None, out)
        | Inr _ \<Rightarrow>
            (case fdt_getprop fdt node ''reg'' of
               Inl e \<Rightarrow> (Some EINVAL, out)
             | Inr (p, len) \<Rightarrow>
                 if len < 4 then (Some EINVAL, out)
                 else strlist_push ok (pci_reg_id domain (nat (fdt32_ld fdt p))) out))
        (fdt_for_each_subnode fdt bridge))"

definition PCI_HOST_BRIDGE_COMPATIBLE :: string where
  "PCI_HOST_BRIDGE_COMPATIBLE = ''multikernel,pci-host-bridge''"

definition collect_pool_pci :: "alloc \<Rightarrow> string \<Rightarrow> strlist \<Rightarrow> rc \<times> strlist" where
  "collect_pool_pci ok fdt =
     fold_rc (\<lambda>node out.
       if fdt_node_check_compatible fdt node PCI_HOST_BRIDGE_COMPATIBLE \<noteq> 0 then (None, out)
       else collect_pci_functions ok fdt node out) (fdt_for_each_subnode fdt 0)"

definition collect_platform_devices :: "alloc \<Rightarrow> string \<Rightarrow> int \<Rightarrow> strlist \<Rightarrow> rc \<times> strlist" where
  "collect_platform_devices ok fdt resources out =
     (let devices = fdt_subnode_offset fdt resources ''devices'' in
      if devices < 0 then (None, out)
      else fold_rc (\<lambda>node out.
        case fdt_getprop fdt node ''device-type'' of
          Inl e \<Rightarrow> (None, out)
        | Inr (p, len) \<Rightarrow>
            if cstr (drop p fdt) \<noteq> ''platform'' then (None, out)
            else
              (case fdt_getprop fdt node ''device-name'' of
                 Inr (p, len) \<Rightarrow> strlist_push ok (cstr (drop p fdt)) out
               | Inl e \<Rightarrow> (case fdt_get_name fdt node of
                   None \<Rightarrow> (None, out) | Some name \<Rightarrow> strlist_push ok name out)))
        (fdt_for_each_subnode fdt devices) out)"

definition dt_read_pool :: "alloc \<Rightarrow> string \<Rightarrow> rc \<times> pool_view" where
  "dt_read_pool ok fdt =
     (let v = pool_view_zero; resources = fdt_path_offset fdt ''/resources'' in
      if fdtutil_check fdt \<noteq> None then (Some EINVAL, v)
      else if resources < 0 then (Some ENOENT, v)
      else
        let (r, v) = (case fdtutil_read_cpulist ok fdt resources ''cpus-available'' of
               Inr l \<Rightarrow> (None, v\<lparr>pv_free_cpus := l\<rparr>)
             | Inl e \<Rightarrow> (if e = ENOENT then None else Some e, v))
        in if r \<noteq> None then (r, v)
        else
          let v = v\<lparr>pv_total_bytes := sum_chunks fdt resources\<rparr> in
          if pv_total_bytes v = 0 then (Some ENOENT, pool_view_free v)
          else
            let used = sum_instance_memory fdt;
                v = v\<lparr>pv_free_bytes := if used < pv_total_bytes v then pv_total_bytes v - used else 0\<rparr>;
                (r, l) = collect_pool_pci ok fdt (pv_devices v); v = v\<lparr>pv_devices := l\<rparr>;
                (r, v) = (if r = None then
                    (let (r, l) = collect_platform_devices ok fdt resources (pv_platform_devices v)
                     in (r, v\<lparr>pv_platform_devices := l\<rparr>)) else (r, v))
            in (r, if r \<noteq> None then pool_view_free v else v))"

end
