(* ===== verification/Elfcore.thy ===== *)
theory Elfcore
  imports Ranges Sysio
begin

text \<open>
  The layout of a vmcore (lib/elfcore.c): an ELF64 core with one note segment
  and one load segment per range, byte for byte.  Fields are little endian;
  file offsets are 64-bit and wrap where the source's do.
\<close>

section \<open>Notes\<close>

definition ELFCORE_PAGE :: u64 where "ELFCORE_PAGE = 4096"

definition page_align :: "u64 \<Rightarrow> u64" where
  "page_align v = and (v + ELFCORE_PAGE - 1) (not (ELFCORE_PAGE - 1))"

definition note_align :: "nat \<Rightarrow> nat" where
  "note_align v = (v + 3) div 4 * 4"

text \<open>
  The loop of \<open>elfcore_notes_len\<close>.  A record's length is below \<open>2 ^ 34\<close>, so
  the \<open>size_t\<close> sums do not wrap.
\<close>

function notes_len_loop :: "string \<Rightarrow> nat \<Rightarrow> nat" where
  "notes_len_loop buf off =
     (if off + 12 > length buf then off
      else
        let namesz = le_at buf off 4; descsz = le_at buf (off + 4) 4;
            r = 12 + note_align namesz + note_align descsz
        in if namesz = 0 \<and> descsz = 0 then off
           else if off + r > length buf then off
           else notes_len_loop buf (off + r))"
  by pat_completeness auto
termination
  by (relation "measure (\<lambda>(buf, off). length buf - off)") auto

declare notes_len_loop.simps [simp del]

definition elfcore_notes_len :: "string \<Rightarrow> nat" where
  "elfcore_notes_len buf = notes_len_loop buf 0"

section \<open>Headers\<close>

definition EHDR_SIZE :: nat where "EHDR_SIZE = 64"
definition PHDR_SIZE :: nat where "PHDR_SIZE = 56"

text \<open>\<open>machine\<close> is \<open>ELFCORE_MACHINE\<close>, which the build chooses.\<close>

definition fill_ehdr :: "nat \<Rightarrow> nat \<Rightarrow> string" where
  "fill_ehdr machine phnum =
     [CHR 0x7F, CHR ''E'', CHR ''L'', CHR ''F'', CHR 0x02, CHR 0x01, CHR 0x01, CHR 0x00] @
     replicate 8 (CHR 0x00) @
     le_bytes 2 4 @ le_bytes 2 machine @ le_bytes 4 1 @ le_bytes 8 0 @ le_bytes 8 EHDR_SIZE @ le_bytes 8 0 @
     le_bytes 4 0 @ le_bytes 2 EHDR_SIZE @ le_bytes 2 PHDR_SIZE @ le_bytes 2 phnum @
     le_bytes 2 0 @ le_bytes 2 0 @ le_bytes 2 0"

record phdr =
  p_type :: nat
  p_flags :: nat
  p_offset :: u64
  p_vaddr :: u64
  p_paddr :: u64
  p_filesz :: u64
  p_memsz :: u64
  p_align :: u64

definition phdr_bytes :: "phdr \<Rightarrow> string" where
  "phdr_bytes ph =
     le_bytes 4 (p_type ph) @ le_bytes 4 (p_flags ph) @ le_bytes 8 (unat (p_offset ph)) @
     le_bytes 8 (unat (p_vaddr ph)) @ le_bytes 8 (unat (p_paddr ph)) @ le_bytes 8 (unat (p_filesz ph)) @
     le_bytes 8 (unat (p_memsz ph)) @ le_bytes 8 (unat (p_align ph))"

definition PT_LOAD :: nat where "PT_LOAD = 1"
definition PT_NOTE :: nat where "PT_NOTE = 4"

record elfcore_layout =
  el_header :: string
  el_offsets :: "u64 list"
  el_total :: u64

definition note_phdr :: "u64 \<Rightarrow> u64 \<Rightarrow> phdr" where
  "note_phdr note_off notes_len =
     \<lparr>p_type = PT_NOTE, p_flags = 0, p_offset = note_off, p_vaddr = 0, p_paddr = 0,
      p_filesz = notes_len, p_memsz = notes_len, p_align = 4\<rparr>"

definition load_phdr :: "bool \<Rightarrow> u64 \<Rightarrow> range \<Rightarrow> u64 \<Rightarrow> phdr" where
  "load_phdr has_page_offset page_offset r cur =
     \<lparr>p_type = PT_LOAD, p_flags = 7, p_offset = cur,
      p_vaddr = (if has_page_offset then page_offset + r_base r else - 1), p_paddr = r_base r,
      p_filesz = r_size r, p_memsz = r_size r, p_align = ELFCORE_PAGE\<rparr>"

text \<open>The file offsets of the ranges from \<open>cur\<close> on, and the offset behind the last.\<close>

fun load_offsets :: "range list \<Rightarrow> u64 \<Rightarrow> u64 list \<times> u64" where
  "load_offsets [] cur = ([], cur)"
| "load_offsets (r # rs) cur =
     (let (offs, total) = load_offsets rs (page_align (cur + r_size r)) in (cur # offs, total))"

definition elfcore_layout_of ::
    "alloc \<Rightarrow> nat \<Rightarrow> rangeset \<Rightarrow> string list \<Rightarrow> bool \<Rightarrow> u64 \<Rightarrow> elfcore_layout res" where
  "elfcore_layout_of ok machine ranges notes has_page_offset page_offset =
     (let phnum = 1 + length (rs_r ranges);
          note_off = of_nat (EHDR_SIZE + phnum * PHDR_SIZE) :: u64;
          notes_len = of_nat (sum_list (map length notes)) :: u64;
          header_len = page_align (note_off + notes_len);
          (offs, total) = load_offsets (rs_r ranges) header_len;
          head = fill_ehdr machine phnum @ phdr_bytes (note_phdr note_off notes_len) @
            concat (map2 (\<lambda>r cur. phdr_bytes (load_phdr has_page_offset page_offset r cur)) (rs_r ranges) offs) @
            concat notes
      in if length (rs_r ranges) > 65535 - 1 then Inl E2BIG
         else if \<not> ok (unat header_len) \<or> \<not> ok ((length (rs_r ranges) + 1) * 8) then Inl ENOMEM
         else Inr \<lparr>el_header = head @ replicate (unat header_len - length head) (CHR 0x00),
                   el_offsets = offs, el_total = total\<rparr>)"

section \<open>Where the segments are\<close>

definition pages_up :: "nat \<Rightarrow> nat" where
  "pages_up n = (n + 4095) div 4096 * 4096"

lemma pages_up_bounds: "n \<le> pages_up n" "pages_up n < n + 4096" "pages_up n mod 4096 = 0"
proof -
  have "(n + 4095) div 4096 * 4096 + (n + 4095) mod 4096 = n + 4095" by (rule div_mult_mod_eq)
  moreover have "(n + 4095) mod 4096 < 4096" by simp
  ultimately show "n \<le> pages_up n" "pages_up n < n + 4096" unfolding pages_up_def by linarith+
  show "pages_up n mod 4096 = 0" by (simp add: pages_up_def)
qed

lemma pages_up_add: "c mod 4096 = 0 \<Longrightarrow> pages_up (c + n) = c + pages_up n"
proof -
  assume "c mod 4096 = 0"
  then obtain k where "c = k * 4096" by (auto simp: mod_eq_0_iff_dvd elim: dvdE)
  then show ?thesis using div_mult_self1 [of 4096 "n + 4095" k] by (simp add: pages_up_def algebra_simps)
qed

lemma page_align_up: "unat v + 4095 < 2 ^ 64 \<Longrightarrow> unat (page_align v) = pages_up (unat v)"
proof -
  assume v: "unat v + 4095 < 2 ^ 64"
  have m: "ELFCORE_PAGE - 1 = mask 12" by (simp add: ELFCORE_PAGE_def mask_eq_exp_minus_1)
  have "unat (v + 4095) = unat v + 4095" using v by (simp add: unat_add_small)
  then show ?thesis
    unfolding page_align_def m by (simp add: unat_and_not_mask pages_up_def ELFCORE_PAGE_def add.commute)
qed

text \<open>The offsets with no wrap-around: each range starts where the pages of the one before it end.\<close>

fun place :: "nat \<Rightarrow> nat list \<Rightarrow> nat list" where
  "place cur [] = []"
| "place cur (n # ns) = cur # place (cur + pages_up n) ns"

definition room :: "nat list \<Rightarrow> nat" where
  "room ns = sum_list (map pages_up ns)"

abbreviation range_sizes :: "range list \<Rightarrow> nat list" where
  "range_sizes rs \<equiv> map (\<lambda>r. unat (r_size r)) rs"

lemma page_below: "n < 2 ^ 64 \<Longrightarrow> n mod 4096 = 0 \<Longrightarrow> n + 4096 \<le> (2 ^ 64 :: nat)"
proof -
  assume n: "n < 2 ^ 64" "n mod 4096 = 0"
  then obtain k where "n = k * 4096" by (auto simp: mod_eq_0_iff_dvd elim: dvdE)
  then show ?thesis using n by simp
qed

lemma load_offsets_place:
  assumes "unat cur mod 4096 = 0" and "unat cur + room (range_sizes rs) < 2 ^ 64"
    and "load_offsets rs cur = (offs, fin)"
  shows "map unat offs = place (unat cur) (range_sizes rs) \<and> unat fin = unat cur + room (range_sizes rs)"
  using assms
proof (induction rs arbitrary: cur offs)
  case (Cons r rs)
  let ?n = "unat (r_size r)" and ?next = "page_align (cur + r_size r)"
  obtain offs' where o: "load_offsets rs ?next = (offs', fin)" "offs = cur # offs'"
    using Cons.prems(3) by (auto split: prod.splits)
  have lt: "unat cur + pages_up ?n < 2 ^ 64" using Cons.prems(2) by (simp add: room_def)
  have d: "(unat cur + pages_up ?n) mod 4096 = 0"
    using Cons.prems(1) pages_up_bounds(3) [of ?n] by (simp add: mod_add_eq [symmetric])
  have le: "unat cur + pages_up ?n + 4096 \<le> 2 ^ 64" using lt d by (intro page_below) simp_all
  then have "unat cur + ?n + 4095 < 2 ^ 64" using pages_up_bounds(1) [of ?n] by linarith
  moreover from this have "unat (cur + r_size r) = unat cur + ?n" by (simp add: unat_add_small)
  ultimately have n: "unat ?next = unat cur + pages_up ?n"
    using page_align_up [of "cur + r_size r"] Cons.prems(1) by (simp add: pages_up_add)
  then have "unat ?next mod 4096 = 0" using d by simp
  then show ?case
    using Cons.IH [OF _ _ o(1)] Cons.prems(2) n o(2) by (simp add: room_def)
qed (simp add: room_def)

lemma length_place [simp]: "length (place cur ns) = length ns"
  by (induction ns arbitrary: cur) auto

lemma place_nth: "i < length ns \<Longrightarrow> place cur ns ! i = cur + room (take i ns)"
proof (induction ns arbitrary: cur i)
  case (Cons n ns)
  then show ?case by (cases i) (auto simp: room_def)
qed simp

lemma load_offsets_length: "load_offsets rs cur = (offs, fin) \<Longrightarrow> length offs = length rs"
  by (induction rs arbitrary: cur offs) (fastforce split: prod.splits)+

section \<open>What a reader finds in the header\<close>

definition phdr_of :: "string \<Rightarrow> phdr" where
  "phdr_of s =
     \<lparr>p_type = le_at s 0 4, p_flags = le_at s 4 4, p_offset = of_nat (le_at s 8 8), p_vaddr = of_nat (le_at s 16 8),
      p_paddr = of_nat (le_at s 24 8), p_filesz = of_nat (le_at s 32 8), p_memsz = of_nat (le_at s 40 8),
      p_align = of_nat (le_at s 48 8)\<rparr>"

definition phdr_at :: "string \<Rightarrow> nat \<Rightarrow> phdr" where
  "phdr_at elf i = phdr_of (take PHDR_SIZE (drop (le_at elf 32 8 + i * PHDR_SIZE) elf))"

lemma phdr_bytes_length [simp]: "length (phdr_bytes ph) = 56"
  by (simp add: phdr_bytes_def)

lemma fill_ehdr_length [simp]: "length (fill_ehdr machine n) = 64"
  by (simp add: fill_ehdr_def)

lemma le_val_word: "of_nat (le_val (le_bytes 8 (unat (v :: u64)))) = v"
proof -
  have "unat v < 2 ^ 64" using unat_u64 by simp
  then show ?thesis by (subst le_val_bytes) simp_all
qed

lemma phdr_of_bytes: "p_type ph < 2 ^ 32 \<Longrightarrow> p_flags ph < 2 ^ 32 \<Longrightarrow> phdr_of (phdr_bytes ph) = ph"
  by (simp add: phdr_of_def phdr_bytes_def le_at_def le_val_word le_val_bytes)

lemma drop_blocks:
  "\<forall>b \<in> set bs. length b = n \<Longrightarrow> i < length bs \<Longrightarrow> take n (drop (i * n) (concat bs @ rest)) = bs ! i"
proof (induction bs arbitrary: i)
  case (Cons b bs)
  then show ?case by (cases i) auto
qed simp

lemma map2_as_map: "map2 f xs ys = map (\<lambda>(x, y). f x y) (zip xs ys)"
  by simp

lemma phdr_at_header:
  assumes "elf = fill_ehdr machine n @ concat (map phdr_bytes phs) @ rest" and "i < length phs"
    and "p_type (phs ! i) < 2 ^ 32" "p_flags (phs ! i) < 2 ^ 32"
  shows "phdr_at elf i = phs ! i"
proof -
  have "le_at elf 32 8 = 64" by (simp add: assms(1) le_at_def fill_ehdr_def EHDR_SIZE_def le_val_bytes)
  then have "take PHDR_SIZE (drop (le_at elf 32 8 + i * PHDR_SIZE) elf) =
      take 56 (drop (i * 56) (concat (map phdr_bytes phs) @ rest))"
    by (simp add: assms(1) PHDR_SIZE_def)
  also have "\<dots> = phdr_bytes (phs ! i)" using assms(2) drop_blocks [of "map phdr_bytes phs" 56 i rest] by simp
  finally show ?thesis using assms(3,4) by (simp add: phdr_at_def phdr_of_bytes)
qed

section \<open>The layout\<close>

definition header_size :: "rangeset \<Rightarrow> string list \<Rightarrow> nat" where
  "header_size ranges notes =
     pages_up (EHDR_SIZE + (1 + length (rs_r ranges)) * PHDR_SIZE + sum_list (map length notes))"

text \<open>The file fits in 64-bit offsets.\<close>

definition layout_fits :: "rangeset \<Rightarrow> string list \<Rightarrow> bool" where
  "layout_fits ranges notes = (header_size ranges notes + room (range_sizes (rs_r ranges)) < 2 ^ 64)"

lemma elfcore_layout_result:
  assumes "elfcore_layout_of ok machine ranges notes hp po = Inr l" and "layout_fits ranges notes"
  shows "length (el_header l) = header_size ranges notes \<and>
    map unat (el_offsets l) = place (header_size ranges notes) (range_sizes (rs_r ranges)) \<and>
    unat (el_total l) = header_size ranges notes + room (range_sizes (rs_r ranges)) \<and>
    (\<exists>nph rest. p_type nph = PT_NOTE \<and> p_flags nph = 0 \<and>
       unat (p_offset nph) = EHDR_SIZE + (1 + length (rs_r ranges)) * PHDR_SIZE \<and>
       unat (p_filesz nph) = sum_list (map length notes) \<and>
       el_header l = fill_ehdr machine (1 + length (rs_r ranges)) @
         concat (map phdr_bytes (nph # map2 (load_phdr hp po) (rs_r ranges) (el_offsets l))) @ concat notes @ rest)"
proof -
  let ?rs = "rs_r ranges" and ?n = "length (rs_r ranges)"
  let ?raw = "EHDR_SIZE + (1 + ?n) * PHDR_SIZE + sum_list (map length notes)"
  let ?no = "of_nat (EHDR_SIZE + (1 + ?n) * PHDR_SIZE) :: u64" and ?nl = "of_nat (sum_list (map length notes)) :: u64"
  let ?h = "page_align (?no + ?nl)"
  obtain offs fin where o: "load_offsets ?rs ?h = (offs, fin)" by fastforce
  have raw: "?raw + 4095 < 2 ^ 64"
  proof -
    have "pages_up ?raw + 4096 \<le> 2 ^ 64"
      using assms(2) pages_up_bounds(3) by (intro page_below) (auto simp: layout_fits_def header_size_def)
    then show ?thesis using pages_up_bounds(1) [of ?raw] by linarith
  qed
  have "unat (?no + ?nl) = ?raw"
    using raw by (simp only: of_nat_add [symmetric] unat_of_nat) (simp add: take_bit_eq_mod)
  then have h: "unat ?h = header_size ranges notes" using page_align_up [of "?no + ?nl"] raw by (simp add: header_size_def)
  have p: "map unat offs = place (unat ?h) (range_sizes ?rs) \<and> unat fin = unat ?h + room (range_sizes ?rs)"
  proof (rule load_offsets_place [OF _ _ o])
    show "unat ?h mod 4096 = 0" unfolding h header_size_def by (rule pages_up_bounds)
    show "unat ?h + room (range_sizes ?rs) < 2 ^ 64" unfolding h using assms(2) by (simp only: layout_fits_def)
  qed
  let ?head = "fill_ehdr machine (1 + ?n) @ phdr_bytes (note_phdr ?no ?nl) @
     concat (map2 (\<lambda>r cur. phdr_bytes (load_phdr hp po r cur)) ?rs offs) @ concat notes"
  have l: "l = \<lparr>el_header = ?head @ replicate (unat ?h - length ?head) (CHR 0x00), el_offsets = offs, el_total = fin\<rparr>"
    using assms(1) unfolding elfcore_layout_of_def Let_def o prod.case
    by (simp only: sum.inject sum.distinct split: if_splits)
  have "length ?head = ?raw"
    using load_offsets_length [OF o]
    by (simp add: length_concat EHDR_SIZE_def PHDR_SIZE_def comp_def case_prod_unfold sum_list_triv)
  then have "length (el_header l) = header_size ranges notes"
    using h pages_up_bounds(1) [of ?raw] by (simp add: l header_size_def)
  moreover obtain rest where "el_header l = fill_ehdr machine (1 + ?n) @
      concat (map phdr_bytes (note_phdr ?no ?nl # map2 (load_phdr hp po) ?rs offs)) @ concat notes @ rest"
    by (simp add: l comp_def case_prod_unfold)
  moreover have "unat (p_offset (note_phdr ?no ?nl)) = EHDR_SIZE + (1 + ?n) * PHDR_SIZE"
      "unat (p_filesz (note_phdr ?no ?nl)) = sum_list (map length notes)"
    using raw by (simp_all only: note_phdr_def phdr.simps unat_of_nat) (simp_all add: take_bit_eq_mod)
  moreover have "el_offsets l = offs" "el_total l = fin" by (simp_all add: l)
  moreover have "p_type (note_phdr ?no ?nl) = PT_NOTE" "p_flags (note_phdr ?no ?nl) = 0" by (simp_all add: note_phdr_def)
  ultimately show ?thesis using p unfolding h by blast
qed

lemma room_split: "i < length ns \<Longrightarrow> room (take i ns) + pages_up (ns ! i) = room (take (Suc i) ns)"
  by (simp add: room_def take_Suc_conv_app_nth)

lemma room_take_le: "room (take i ns) \<le> room ns"
  using append_take_drop_id [of i ns] by (metis le_add1 map_append room_def sum_list_append)

lemma room_mod: "room ns mod 4096 = 0"
  by (induction ns) (auto simp: room_def pages_up_bounds(3) mod_add_eq [symmetric])

text \<open>C22: the header of a dump describes it: program header \<open>i + 1\<close> carries the address and the size of
  range \<open>i\<close> and the offset its bytes are written to; the offsets are page aligned, behind the header, in
  order, and no segment reaches into the next one or past the end of the file.\<close>

theorem elfcore_layout_segments:
  assumes "elfcore_layout_of ok machine ranges notes hp po = Inr l" and "layout_fits ranges notes"
  shows "length (el_header l) mod 4096 = 0 \<and> length (el_offsets l) = length (rs_r ranges) \<and>
    (\<forall>i < length (rs_r ranges).
       let ph = phdr_at (el_header l) (Suc i); r = rs_r ranges ! i in
       p_type ph = PT_LOAD \<and> p_paddr ph = r_base r \<and> p_filesz ph = r_size r \<and>
       p_vaddr ph = (if hp then po + r_base r else - 1) \<and> p_offset ph = el_offsets l ! i \<and>
       unat (p_offset ph) mod 4096 = 0 \<and> length (el_header l) \<le> unat (p_offset ph) \<and>
       unat (p_offset ph) + unat (r_size r) \<le>
         (if Suc i < length (rs_r ranges) then unat (el_offsets l ! Suc i) else unat (el_total l)))"
proof -
  let ?rs = "rs_r ranges" and ?h = "header_size ranges notes" and ?ns = "range_sizes (rs_r ranges)"
  obtain nph rest where h: "length (el_header l) = ?h" and o: "map unat (el_offsets l) = place ?h ?ns"
      and t: "unat (el_total l) = ?h + room ?ns" and n: "p_type nph = PT_NOTE" "p_flags nph = 0"
      and e: "el_header l = fill_ehdr machine (1 + length ?rs) @
         concat (map phdr_bytes (nph # map2 (load_phdr hp po) ?rs (el_offsets l))) @ rest"
    using elfcore_layout_result [OF assms] by blast
  have len: "length (el_offsets l) = length ?rs" using o by (metis length_map length_place)
  have hm: "?h mod 4096 = 0" unfolding header_size_def by (rule pages_up_bounds)
  have off: "unat (el_offsets l ! i) = ?h + room (take i ?ns)" if "i < length ?rs" for i
    using that o len place_nth [of i ?ns ?h] by (metis length_map nth_map)
  have ph: "phdr_at (el_header l) (Suc i) = load_phdr hp po (?rs ! i) (el_offsets l ! i)" if "i < length ?rs" for i
    using phdr_at_header [OF e, of "Suc i"] that len by (simp add: load_phdr_def PT_LOAD_def)
  have fit: "unat (el_offsets l ! i) + unat (r_size (?rs ! i)) \<le>
      (if Suc i < length ?rs then unat (el_offsets l ! Suc i) else unat (el_total l))" if i: "i < length ?rs" for i
  proof -
    have "room (take i ?ns) + unat (r_size (?rs ! i)) \<le> room (take (Suc i) ?ns)"
      using room_split [of i ?ns] pages_up_bounds(1) [of "unat (r_size (?rs ! i))"] i by simp
    then show ?thesis using off [OF i] off [of "Suc i"] t room_take_le [of "Suc i" ?ns] by auto
  qed
  have m: "unat (el_offsets l ! i) mod 4096 = 0" if "i < length ?rs" for i
    using off [OF that] hm room_mod by (simp add: mod_add_eq [symmetric])
  show ?thesis
    using h hm len ph fit m off by (simp add: Let_def load_phdr_def)
qed

theorem elfcore_layout_segments_witness:
  "let ranges = \<lparr>rs_r = [\<lparr>r_base = 0x1000, r_size = 0x1800\<rparr>, \<lparr>r_base = 0x8000, r_size = 0x2000\<rparr>], rs_cap = 2\<rparr> in
   (\<exists>l. elfcore_layout_of always 62 ranges [''note''] True 0x100000 = Inr l) \<and>
   (\<forall>l. elfcore_layout_of always 62 ranges [''note''] True 0x100000 = Inr l \<longrightarrow>
      p_paddr (phdr_at (el_header l) 2) = 0x8000 \<and> unat (p_offset (phdr_at (el_header l) 2)) mod 4096 = 0)"
proof -
  let ?rs = "\<lparr>rs_r = [\<lparr>r_base = 0x1000, r_size = 0x1800\<rparr>, \<lparr>r_base = 0x8000, r_size = 0x2000\<rparr>], rs_cap = 2\<rparr>"
  have f: "layout_fits ?rs [''note'']"
    by (simp add: layout_fits_def header_size_def room_def pages_up_def EHDR_SIZE_def PHDR_SIZE_def)
  have ex: "\<exists>l. elfcore_layout_of always 62 ?rs [''note''] True 0x100000 = Inr l"
    by (simp add: elfcore_layout_of_def Let_def always_def case_prod_unfold)
  have "p_paddr (phdr_at (el_header l) 2) = 0x8000 \<and> unat (p_offset (phdr_at (el_header l) 2)) mod 4096 = 0"
    if "elfcore_layout_of always 62 ?rs [''note''] True 0x100000 = Inr l" for l
    using elfcore_layout_segments [OF that f, THEN conjunct2, THEN conjunct2, rule_format, of 1]
    by (simp only: Let_def Suc_1) force
  with ex show ?thesis by (simp only: Let_def) blast
qed

end
