(* ===== verification/Dump.thy ===== *)
theory Dump
  imports Elfcore Dt
begin

text \<open>
  Writing the predecessor's memory as a vmcore (lib/dump.c).  The source is
  mapped memory, the sink a file with the results of the next write calls:
  errors, interruptions, short writes.  A regular file is written at offsets
  and keeps holes for zero pages, any other output is written in order.
\<close>

section \<open>The source\<close>

record source_env =
  se_open :: rc
  se_fstat :: rc
  se_regular :: bool
  se_size :: u64
  se_mmap :: "u64 \<Rightarrow> nat \<Rightarrow> rc"
  se_mem :: "u64 \<Rightarrow> char"

record source =
  src_limit :: u64
  src_mmap :: "u64 \<Rightarrow> nat \<Rightarrow> rc"
  src_mem :: "u64 \<Rightarrow> char"

definition source_open :: "source_env \<Rightarrow> source res" where
  "source_open e =
     (case se_open e of Some er \<Rightarrow> Inl er | None \<Rightarrow>
      (case se_fstat e of Some er \<Rightarrow> Inl er | None \<Rightarrow>
       Inr \<lparr>src_limit = (if se_regular e then se_size e else - 1), src_mmap = se_mmap e, src_mem = se_mem e\<rparr>))"

definition mem_bytes :: "(u64 \<Rightarrow> char) \<Rightarrow> u64 \<Rightarrow> nat \<Rightarrow> string" where
  "mem_bytes mem base n = map (\<lambda>i. mem (base + of_nat i)) [0 ..< n]"

definition source_read :: "source \<Rightarrow> nat \<Rightarrow> u64 \<Rightarrow> string res" where
  "source_read src len off =
     (let start = and off (not (ELFCORE_PAGE - 1)); maplen = unat (off - start) + len in
      if off > src_limit src \<or> of_nat len > src_limit src - off then Inl EIO
      else case src_mmap src start maplen of
        Some e \<Rightarrow> Inl e
      | None \<Rightarrow> Inr (drop (unat (off - start)) (mem_bytes (src_mem src) start maplen)))"

section \<open>The sink\<close>

record sink =
  sk_seekable :: bool
  sk_pos :: u64
  sk_data :: string
  sk_evs :: "io_event list"

definition overwrite :: "string \<Rightarrow> nat \<Rightarrow> string \<Rightarrow> string" where
  "overwrite d off bs = take off d @ replicate (off - length d) (CHR 0x00) @ bs @ drop (off + length bs) d"

text \<open>What one \<open>pwrite\<close> or \<open>write\<close> of all of \<open>bs\<close> does to the file.\<close>

definition put_bytes :: "string \<Rightarrow> u64 \<Rightarrow> sink \<Rightarrow> sink" where
  "put_bytes bs off s =
     s\<lparr>sk_data := if sk_seekable s then overwrite (sk_data s) (unat off) bs else sk_data s @ bs\<rparr>"

function write_all :: "sink \<Rightarrow> string \<Rightarrow> u64 \<Rightarrow> rc \<times> sink" where
  "write_all s buf off =
     (if buf = [] then (None, s)
      else case sk_evs s of
        Io_error e # evs \<Rightarrow>
          let s = s\<lparr>sk_evs := evs\<rparr> in if e = EINTR then write_all s buf off else (Some e, s)
      | Io_moves k # evs \<Rightarrow>
          let s = s\<lparr>sk_evs := evs\<rparr>; n = min k (length buf) in
          if n = 0 then (Some EIO, s)
          else write_all (put_bytes (take n buf) off s) (drop n buf) (off + of_nat n)
      | [] \<Rightarrow> (None, put_bytes buf off s))"
  by pat_completeness auto
termination
  by (relation "measure (\<lambda>(s, buf, off). length (sk_evs s))") (auto simp: put_bytes_def)

declare write_all.simps [simp del]

lemma write_all_eqs:
  "write_all s [] off = (None, s)"
  "sk_evs s = [] \<Longrightarrow> buf \<noteq> [] \<Longrightarrow> write_all s buf off = (None, put_bytes buf off s)"
  "sk_evs s = Io_error e # evs \<Longrightarrow> buf \<noteq> [] \<Longrightarrow>
     write_all s buf off = (if e = EINTR then write_all (s\<lparr>sk_evs := evs\<rparr>) buf off else (Some e, s\<lparr>sk_evs := evs\<rparr>))"
  "sk_evs s = Io_moves k # evs \<Longrightarrow> buf \<noteq> [] \<Longrightarrow>
     write_all s buf off = (if k = 0 then (Some EIO, s\<lparr>sk_evs := evs\<rparr>)
       else write_all (put_bytes (take k buf) off (s\<lparr>sk_evs := evs\<rparr>)) (drop k buf) (off + of_nat (min k (length buf))))"
  by (subst write_all.simps; simp add: Let_def min_def)+

lemma put_bytes_frame [simp]:
  "sk_pos (put_bytes bs off s) = sk_pos s" "sk_seekable (put_bytes bs off s) = sk_seekable s"
  "sk_evs (put_bytes bs off s) = sk_evs s"
  by (simp_all add: put_bytes_def)

lemma write_all_cases:
  obtains "buf = []" | "sk_evs s = []" "buf \<noteq> []" | e evs where "sk_evs s = Io_error e # evs" "buf \<noteq> []"
    | k evs where "sk_evs s = Io_moves k # evs" "buf \<noteq> []"
  by (metis io_event.exhaust list.exhaust)

lemma write_all_frame:
  "write_all s buf off = (r, s') \<Longrightarrow> sk_pos s' = sk_pos s \<and> sk_seekable s' = sk_seekable s"
proof (induction "length (sk_evs s)" arbitrary: s buf off)
  case 0
  then show ?case by (cases "buf = []") (auto simp: write_all_eqs)
next
  case (Suc n)
  show ?case
  proof (cases rule: write_all_cases [where buf = buf and s = s])
    case (3 e evs)
    then show ?thesis
      using Suc.prems Suc.hyps(1) [of "s\<lparr>sk_evs := evs\<rparr>"] Suc.hyps(2) by (auto simp: write_all_eqs split: if_splits)
  next
    case (4 k evs)
    then show ?thesis
      using Suc.prems Suc.hyps(1) [of "put_bytes (take k buf) off (s\<lparr>sk_evs := evs\<rparr>)"] Suc.hyps(2)
      by (auto simp: write_all_eqs split: if_splits)
  qed (use Suc.prems in \<open>auto simp: write_all_eqs\<close>)
qed

text \<open>The loop of \<open>sink_write\<close> that fills the gap before \<open>off\<close>, a zero page at a time.\<close>

function fill_gap :: "sink \<Rightarrow> u64 \<Rightarrow> rc \<times> sink" where
  "fill_gap s off =
     (if sk_pos s < off then
        let gap = (if off - sk_pos s < ELFCORE_PAGE then off - sk_pos s else ELFCORE_PAGE) in
        case write_all s (replicate (unat gap) (CHR 0x00)) 0 of
          (Some e, s) \<Rightarrow> (Some e, s)
        | (None, s) \<Rightarrow> fill_gap (s\<lparr>sk_pos := sk_pos s + gap\<rparr>) off
      else (None, s))"
  by pat_completeness auto
termination
proof (relation "measure (\<lambda>(s, off). unat (off - sk_pos s))")
  fix s s' :: sink and off gap :: u64 and r
  assume p: "sk_pos s < off" and g: "gap = (if off - sk_pos s < ELFCORE_PAGE then off - sk_pos s else ELFCORE_PAGE)"
    and x: "(r, s') = write_all s (replicate (unat gap) (CHR 0x00)) 0" and n: "r = None"
  have s': "sk_pos s' = sk_pos s" using write_all_frame [of s _ 0 r s'] x by metis
  have "off - sk_pos s \<noteq> 0" using p by auto
  then have "gap \<le> off - sk_pos s" "0 < gap" unfolding word_neq_0_conv by (auto simp: g ELFCORE_PAGE_def not_less)
  then have "off - sk_pos s - gap < off - sk_pos s" by uint_arith
  then show "((s'\<lparr>sk_pos := sk_pos s' + gap\<rparr>, off), s, off) \<in> measure (\<lambda>(s, off). unat (off - sk_pos s))"
    by (simp add: s' word_less_nat_alt [symmetric] algebra_simps)
qed simp

declare fill_gap.simps [simp del]

definition sink_write :: "sink \<Rightarrow> string \<Rightarrow> u64 \<Rightarrow> rc \<times> sink" where
  "sink_write s buf off =
     (if \<not> sk_seekable s then
        (case fill_gap s off of
           (Some e, s) \<Rightarrow> (Some e, s)
         | (None, s) \<Rightarrow> write_all (s\<lparr>sk_pos := sk_pos s + of_nat (length buf)\<rparr>) buf off)
      else write_all s buf off)"

section \<open>Copying\<close>

abbreviation zero_page :: string where
  "zero_page \<equiv> replicate 4096 (CHR 0x00)"

text \<open>The loop of \<open>write_chunk\<close>: pages before \<open>start\<close> are settled, those up to \<open>i\<close> are a run to write.\<close>

function chunk_loop :: "sink \<Rightarrow> string \<Rightarrow> u64 \<Rightarrow> nat \<Rightarrow> nat \<Rightarrow> rc \<times> sink" where
  "chunk_loop s buf off i start =
     (if i < length buf then
        let page = (if length buf - i < 4096 then length buf - i else 4096);
            zero = (page = 4096 \<and> take 4096 (drop i buf) = zero_page);
            start' = (if zero then i + page else start)
        in if zero \<and> i > start then
             (case sink_write s (take (i - start) (drop start buf)) (off + of_nat start) of
                (Some e, s) \<Rightarrow> (Some e, s)
              | (None, s) \<Rightarrow> chunk_loop s buf off (i + 4096) start')
           else chunk_loop s buf off (i + 4096) start'
      else if start < length buf then sink_write s (drop start buf) (off + of_nat start)
      else (None, s))"
  by pat_completeness auto
termination
  by (relation "measure (\<lambda>(s, buf, off, i, start). length buf - i)") auto

declare chunk_loop.simps [simp del]

definition write_chunk :: "sink \<Rightarrow> string \<Rightarrow> u64 \<Rightarrow> rc \<times> sink" where
  "write_chunk s buf off =
     (if \<not> sk_seekable s then sink_write s buf off else chunk_loop s buf off 0 0)"

definition DUMP_CHUNK :: u64 where "DUMP_CHUNK = 0x100000"

function copy_range :: "source \<Rightarrow> sink \<Rightarrow> u64 \<Rightarrow> u64 \<Rightarrow> u64 \<Rightarrow> rc \<times> sink" where
  "copy_range src s base sz off =
     (if sz = 0 then (None, s)
      else
        let want = (if sz < DUMP_CHUNK then sz else DUMP_CHUNK) in
        case source_read src (unat want) base of
          Inl e \<Rightarrow> (Some e, s)
        | Inr buf \<Rightarrow>
            (case write_chunk s buf off of
               (Some e, s) \<Rightarrow> (Some e, s)
             | (None, s) \<Rightarrow> copy_range src s (base + want) (sz - want) (off + want)))"
  by pat_completeness auto
termination
proof (relation "measure (\<lambda>(src, s, base, sz, off). unat sz)")
  fix src :: source and s s' :: sink and base sz off want :: u64
  assume "sz \<noteq> 0" and w: "want = (if sz < DUMP_CHUNK then sz else DUMP_CHUNK)"
  then have "0 < want" "want \<le> sz" unfolding word_neq_0_conv by (auto simp: DUMP_CHUNK_def)
  then have "sz - want < sz" by uint_arith
  then show "((src, s', base + want, sz - want, off + want), src, s, base, sz, off)
      \<in> measure (\<lambda>(src, s, base, sz, off). unat sz)"
    by (simp add: word_less_nat_alt)
qed simp

declare copy_range.simps [simp del]

section \<open>Notes\<close>

definition DUMP_NOTE_MAX :: u64 where "DUMP_NOTE_MAX = 0x100000"

definition read_note :: "alloc \<Rightarrow> source \<Rightarrow> range \<Rightarrow> string res" where
  "read_note ok src r =
     (if r_size r = 0 \<or> r_size r > DUMP_NOTE_MAX then Inr []
      else if \<not> ok (unat (r_size r)) then Inl ENOMEM
      else case source_read src (unat (r_size r)) (r_base r) of
        Inl e \<Rightarrow> Inr []
      | Inr buf \<Rightarrow> Inr (take (elfcore_notes_len buf) buf))"

record dump_stats =
  ds_cpu_notes :: nat
  ds_vmcoreinfo :: bool

definition note_step :: "alloc \<Rightarrow> source \<Rightarrow> range \<Rightarrow> string list \<Rightarrow> rc \<times> string list" where
  "note_step ok src r notes =
     (case read_note ok src r of
        Inl e \<Rightarrow> (Some e, notes)
      | Inr n \<Rightarrow> (None, if n \<noteq> [] then notes @ [n] else notes))"

definition collect_notes :: "alloc \<Rightarrow> source \<Rightarrow> vmcore_info \<Rightarrow> string list res \<times> dump_stats" where
  "collect_notes ok src vi =
     (let st = \<lparr>ds_cpu_notes = 0, ds_vmcoreinfo = False\<rparr>; cpus = rl_r (vi_cpu_notes vi) in
      if \<not> ok ((length cpus + 1) * 16) then (Inl ENOMEM, st)
      else case fold_rc (note_step ok src) cpus [] of
        (Some e, _) \<Rightarrow> (Inl e, st)
      | (None, notes) \<Rightarrow>
          let st = st\<lparr>ds_cpu_notes := length notes\<rparr> in
          case read_note ok src (vi_vmcoreinfo vi) of
            Inl e \<Rightarrow> (Inl e, st)
          | Inr n \<Rightarrow> if n \<noteq> [] then (Inr (notes @ [n]), st\<lparr>ds_vmcoreinfo := True\<rparr>) else (Inr notes, st))"

section \<open>The dump\<close>

text \<open>How the output opens, and the results of the calls on it that are not writes.\<close>

record sink_env =
  ke_open :: rc
  ke_fstat :: rc
  ke_regular :: bool
  ke_truncate :: rc
  ke_fsync :: rc
  ke_close :: rc
  ke_evs :: "io_event list"

definition open_sink :: "sink_env \<Rightarrow> u64 \<Rightarrow> sink res" where
  "open_sink e n =
     (case ke_open e of Some er \<Rightarrow> Inl er | None \<Rightarrow>
      (case ke_fstat e of Some er \<Rightarrow> Inl er | None \<Rightarrow>
        let s = \<lparr>sk_seekable = ke_regular e, sk_pos = 0, sk_data = [], sk_evs = ke_evs e\<rparr> in
        if sk_seekable s then
          (case ke_truncate e of
             Some er \<Rightarrow> Inl er
           | None \<Rightarrow> Inr (s\<lparr>sk_data := replicate (unat n) (CHR 0x00)\<rparr>))
        else Inr s))"

definition write_dump :: "source \<Rightarrow> rangeset \<Rightarrow> elfcore_layout \<Rightarrow> sink \<Rightarrow> rc \<times> sink" where
  "write_dump src ranges l s = try_all
     [\<lambda>s. sink_write s (el_header l) 0,
      fold_rc (\<lambda>(r, off) s. copy_range src s (r_base r) (r_size r) off) (zip (rs_r ranges) (el_offsets l)),
      \<lambda>s. if \<not> sk_seekable s \<and> sk_pos s < el_total l then sink_write s [] (el_total l) else (None, s)] s"

text \<open>The return code, the statistics, and the output if it was opened.\<close>

definition dump_vmcore ::
    "alloc \<Rightarrow> nat \<Rightarrow> source_env \<Rightarrow> rangeset \<Rightarrow> vmcore_info \<Rightarrow> sink_env \<Rightarrow> rc \<times> dump_stats \<times> sink option" where
  "dump_vmcore ok machine senv ranges vi kenv =
     (case source_open senv of
        Inl e \<Rightarrow> (Some e, \<lparr>ds_cpu_notes = 0, ds_vmcoreinfo = False\<rparr>, None)
      | Inr src \<Rightarrow>
          (case collect_notes ok src vi of
             (Inl e, st) \<Rightarrow> (Some e, st, None)
           | (Inr notes, st) \<Rightarrow>
               (case elfcore_layout_of ok machine ranges notes (vi_has_page_offset vi) (vi_page_offset vi) of
                  Inl e \<Rightarrow> (Some e, st, None)
                | Inr l \<Rightarrow>
                    (case open_sink kenv (el_total l) of
                       Inl e \<Rightarrow> (Some e, st, None)
                     | Inr s \<Rightarrow>
                         if \<not> ok (unat DUMP_CHUNK) then (Some ENOMEM, st, Some s)
                         else
                           let (r, s) = write_dump src ranges l s;
                               r = (if r = None \<and> sk_seekable s then ke_fsync kenv else r);
                               r = (if r = None then ke_close kenv else r)
                           in (r, st, Some s)))))"

section \<open>What is written\<close>

lemma overwrite_in: "off + length b \<le> length d \<Longrightarrow> overwrite d off b = take off d @ b @ drop (off + length b) d"
  by (simp add: overwrite_def)

lemma length_overwrite [simp]: "off + length b \<le> length d \<Longrightarrow> length (overwrite d off b) = length d"
  by (simp add: overwrite_in)

lemma overwrite_split:
  "off + length b \<le> length d \<Longrightarrow> k \<le> length b \<Longrightarrow>
   overwrite (overwrite d off (take k b)) (off + k) (drop k b) = overwrite d off b"
  by (simp add: overwrite_in min_def add.commute)

lemma overwrite_append:
  "off + length a + length b \<le> length d \<Longrightarrow> overwrite (overwrite d off a) (off + length a) b = overwrite d off (a @ b)"
  using overwrite_split [of off "a @ b" d "length a"] by simp

definition seek_ok :: "sink \<Rightarrow> bool" where
  "seek_ok s = (sk_seekable s \<and> length (sk_data s) < 2 ^ 64)"

lemma unat_off: "unat (off :: u64) + n < 2 ^ 64 \<Longrightarrow> unat (off + of_nat n) = unat off + n"
  by (simp add: unat_add_small unat_of_nat take_bit_eq_mod)

lemma write_all_seek:
  "write_all s buf off = (None, s') \<Longrightarrow> seek_ok s \<Longrightarrow> unat off + length buf \<le> length (sk_data s) \<Longrightarrow>
   sk_data s' = overwrite (sk_data s) (unat off) buf"
proof (induction "length (sk_evs s)" arbitrary: s buf off)
  case 0
  then show ?case
    by (cases "buf = []") (auto simp: write_all_eqs put_bytes_def seek_ok_def overwrite_in)
next
  case (Suc n)
  show ?case
  proof (cases rule: write_all_cases [where buf = buf and s = s])
    case 1
    then show ?thesis using Suc.prems by (auto simp: write_all_eqs overwrite_in)
  next
    case (3 e evs)
    then show ?thesis
      using Suc.prems Suc.hyps(1) [of "s\<lparr>sk_evs := evs\<rparr>"] Suc.hyps(2)
      by (auto simp: write_all_eqs seek_ok_def split: if_splits)
  next
    case (4 k evs)
    let ?m = "min k (length buf)" and ?s = "put_bytes (take k buf) off (s\<lparr>sk_evs := evs\<rparr>)"
    have k: "k \<noteq> 0" and w: "write_all ?s (drop k buf) (off + of_nat ?m) = (None, s')"
      using Suc.prems(1) 4 by (auto simp: write_all_eqs split: if_splits)
    have d: "sk_data ?s = overwrite (sk_data s) (unat off) (take ?m buf)"
      using Suc.prems(2) by (simp add: put_bytes_def seek_ok_def min_def)
    have o: "unat (off + of_nat ?m) = unat off + ?m"
      using Suc.prems(2,3) by (intro unat_off) (auto simp: seek_ok_def)
    have dr: "drop k buf = drop ?m buf" by (simp add: min_def)
    have "sk_data s' = overwrite (sk_data ?s) (unat off + ?m) (drop ?m buf)"
      using Suc.hyps(1) [OF _ w] Suc.hyps(2) Suc.prems(2,3) 4(1) d o by (simp add: seek_ok_def dr)
    then show ?thesis using Suc.prems(3) by (simp add: d overwrite_split)
  qed (use Suc.hyps(2) in auto)
qed

lemma write_all_seq:
  "write_all s buf off = (None, s') \<Longrightarrow> \<not> sk_seekable s \<Longrightarrow> sk_data s' = sk_data s @ buf"
proof (induction "length (sk_evs s)" arbitrary: s buf off)
  case 0
  then show ?case by (cases "buf = []") (auto simp: write_all_eqs put_bytes_def)
next
  case (Suc n)
  show ?case
  proof (cases rule: write_all_cases [where buf = buf and s = s])
    case (3 e evs)
    then show ?thesis
      using Suc.prems Suc.hyps(1) [of "s\<lparr>sk_evs := evs\<rparr>"] Suc.hyps(2)
      by (auto simp: write_all_eqs split: if_splits)
  next
    case (4 k evs)
    then show ?thesis
      using Suc.prems Suc.hyps(1) [of "put_bytes (take k buf) off (s\<lparr>sk_evs := evs\<rparr>)"] Suc.hyps(2)
      by (auto simp: write_all_eqs put_bytes_def split: if_splits)
  qed (use Suc in \<open>auto simp: write_all_eqs\<close>)
qed

definition seq_ok :: "sink \<Rightarrow> bool" where
  "seq_ok s = (\<not> sk_seekable s \<and> unat (sk_pos s) = length (sk_data s))"

abbreviation zeros :: "nat \<Rightarrow> string" where
  "zeros n \<equiv> replicate n (CHR 0x00)"

lemma fill_gap_seq:
  "fill_gap s off = (None, s') \<Longrightarrow> seq_ok s \<Longrightarrow> sk_pos s \<le> off \<Longrightarrow>
   seq_ok s' \<and> sk_pos s' = off \<and> sk_data s' = sk_data s @ zeros (unat off - unat (sk_pos s))"
proof (induction s off rule: fill_gap.induct)
  case (1 s off)
  show ?case
  proof (cases "sk_pos s < off")
    case False
    then show ?thesis using "1.prems" by (subst (asm) fill_gap.simps) auto
  next
    case True
    let ?gap = "if off - sk_pos s < ELFCORE_PAGE then off - sk_pos s else ELFCORE_PAGE"
    obtain s1 where w: "write_all s (zeros (unat ?gap)) 0 = (None, s1)"
        and f: "fill_gap (s1\<lparr>sk_pos := sk_pos s1 + ?gap\<rparr>) off = (None, s')"
      using "1.prems"(1) True by (subst (asm) fill_gap.simps) (auto simp: Let_def split: prod.splits option.splits)
    have fr: "sk_pos s1 = sk_pos s" "\<not> sk_seekable s1"
      using write_all_frame [OF w] "1.prems"(2) by (auto simp: seq_ok_def)
    have d: "sk_data s1 = sk_data s @ zeros (unat ?gap)"
      using write_all_seq [OF w] "1.prems"(2) by (simp add: seq_ok_def)
    have "?gap \<le> off - sk_pos s" by (auto simp: not_less)
    then have g: "unat (sk_pos s) + unat ?gap \<le> unat off"
      using unat_sub [of "sk_pos s" off] True by (simp add: word_le_nat_alt word_less_nat_alt del: unat_sub)
    moreover have "unat off < 2 ^ 64" using unat_u64 by simp
    ultimately have go: "unat (sk_pos s + ?gap) = unat (sk_pos s) + unat ?gap" by (intro unat_add_small) simp
    then have le: "sk_pos s + ?gap \<le> off" using g by (simp only: word_le_nat_alt)
    have "seq_ok (s1\<lparr>sk_pos := sk_pos s1 + ?gap\<rparr>)"
      using "1.prems"(2) fr d go by (simp add: seq_ok_def)
    then have "seq_ok s' \<and> sk_pos s' = off \<and>
        sk_data s' = sk_data s @ zeros (unat ?gap) @ zeros (unat off - (unat (sk_pos s) + unat ?gap))"
      using "1.IH" [OF True refl w [symmetric] refl f] go le fr d by simp
    moreover have "unat ?gap + (unat off - (unat (sk_pos s) + unat ?gap)) = unat off - unat (sk_pos s)"
      using g by linarith
    ultimately show ?thesis by (simp add: replicate_add [symmetric])
  qed
qed

lemma sink_write_seq:
  assumes "sink_write s buf off = (None, s')" and "seq_ok s" and "sk_pos s \<le> off" and "unat off + length buf < 2 ^ 64"
  shows "seq_ok s' \<and> sk_pos s' = off + of_nat (length buf) \<and>
    sk_data s' = sk_data s @ zeros (unat off - length (sk_data s)) @ buf"
proof -
  obtain s1 where f: "fill_gap s off = (None, s1)"
      and w: "write_all (s1\<lparr>sk_pos := sk_pos s1 + of_nat (length buf)\<rparr>) buf off = (None, s')"
    using assms(1,2) by (auto simp: sink_write_def seq_ok_def split: prod.splits option.splits)
  have s1: "seq_ok s1" "sk_pos s1 = off" "sk_data s1 = sk_data s @ zeros (unat off - unat (sk_pos s))"
    using fill_gap_seq [OF f assms(2,3)] by auto
  have "length (sk_data s1) = unat off" using s1(1,2) by (simp add: seq_ok_def)
  then show ?thesis
    using write_all_frame [OF w] write_all_seq [OF w] s1 assms(2,4) by (simp add: seq_ok_def unat_off)
qed

lemma sink_write_seek:
  "sink_write s buf off = (None, s') \<Longrightarrow> seek_ok s \<Longrightarrow> unat off + length buf \<le> length (sk_data s) \<Longrightarrow>
   seek_ok s' \<and> sk_data s' = overwrite (sk_data s) (unat off) buf"
  using write_all_seek [of s buf off s'] write_all_frame [of s buf off None s'] by (simp add: sink_write_def seek_ok_def)

text \<open>The file is zero where a chunk is about to be written.\<close>

definition hole :: "string \<Rightarrow> nat \<Rightarrow> nat \<Rightarrow> bool" where
  "hole d off n = (off + n \<le> length d \<and> take n (drop off d) = zeros n)"

lemma hole_skip:
  assumes "hole d off (length b)" and "i + n \<le> length b" and "take n (drop i b) = zeros n"
  shows "overwrite d off (take (i + n) b) = overwrite d off (take i b)"
proof -
  have "take n (drop (off + i) d) = take n (drop i (take (length b) (drop off d)))"
    using assms(2) by (simp add: drop_take add.commute)
  also have "\<dots> = zeros n" using assms(1,2) by (simp add: hole_def)
  finally have "drop (off + i) d = zeros n @ drop (off + (i + n)) d"
    by (metis add.assoc add.commute append_take_drop_id drop_drop)
  moreover have "take (i + n) b = take i b @ zeros n" using assms(3) by (simp add: take_add)
  moreover have "min (length b) i = i" using assms(2) by simp
  ultimately show ?thesis using assms(1,2) by (simp add: overwrite_in hole_def)
qed

lemma chunk_loop_seek:
  "chunk_loop s buf off i start = (None, s') \<Longrightarrow> seek_ok s \<Longrightarrow> sk_data s = overwrite d (unat off) (take start buf) \<Longrightarrow>
   start \<le> i \<Longrightarrow> start \<le> length buf \<Longrightarrow> hole d (unat off) (length buf) \<Longrightarrow> length d < 2 ^ 64 \<Longrightarrow>
   seek_ok s' \<and> sk_data s' = overwrite d (unat off) buf"
proof (induction s buf off i start rule: chunk_loop.induct)
  case (1 s buf off i start)
  have len: "length (sk_data s) = length d" "unat off + length buf \<le> length d"
    using "1.prems"(3,6) by (auto simp: hole_def)
  have run: "seek_ok s1 \<and> sk_data s1 = overwrite d (unat off) (take e buf)"
    if "sink_write s (take (e - start) (drop start buf)) (off + of_nat start) = (None, s1)" "start \<le> e" "e \<le> length buf" for e s1
  proof -
    have o: "unat (off + of_nat start) = unat off + start"
      using "1.prems"(5,7) len(2) by (intro unat_off) linarith
    have "seek_ok s1 \<and> sk_data s1 = overwrite (sk_data s) (unat off + start) (take (e - start) (drop start buf))"
      using sink_write_seek [OF that(1) "1.prems"(2)] o len that "1.prems"(5) by simp
    moreover have "overwrite (overwrite d (unat off) (take start buf)) (unat off + start) (take (e - start) (drop start buf)) =
        overwrite d (unat off) (take e buf)"
      using overwrite_split [of "unat off" "take e buf" d start] len(2) that by (simp add: drop_take min_def)
    ultimately show ?thesis using "1.prems"(3) by simp
  qed
  let ?page = "if length buf - i < 4096 then length buf - i else 4096"
  let ?zero = "?page = 4096 \<and> take 4096 (drop i buf) = zero_page"
  let ?start = "if ?zero then i + ?page else start"
  have u: "chunk_loop s buf off i start =
     (if i < length buf then
        if ?zero \<and> i > start then
             (case sink_write s (take (i - start) (drop start buf)) (off + of_nat start) of
                (Some e, s) \<Rightarrow> (Some e, s)
              | (None, s) \<Rightarrow> chunk_loop s buf off (i + 4096) ?start)
           else chunk_loop s buf off (i + 4096) ?start
      else if start < length buf then sink_write s (drop start buf) (off + of_nat start)
      else (None, s))"
    by (subst chunk_loop.simps) (simp only: Let_def)
  have skip: "overwrite d (unat off) (take (i + 4096) buf) = overwrite d (unat off) (take i buf) \<and> i + 4096 \<le> length buf"
    if "i < length buf" ?zero
    using hole_skip [OF "1.prems"(6), of i 4096] that by (auto split: if_splits)
  consider "\<not> i < length buf" "start < length buf" | "\<not> i < length buf" "\<not> start < length buf"
    | "i < length buf" ?zero "i > start" | "i < length buf" ?zero "\<not> i > start" | "i < length buf" "\<not> ?zero" by blast
  then show ?case
  proof cases
    case 1
    then show ?thesis using "1.prems"(1,5) run [of "length buf" s'] u by simp
  next
    case 2
    then show ?thesis using "1.prems" u by simp
  next
    case 3
    then obtain s1 where w: "sink_write s (take (i - start) (drop start buf)) (off + of_nat start) = (None, s1)"
        and c: "chunk_loop s1 buf off (i + 4096) (i + ?page) = (None, s')"
      using "1.prems"(1) u by (auto split: prod.splits option.splits)
    have "seek_ok s1 \<and> sk_data s1 = overwrite d (unat off) (take i buf)"
      using run [OF w] "1.prems"(4) 3(1) by simp
    then show ?thesis
      using "1.IH"(1) [OF 3(1) refl refl refl _ w [symmetric] refl] 3 c skip "1.prems"(6,7) by simp
  next
    case 4
    then have "start = i" using "1.prems"(4) by simp
    then show ?thesis
      using "1.IH"(2) [OF 4(1) refl refl refl] "1.prems" u 4 skip by simp
  next
    case 5
    have z: "?zero = False" using 5(2) by (simp only: simp_thms)
    have "chunk_loop s buf off (i + 4096) start = (None, s')"
      using "1.prems"(1) 5(1) unfolding u z by (simp only: simp_thms if_True if_False)
    then show ?thesis
      using "1.IH"(2) [OF 5(1) refl refl refl, unfolded z, simplified] "1.prems" by simp
  qed
qed

lemma mem_bytes_length [simp]: "length (mem_bytes mem base n) = n"
  by (simp add: mem_bytes_def)

lemma mem_bytes_add: "mem_bytes mem base (a + b) = mem_bytes mem base a @ mem_bytes mem (base + of_nat a) b"
proof -
  have "[0 ..< a + b] = [0 ..< a] @ map (\<lambda>i. i + a) [0 ..< b]"
    using upt_add_eq_append [of 0 a b] by (simp add: map_add_upt add.commute)
  then show ?thesis by (simp add: mem_bytes_def comp_def algebra_simps)
qed

lemma source_read_bytes:
  assumes "source_read src n base = Inr buf"
  shows "buf = mem_bytes (src_mem src) base n"
proof -
  let ?start = "and base (not (ELFCORE_PAGE - 1))"
  have "buf = drop (unat (base - ?start)) (mem_bytes (src_mem src) ?start (unat (base - ?start) + n))"
    using assms by (auto simp: source_read_def Let_def split: if_splits option.splits)
  then show ?thesis by (simp add: mem_bytes_add)
qed

lemma want_bound:
  "sz \<noteq> 0 \<Longrightarrow> want = (if sz < DUMP_CHUNK then sz else DUMP_CHUNK) \<Longrightarrow>
   unat sz = unat want + unat (sz - want) \<and> 0 < unat want"
proof -
  assume sz: "sz \<noteq> 0" and w: "want = (if sz < DUMP_CHUNK then sz else DUMP_CHUNK)"
  have "want \<noteq> 0" using sz by (simp add: w DUMP_CHUNK_def)
  moreover have "want \<le> sz" by (auto simp: w not_less)
  ultimately show ?thesis by (simp add: unat_sub word_le_nat_alt unat_gt_0)
qed

lemma copy_range_step:
  assumes "copy_range src s base sz off = (None, s')" and "sz \<noteq> 0"
    and w: "want = (if sz < DUMP_CHUNK then sz else DUMP_CHUNK)"
  obtains s1 where "write_chunk s (mem_bytes (src_mem src) base (unat want)) off = (None, s1)"
    "copy_range src s1 (base + want) (sz - want) (off + want) = (None, s')"
    "\<exists>buf. source_read src (unat want) base = Inr buf"
proof -
  have u: "copy_range src s base sz off =
      (case source_read src (unat want) base of
          Inl e \<Rightarrow> (Some e, s)
        | Inr buf \<Rightarrow>
            (case write_chunk s buf off of
               (Some e, s) \<Rightarrow> (Some e, s)
             | (None, s) \<Rightarrow> copy_range src s (base + want) (sz - want) (off + want)))"
    using assms(2) by (subst copy_range.simps) (simp only: Let_def w [symmetric] if_False)
  obtain buf where b: "source_read src (unat want) base = Inr buf"
    using assms(1) by (cases "source_read src (unat want) base") (auto simp: u)
  obtain s1 where "write_chunk s buf off = (None, s1)" "copy_range src s1 (base + want) (sz - want) (off + want) = (None, s')"
    using assms(1) b by (auto simp: u split: prod.splits option.splits)
  then show ?thesis using that b source_read_bytes [OF b] by blast
qed

lemma zeros_split: "take (a + b) x = zeros (a + b) \<Longrightarrow> take a x = zeros a \<and> take b (drop a x) = zeros b"
proof -
  assume z: "take (a + b) x = zeros (a + b)"
  have "take a x = take a (take (a + b) x)" "take b (drop a x) = drop a (take (a + b) x)" by (simp_all add: drop_take)
  then show ?thesis by (simp add: z)
qed

lemma copy_range_seek:
  "copy_range src s base sz off = (None, s') \<Longrightarrow> seek_ok s \<Longrightarrow> hole (sk_data s) (unat off) (unat sz) \<Longrightarrow>
   seek_ok s' \<and> sk_data s' = overwrite (sk_data s) (unat off) (mem_bytes (src_mem src) base (unat sz))"
proof (induction "unat sz" arbitrary: s base sz off rule: less_induct)
  case less
  show ?case
  proof (cases "sz = 0")
    case True
    then show ?thesis using less.prems by (subst (asm) copy_range.simps) (auto simp: mem_bytes_def overwrite_in hole_def)
  next
    case False
    define want where "want = (if sz < DUMP_CHUNK then sz else DUMP_CHUNK)"
    obtain s1 where c: "write_chunk s (mem_bytes (src_mem src) base (unat want)) off = (None, s1)"
        and r: "copy_range src s1 (base + want) (sz - want) (off + want) = (None, s')"
      using copy_range_step [OF less.prems(1) False want_def] by blast
    have n: "unat sz = unat want + unat (sz - want)" "0 < unat want" using want_bound [OF False want_def] by auto
    have h: "unat off + unat sz \<le> length (sk_data s)" "length (sk_data s) < 2 ^ 64"
      using less.prems(2,3) by (auto simp: hole_def seek_ok_def)
    have "hole (sk_data s) (unat off) (unat want)"
      using less.prems(3) n zeros_split [of "unat want" "unat (sz - want)" "drop (unat off) (sk_data s)"]
      by (simp add: hole_def)
    then have s1: "seek_ok s1" "sk_data s1 = overwrite (sk_data s) (unat off) (mem_bytes (src_mem src) base (unat want))"
      using chunk_loop_seek [of s _ off 0 0 s1 "sk_data s"] c less.prems(2) h(2) n(1) h(1)
      by (auto simp: write_chunk_def seek_ok_def overwrite_in)
    have o: "unat (off + want) = unat off + unat want" using h n by (intro unat_add_small) simp
    have "drop (unat off + unat want) (sk_data s1) = drop (unat off + unat want) (sk_data s)"
      using s1(2) h n by (simp add: overwrite_in)
    moreover have "take (unat (sz - want)) (drop (unat off + unat want) (sk_data s)) = zeros (unat (sz - want))"
      using less.prems(3) n zeros_split [of "unat want" "unat (sz - want)" "drop (unat off) (sk_data s)"]
      by (simp add: hole_def add.commute)
    ultimately have "hole (sk_data s1) (unat (off + want)) (unat (sz - want))"
      using s1(2) h n o by (simp add: hole_def)
    then show ?thesis
      using less.hyps [OF _ r s1(1)] n o s1(2) h mem_bytes_add [of "src_mem src" base "unat want" "unat (sz - want)"]
        overwrite_append [of "unat off" "mem_bytes (src_mem src) base (unat want)" _ "sk_data s"] by simp
  qed
qed

definition pad_to :: "nat \<Rightarrow> string \<Rightarrow> string" where
  "pad_to n d = d @ zeros (n - length d)"

lemma copy_range_seq:
  "copy_range src s base sz off = (None, s') \<Longrightarrow> seq_ok s \<Longrightarrow> sk_pos s \<le> off \<Longrightarrow> unat off + unat sz < 2 ^ 64 \<Longrightarrow>
   seq_ok s' \<and> length (sk_data s') \<le> unat off + unat sz \<and>
   pad_to (unat off + unat sz) (sk_data s') = pad_to (unat off) (sk_data s) @ mem_bytes (src_mem src) base (unat sz)"
proof (induction "unat sz" arbitrary: s base sz off rule: less_induct)
  case less
  have len: "length (sk_data s) \<le> unat off" using less.prems(2,3) by (simp add: seq_ok_def word_le_nat_alt)
  show ?case
  proof (cases "sz = 0")
    case True
    then show ?thesis using less.prems len by (subst (asm) copy_range.simps) (auto simp: mem_bytes_def)
  next
    case False
    define want where "want = (if sz < DUMP_CHUNK then sz else DUMP_CHUNK)"
    obtain s1 where c: "write_chunk s (mem_bytes (src_mem src) base (unat want)) off = (None, s1)"
        and r: "copy_range src s1 (base + want) (sz - want) (off + want) = (None, s')"
      using copy_range_step [OF less.prems(1) False want_def] by blast
    have n: "unat sz = unat want + unat (sz - want)" "0 < unat want" using want_bound [OF False want_def] by auto
    have o: "unat (off + want) = unat off + unat want" using less.prems(4) n by (intro unat_add_small) simp
    have "sink_write s (mem_bytes (src_mem src) base (unat want)) off = (None, s1)"
      using c less.prems(2) by (simp add: write_chunk_def seq_ok_def)
    from sink_write_seq [OF this less.prems(2,3)]
    have s1: "seq_ok s1" "sk_pos s1 = off + want"
        "sk_data s1 = pad_to (unat off) (sk_data s) @ mem_bytes (src_mem src) base (unat want)"
      using less.prems(4) n by (simp_all add: pad_to_def)
    have "length (sk_data s1) = unat (off + want)" using s1(1,2) by (simp add: seq_ok_def)
    then show ?thesis
      using less.hyps [OF _ r s1(1)] n o s1 less.prems(4)
        mem_bytes_add [of "src_mem src" base "unat want" "unat (sz - want)"]
      by (simp add: pad_to_def add.assoc)
  qed
qed

section \<open>The image\<close>

text \<open>The specification: what a dump of these ranges of a memory holds behind its header.\<close>

definition range_image :: "(u64 \<Rightarrow> char) \<Rightarrow> range \<Rightarrow> string" where
  "range_image mem r =
     mem_bytes mem (r_base r) (unat (r_size r)) @ zeros (pages_up (unat (r_size r)) - unat (r_size r))"

definition vmcore_image :: "elfcore_layout \<Rightarrow> (u64 \<Rightarrow> char) \<Rightarrow> range list \<Rightarrow> string" where
  "vmcore_image l mem rs = el_header l @ concat (map (range_image mem) rs)"

lemma range_image_length: "length (range_image mem r) = pages_up (unat (r_size r))"
  using pages_up_bounds(1) [of "unat (r_size r)"] by (simp add: range_image_def)

lemma room_Cons: "room (n # ns) = pages_up n + room ns"
  by (simp add: room_def)

abbreviation copy_ranges :: "source \<Rightarrow> range list \<Rightarrow> u64 list \<Rightarrow> sink \<Rightarrow> rc \<times> sink" where
  "copy_ranges src rs offs \<equiv> fold_rc (\<lambda>(r, off) s. copy_range src s (r_base r) (r_size r) off) (zip rs offs)"

lemma copy_ranges_Cons:
  assumes "copy_ranges src (r # rs) (off # offs) s = (None, s')"
  obtains s1 where "copy_range src s (r_base r) (r_size r) off = (None, s1)" "copy_ranges src rs offs s1 = (None, s')"
  using assms by (auto split: prod.splits option.splits)

lemma copy_ranges_seq:
  assumes "copy_ranges src rs offs s = (None, s')" and "map unat offs = place cur (range_sizes rs)"
    and "cur + room (range_sizes rs) < 2 ^ 64" and "seq_ok s" and "length (sk_data s) \<le> cur"
  shows "seq_ok s' \<and> length (sk_data s') \<le> cur + room (range_sizes rs) \<and>
    pad_to (cur + room (range_sizes rs)) (sk_data s') = pad_to cur (sk_data s) @ concat (map (range_image (src_mem src)) rs)"
  using assms
proof (induction rs arbitrary: s offs cur)
  case Nil
  then show ?case by (simp add: room_def)
next
  case (Cons r rs)
  let ?n = "unat (r_size r)"
  obtain off offs' where o: "offs = off # offs'" "unat off = cur" "map unat offs' = place (cur + pages_up ?n) (range_sizes rs)"
    using Cons.prems(2) by (cases offs) auto
  obtain s1 where c: "copy_range src s (r_base r) (r_size r) off = (None, s1)" and t: "copy_ranges src rs offs' s1 = (None, s')"
    using copy_ranges_Cons Cons.prems(1) unfolding o(1) by blast
  have "pages_up ?n \<le> room (range_sizes (r # rs))" by (simp add: room_def)
  then have lt: "cur + pages_up ?n < 2 ^ 64" "cur + ?n < 2 ^ 64"
    using Cons.prems(3) pages_up_bounds(1) [of ?n] by linarith+
  have "sk_pos s \<le> off" using Cons.prems(4,5) o(2) by (simp add: seq_ok_def word_le_nat_alt)
  then have s1: "seq_ok s1" "length (sk_data s1) \<le> cur + ?n"
      "pad_to (cur + ?n) (sk_data s1) = pad_to cur (sk_data s) @ mem_bytes (src_mem src) (r_base r) ?n"
    using copy_range_seq [OF c Cons.prems(4)] lt(2) o(2) by auto
  have "pad_to (cur + pages_up ?n) (sk_data s1) = pad_to (cur + ?n) (sk_data s1) @ zeros (pages_up ?n - ?n)"
    using s1(2) pages_up_bounds(1) [of ?n] by (simp add: pad_to_def replicate_add [symmetric])
  then show ?case
    using Cons.IH [OF t o(3) _ s1(1)] Cons.prems(3) s1(2,3) pages_up_bounds(1) [of ?n]
    by (simp add: range_image_def room_Cons add.assoc)
qed

lemma copy_ranges_seek:
  assumes "copy_ranges src rs offs s = (None, s')" and "map unat offs = place (length done) (range_sizes rs)"
    and "seek_ok s" and "sk_data s = done @ zeros (room (range_sizes rs))"
  shows "seek_ok s' \<and> sk_data s' = done @ concat (map (range_image (src_mem src)) rs)"
  using assms
proof (induction rs arbitrary: s offs "done")
  case Nil
  then show ?case by (simp add: room_def)
next
  case (Cons r rs)
  let ?n = "unat (r_size r)" and ?rest = "room (range_sizes rs)"
  obtain off offs' where o: "offs = off # offs'" "unat off = length done"
      "map unat offs' = place (length done + pages_up ?n) (range_sizes rs)"
    using Cons.prems(2) by (cases offs) auto
  obtain s1 where c: "copy_range src s (r_base r) (r_size r) off = (None, s1)" and t: "copy_ranges src rs offs' s1 = (None, s')"
    using copy_ranges_Cons Cons.prems(1) unfolding o(1) by blast
  have le: "?n \<le> pages_up ?n" by (rule pages_up_bounds)
  have d: "sk_data s = done @ zeros ?n @ zeros (pages_up ?n - ?n) @ zeros ?rest"
    using Cons.prems(4) le by (simp add: room_def replicate_add [symmetric])
  then have "hole (sk_data s) (unat off) ?n" by (simp add: hole_def o(2))
  from copy_range_seek [OF c Cons.prems(3) this]
  have s1: "seek_ok s1" "sk_data s1 = (done @ range_image (src_mem src) r) @ zeros ?rest"
    using d o(2) le by (simp_all add: overwrite_in range_image_def)
  then show ?case
    using Cons.IH [OF t _ s1] o(3) by (simp add: range_image_length)
qed

lemma write_dump_image:
  assumes "write_dump src ranges l s = (None, s')" and "layout_fits ranges notes"
    and l: "elfcore_layout_of ok machine ranges notes hp po = Inr l" and s: "open_sink kenv (el_total l) = Inr s"
  shows "sk_data s' = vmcore_image l (src_mem src) (rs_r ranges)"
proof -
  let ?rs = "rs_r ranges" and ?H = "header_size ranges notes" and ?room = "room (range_sizes (rs_r ranges))"
  have h: "length (el_header l) = ?H" "map unat (el_offsets l) = place ?H (range_sizes ?rs)" "unat (el_total l) = ?H + ?room"
    using elfcore_layout_result [OF l assms(2)] by auto
  have fit: "?H + ?room < 2 ^ 64" using assms(2) by (simp only: layout_fits_def)
  obtain s1 s2 where w: "sink_write s (el_header l) 0 = (None, s1)" and c: "copy_ranges src ?rs (el_offsets l) s1 = (None, s2)"
      and f: "(if \<not> sk_seekable s2 \<and> sk_pos s2 < el_total l then sink_write s2 [] (el_total l) else (None, s2)) = (None, s')"
    using assms(1) unfolding write_dump_def fold_rc_done_Cons by auto
  show ?thesis
  proof (cases "sk_seekable s")
    case True
    then have s0: "seek_ok s" "sk_data s = zeros (?H + ?room)"
      using s fit h(3) by (auto simp: open_sink_def seek_ok_def Let_def split: option.splits if_splits)
    have s1: "seek_ok s1" "sk_data s1 = el_header l @ zeros ?room"
      using sink_write_seek [OF w s0(1)] s0(2) h(1) by (simp_all add: overwrite_in)
    have "seek_ok s2 \<and> sk_data s2 = el_header l @ concat (map (range_image (src_mem src)) ?rs)"
      using copy_ranges_seek [OF c _ s1] h(1,2) by simp
    then show ?thesis using f by (auto simp: vmcore_image_def seek_ok_def)
  next
    case False
    then have s0: "seq_ok s" "sk_data s = []" "sk_pos s = 0"
      using s by (auto simp: open_sink_def seq_ok_def Let_def split: option.splits if_splits)
    have s1: "seq_ok s1" "sk_data s1 = el_header l"
      using sink_write_seq [OF w s0(1)] s0(2,3) h(1) fit by simp_all
    have s2: "seq_ok s2" "length (sk_data s2) \<le> ?H + ?room"
        "pad_to (?H + ?room) (sk_data s2) = el_header l @ concat (map (range_image (src_mem src)) ?rs)"
      using copy_ranges_seq [OF c h(2) fit s1(1)] s1(2) h(1) by (simp_all add: pad_to_def)
    have "sk_data s' = pad_to (?H + ?room) (sk_data s2)"
    proof (cases "sk_pos s2 < el_total l")
      case True
      then have "sink_write s2 [] (el_total l) = (None, s')" using f s2(1) by (simp add: seq_ok_def)
      then show ?thesis using sink_write_seq [OF _ s2(1), of "[]" "el_total l" s'] True fit h(3) by (simp add: pad_to_def)
    next
      case False
      then have "s' = s2" "length (sk_data s2) = ?H + ?room"
        using f s2(1,2) h(3) by (auto simp: seq_ok_def word_less_nat_alt not_less)
      then show ?thesis by (simp add: pad_to_def)
    qed
    then show ?thesis using s2(3) by (simp add: vmcore_image_def)
  qed
qed

lemma notes_len_bound: "off \<le> length buf \<Longrightarrow> notes_len_loop buf off \<le> length buf"
proof (induction buf off rule: notes_len_loop.induct)
  case (1 buf off)
  then show ?case by (subst notes_len_loop.simps) (simp add: Let_def)
qed

lemma read_note_length:
  assumes "read_note ok src r = Inr n"
  shows "length n \<le> 2 ^ 20"
proof (cases "r_size r = 0 \<or> r_size r > DUMP_NOTE_MAX")
  case False
  then have "unat (r_size r) \<le> 2 ^ 20" by (simp add: DUMP_NOTE_MAX_def word_le_nat_alt not_less)
  then show ?thesis
    using assms False source_read_bytes [of src "unat (r_size r)" "r_base r"] mem_bytes_length [of "src_mem src" "r_base r" "unat (r_size r)"]
    by (auto simp: read_note_def min_def split: if_splits sum.splits)
qed (use assms in \<open>simp add: read_note_def\<close>)

lemma note_step_length:
  "note_step ok src r ns = (None, ns') \<Longrightarrow> sum_list (map length ns') \<le> sum_list (map length ns) + 2 ^ 20"
  using read_note_length [of ok src r] by (auto simp: note_step_def split: sum.splits if_splits)

lemma note_steps_length:
  "fold_rc (note_step ok src) rs ns = (None, ns') \<Longrightarrow>
   sum_list (map length ns') \<le> sum_list (map length ns) + 2 ^ 20 * length rs"
proof (induction rs arbitrary: ns)
  case (Cons r rs)
  then obtain ns1 where "note_step ok src r ns = (None, ns1)" "fold_rc (note_step ok src) rs ns1 = (None, ns')"
    unfolding fold_rc_done_Cons by blast
  then show ?case using Cons.IH [of ns1] note_step_length [of ok src r ns ns1] by simp
qed simp

lemma collect_notes_length:
  "collect_notes ok src vi = (Inr notes, st) \<Longrightarrow>
   sum_list (map length notes) \<le> 2 ^ 20 * (1 + length (rl_r (vi_cpu_notes vi)))"
  using note_steps_length [of ok src "rl_r (vi_cpu_notes vi)" "[]"] read_note_length [of ok src "vi_vmcoreinfo vi"]
  by (fastforce simp: collect_notes_def Let_def split: if_splits prod.splits option.splits sum.splits)

text \<open>The dump fits in 64-bit file offsets, whatever the note buffers hold.\<close>

definition dump_fits :: "rangeset \<Rightarrow> vmcore_info \<Rightarrow> bool" where
  "dump_fits ranges vi =
     (pages_up (EHDR_SIZE + (1 + length (rs_r ranges)) * PHDR_SIZE + 2 ^ 20 * (1 + length (rl_r (vi_cpu_notes vi)))) +
      room (range_sizes (rs_r ranges)) < 2 ^ 64)"

lemma pages_up_mono: "a \<le> b \<Longrightarrow> pages_up a \<le> pages_up b"
  by (simp add: pages_up_def div_le_mono)

lemma dump_fits_layout:
  assumes "dump_fits ranges vi" and "collect_notes ok src vi = (Inr notes, st)"
  shows "layout_fits ranges notes"
proof -
  have "header_size ranges notes \<le>
      pages_up (EHDR_SIZE + (1 + length (rs_r ranges)) * PHDR_SIZE + 2 ^ 20 * (1 + length (rl_r (vi_cpu_notes vi))))"
    unfolding header_size_def by (rule pages_up_mono) (use collect_notes_length [OF assms(2)] in simp)
  then show ?thesis using assms(1) unfolding dump_fits_def layout_fits_def by linarith
qed

text \<open>A dump that succeeded wrote the image of its ranges, whatever kind of file it went to.\<close>

lemma dump_vmcore_done:
  assumes "dump_vmcore ok machine senv ranges vi kenv = (None, st, Some s)" and "dump_fits ranges vi"
  obtains src ns l where "source_open senv = Inr src" "collect_notes ok src vi = (Inr ns, st)"
    "elfcore_layout_of ok machine ranges ns (vi_has_page_offset vi) (vi_page_offset vi) = Inr l"
    "layout_fits ranges ns" "sk_data s = vmcore_image l (se_mem senv) (rs_r ranges)"
proof -
  obtain src where src: "source_open senv = Inr src" using assms(1) by (cases "source_open senv") (auto simp: dump_vmcore_def)
  obtain ns st1 where n: "collect_notes ok src vi = (Inr ns, st1)"
    using assms(1) src by (auto simp: dump_vmcore_def split: prod.splits sum.splits)
  obtain l where l: "elfcore_layout_of ok machine ranges ns (vi_has_page_offset vi) (vi_page_offset vi) = Inr l"
    using assms(1) src n by (auto simp: dump_vmcore_def split: sum.splits)
  obtain s0 where s0: "open_sink kenv (el_total l) = Inr s0"
    using assms(1) src n l by (auto simp: dump_vmcore_def split: sum.splits)
  obtain r s1 where w: "write_dump src ranges l s0 = (r, s1)" by fastforce
  have e: "st = st1" "s = s1" "r = None"
    using assms(1) src n l s0 w by (auto simp: dump_vmcore_def Let_def split: if_splits)
  have f: "layout_fits ranges ns" using assms(2) n by (rule dump_fits_layout)
  have m: "src_mem src = se_mem senv" using src by (auto simp: source_open_def split: option.splits)
  show ?thesis using that [OF src _ l f] n e write_dump_image [OF _ f l s0] w m by simp
qed

section \<open>When a dump succeeds\<close>

text \<open>Calls that are interrupted or move part of the data, but never fail.\<close>

definition no_error :: "io_event list \<Rightarrow> bool" where
  "no_error evs = list_all (\<lambda>e. case e of Io_error e \<Rightarrow> e = EINTR | Io_moves k \<Rightarrow> 0 < k) evs"

definition readable :: "source \<Rightarrow> bool" where
  "readable src = (src_limit src = - 1 \<and> (\<forall>a n. src_mmap src a n = None))"

lemma write_all_succeeds:
  "no_error (sk_evs s) \<Longrightarrow> \<exists>s'. write_all s buf off = (None, s') \<and> no_error (sk_evs s')"
proof (induction "length (sk_evs s)" arbitrary: s buf off)
  case 0
  then show ?case by (cases "buf = []") (auto simp: write_all_eqs)
next
  case (Suc n)
  show ?case
  proof (cases rule: write_all_cases [where buf = buf and s = s])
    case (3 e evs)
    then show ?thesis using Suc.prems Suc.hyps(1) [of "s\<lparr>sk_evs := evs\<rparr>"] Suc.hyps(2)
      by (auto simp: write_all_eqs no_error_def)
  next
    case (4 k evs)
    then show ?thesis
      using Suc.prems Suc.hyps(1) [of "put_bytes (take k buf) off (s\<lparr>sk_evs := evs\<rparr>)"] Suc.hyps(2)
      by (auto simp: write_all_eqs no_error_def)
  qed (use Suc in \<open>auto simp: write_all_eqs\<close>)
qed

lemma fill_gap_succeeds:
  "no_error (sk_evs s) \<Longrightarrow> \<exists>s'. fill_gap s off = (None, s') \<and> no_error (sk_evs s')"
proof (induction s off rule: fill_gap.induct)
  case (1 s off)
  let ?gap = "if off - sk_pos s < ELFCORE_PAGE then off - sk_pos s else ELFCORE_PAGE"
  obtain s1 where w: "write_all s (zeros (unat ?gap)) 0 = (None, s1)" "no_error (sk_evs s1)"
    using write_all_succeeds "1.prems" by blast
  show ?case
  proof (cases "sk_pos s < off")
    case True
    show ?thesis
      using "1.IH" [OF True refl w(1) [symmetric] refl] w True by (subst fill_gap.simps) (simp add: Let_def)
  qed (use "1.prems" in \<open>subst fill_gap.simps, simp\<close>)
qed

lemma sink_write_succeeds:
  assumes "no_error (sk_evs s)"
  shows "\<exists>s'. sink_write s buf off = (None, s') \<and> no_error (sk_evs s')"
proof -
  obtain s1 where f: "fill_gap s off = (None, s1)" "no_error (sk_evs s1)" using fill_gap_succeeds [OF assms] by blast
  then show ?thesis
    using write_all_succeeds [OF assms, of buf off]
      write_all_succeeds [of "s1\<lparr>sk_pos := sk_pos s1 + of_nat (length buf)\<rparr>" buf off]
    by (auto simp: sink_write_def)
qed

lemma chunk_loop_succeeds:
  "no_error (sk_evs s) \<Longrightarrow> \<exists>s'. chunk_loop s buf off i start = (None, s') \<and> no_error (sk_evs s')"
proof (induction "length buf - i" arbitrary: s i start rule: less_induct)
  case less
  let ?w = "sink_write s (take (i - start) (drop start buf)) (off + of_nat start)"
  obtain s1 where w: "?w = (None, s1)" "no_error (sk_evs s1)" using sink_write_succeeds [OF less.prems] by blast
  have nx: "\<exists>s'. chunk_loop t buf off (i + 4096) st = (None, s') \<and> no_error (sk_evs s')"
    if "i < length buf" "no_error (sk_evs t)" for t st
    using less.hyps [of "i + 4096" t st] that by simp
  show ?case
    using nx [OF _ less.prems] nx [OF _ w(2)] w sink_write_succeeds [OF less.prems] less.prems
    by (subst chunk_loop.simps) (simp add: Let_def)
qed

lemma source_read_succeeds: "readable src \<Longrightarrow> unat base + n < 2 ^ 64 \<Longrightarrow> \<exists>buf. source_read src n base = Inr buf"
proof -
  assume r: "readable src" and n: "unat base + n < 2 ^ 64"
  have "of_nat n \<le> - 1 - base"
  proof -
    have "unat (- 1 :: u64) = 2 ^ 64 - 1" by (simp add: unsigned_minus_1_eq_mask mask_eq_exp_minus_1)
    then have "unat (- 1 - base) = 2 ^ 64 - 1 - unat base" using unat_sub [of base "- 1"] by simp
    moreover have "unat (of_nat n :: u64) = n" using n by (simp add: unat_of_nat take_bit_eq_mod)
    ultimately show ?thesis using n by (simp add: word_le_nat_alt)
  qed
  then show ?thesis using r by (simp add: source_read_def readable_def Let_def not_less)
qed

lemma copy_range_succeeds:
  "readable src \<Longrightarrow> no_error (sk_evs s) \<Longrightarrow> unat base + unat sz < 2 ^ 64 \<Longrightarrow>
   \<exists>s'. copy_range src s base sz off = (None, s') \<and> no_error (sk_evs s')"
proof (induction "unat sz" arbitrary: s base sz off rule: less_induct)
  case less
  show ?case
  proof (cases "sz = 0")
    case False
    define want where "want = (if sz < DUMP_CHUNK then sz else DUMP_CHUNK)"
    have n: "unat sz = unat want + unat (sz - want)" "0 < unat want" using want_bound [OF False want_def] by auto
    have b: "unat (base + want) = unat base + unat want" using less.prems(3) n by (intro unat_add_small) simp
    obtain buf where buf: "source_read src (unat want) base = Inr buf"
      using source_read_succeeds [OF less.prems(1), of base "unat want"] less.prems(3) n by auto
    obtain s1 where c: "write_chunk s buf off = (None, s1)" "no_error (sk_evs s1)"
      using sink_write_succeeds [OF less.prems(2), of buf off] chunk_loop_succeeds [OF less.prems(2), of buf off 0 0]
      by (cases "sk_seekable s") (auto simp: write_chunk_def)
    have "\<exists>s'. copy_range src s1 (base + want) (sz - want) (off + want) = (None, s') \<and> no_error (sk_evs s')"
      using less.hyps [of "sz - want" s1 "base + want" "off + want"] less.prems(1,3) c(2) n b by simp
    then show ?thesis
      using False buf c by (subst copy_range.simps) (simp add: want_def [symmetric])
  qed (use less.prems in \<open>subst copy_range.simps, simp\<close>)
qed

lemma copy_ranges_succeeds:
  assumes "readable src" "\<forall>r \<in> set rs. unat (r_base r) + unat (r_size r) < 2 ^ 64"
  shows "no_error (sk_evs s) \<Longrightarrow> \<exists>s'. copy_ranges src rs offs s = (None, s') \<and> no_error (sk_evs s')"
  using assms(2)
proof (induction rs arbitrary: s offs)
  case (Cons r rs)
  show ?case
  proof (cases offs)
    case (Cons off offs')
    obtain s1 where s1: "copy_range src s (r_base r) (r_size r) off = (None, s1)" "no_error (sk_evs s1)"
      using copy_range_succeeds [OF assms(1) Cons.prems(1), of "r_base r" "r_size r" off] Cons.prems(2) by auto
    then show ?thesis using Cons.IH [OF s1(2), of offs'] Cons.prems(2) Cons by simp
  qed (use Cons.prems in simp)
qed simp

lemma write_dump_succeeds:
  assumes "readable src" "\<forall>r \<in> set (rs_r ranges). unat (r_base r) + unat (r_size r) < 2 ^ 64" "no_error (sk_evs s)"
  shows "\<exists>s'. write_dump src ranges l s = (None, s')"
proof -
  obtain s1 where s1: "sink_write s (el_header l) 0 = (None, s1)" "no_error (sk_evs s1)"
    using sink_write_succeeds [OF assms(3)] by blast
  obtain s2 where s2: "copy_ranges src (rs_r ranges) (el_offsets l) s1 = (None, s2)" "no_error (sk_evs s2)"
    using copy_ranges_succeeds [OF assms(1,2) s1(2)] by blast
  obtain s3 where s3: "sink_write s2 [] (el_total l) = (None, s3)" using sink_write_succeeds [OF s2(2)] by blast
  show ?thesis using s1 s2 s3 by (simp add: write_dump_def)
qed

lemma read_note_succeeds: "\<forall>n. ok n \<Longrightarrow> \<exists>n. read_note ok src r = Inr n"
  by (auto simp: read_note_def split: sum.splits)

lemma collect_notes_succeeds:
  assumes "\<forall>n. ok n"
  shows "\<exists>ns st. collect_notes ok src vi = (Inr ns, st)"
proof -
  have "\<exists>ns'. fold_rc (note_step ok src) rs ns = (None, ns')" for rs ns
  proof (induction rs arbitrary: ns)
    case (Cons r rs)
    then show ?case using read_note_succeeds [OF assms, of src r] by (auto simp: note_step_def)
  qed simp
  then obtain ns where "fold_rc (note_step ok src) (rl_r (vi_cpu_notes vi)) [] = (None, ns)" by blast
  moreover obtain n where "read_note ok src (vi_vmcoreinfo vi) = Inr n" using read_note_succeeds [OF assms] by blast
  ultimately show ?thesis using assms by (simp add: collect_notes_def Let_def)
qed

definition healthy_source :: "source_env \<Rightarrow> bool" where
  "healthy_source e = (se_open e = None \<and> se_fstat e = None \<and> \<not> se_regular e \<and> (\<forall>a n. se_mmap e a n = None))"

definition healthy_sink :: "sink_env \<Rightarrow> bool" where
  "healthy_sink e = (ke_open e = None \<and> ke_fstat e = None \<and> ke_truncate e = None \<and> ke_fsync e = None \<and>
     ke_close e = None \<and> no_error (ke_evs e))"

lemma range_ok_no_wrap: "range_ok r \<Longrightarrow> unat (r_base r) + unat (r_size r) < 2 ^ 64"
  using no_olen_add_nat [of "r_base r" "r_size r"] by (auto simp: range_ok_def range_end_def)

lemma dump_vmcore_works:
  assumes "\<forall>n. ok n" and "length (rs_r ranges) \<le> 65534" and "rangeset_inv ranges"
    and "healthy_source senv" and "healthy_sink kenv"
  shows "\<exists>st s. dump_vmcore ok machine senv ranges vi kenv = (None, st, Some s)"
proof -
  obtain src where src: "source_open senv = Inr src" "readable src"
    using assms(4) by (auto simp: source_open_def healthy_source_def readable_def)
  obtain ns st where n: "collect_notes ok src vi = (Inr ns, st)" using collect_notes_succeeds [OF assms(1)] by blast
  obtain l where l: "elfcore_layout_of ok machine ranges ns (vi_has_page_offset vi) (vi_page_offset vi) = Inr l"
    using assms(1,2) by (simp add: elfcore_layout_of_def Let_def not_less case_prod_unfold)
  obtain s0 where s0: "open_sink kenv (el_total l) = Inr s0" "no_error (sk_evs s0)"
    using assms(5) by (cases "ke_regular kenv") (auto simp: open_sink_def healthy_sink_def Let_def)
  have r: "unat (r_base r) + unat (r_size r) < 2 ^ 64" if "r \<in> set (rs_r ranges)" for r
    using range_ok_no_wrap [OF ranges_ok_mem [OF _ that]] assms(3) by (simp add: rangeset_inv_def)
  obtain s1 where w: "write_dump src ranges l s0 = (None, s1)"
    using write_dump_succeeds [OF src(2) _ s0(2)] r by blast
  show ?thesis
    using assms(1,5) src(1) n l s0(1) w by (simp add: dump_vmcore_def Let_def healthy_sink_def)
qed

section \<open>Properties\<close>

lemma image_nth:
  "i < length rs \<Longrightarrow> j < unat (r_size (rs ! i)) \<Longrightarrow>
   concat (map (range_image mem) rs) ! (room (take i (range_sizes rs)) + j) = mem (r_base (rs ! i) + of_nat j)"
proof (induction rs arbitrary: i)
  case (Cons r rs)
  show ?case
  proof (cases i)
    case 0
    then show ?thesis
      using Cons.prems pages_up_bounds(1) [of "unat (r_size r)"]
      by (simp add: nth_append range_image_length room_def) (simp add: range_image_def nth_append mem_bytes_def)
  next
    case (Suc k)
    then show ?thesis using Cons.IH [of k] Cons.prems by (simp add: nth_append range_image_length room_Cons)
  qed
qed simp

text \<open>
  The notes a buffer of the predecessor holds: the valid records at its start,
  of a buffer of at most a megabyte that can be read.
\<close>

definition can_read :: "source_env \<Rightarrow> range \<Rightarrow> bool" where
  "can_read senv r = (let start = and (r_base r) (not (ELFCORE_PAGE - 1)) in
     unat (r_base r) + unat (r_size r) \<le> unat (if se_regular senv then se_size senv else - 1) \<and>
     se_mmap senv start (unat (r_base r - start) + unat (r_size r)) = None)"

definition note_in :: "source_env \<Rightarrow> range \<Rightarrow> string" where
  "note_in senv r = (let buf = mem_bytes (se_mem senv) (r_base r) (unat (r_size r)) in
     if r_size r = 0 \<or> r_size r > DUMP_NOTE_MAX \<or> \<not> can_read senv r then [] else take (elfcore_notes_len buf) buf)"

lemma read_note_in:
  assumes "source_open senv = Inr src" and "read_note ok src r = Inr n"
  shows "n = note_in senv r"
proof -
  have src: "src = \<lparr>src_limit = (if se_regular senv then se_size senv else - 1), src_mmap = se_mmap senv, src_mem = se_mem senv\<rparr>"
    using assms(1) by (auto simp: source_open_def split: option.splits)
  have lim: "r_base r \<le> src_limit src \<and> r_size r \<le> src_limit src - r_base r \<longleftrightarrow>
      unat (r_base r) + unat (r_size r) \<le> unat (src_limit src)"
    by (auto simp: word_le_nat_alt unat_sub)
  show ?thesis
  proof (cases "source_read src (unat (r_size r)) (r_base r)")
    case (Inl e)
    then have "\<not> can_read senv r"
      using lim by (auto simp: src can_read_def source_read_def Let_def not_le [symmetric] split: if_splits option.splits)
    then show ?thesis using assms(2) Inl by (auto simp: note_in_def read_note_def split: if_splits)
  next
    case (Inr buf)
    then have "can_read senv r"
      using lim by (auto simp: src can_read_def source_read_def Let_def not_le [symmetric] split: if_splits option.splits)
    then show ?thesis
      using assms(2) Inr source_read_bytes [OF Inr] by (auto simp: src note_in_def read_note_def Let_def split: if_splits)
  qed
qed

lemma note_steps_in:
  assumes "source_open senv = Inr src" and "fold_rc (note_step ok src) rs ns = (None, ns')"
  shows "concat ns' = concat ns @ concat (map (note_in senv) rs)"
  using assms(2)
proof (induction rs arbitrary: ns)
  case (Cons r rs)
  then obtain ns1 where 1: "note_step ok src r ns = (None, ns1)" "fold_rc (note_step ok src) rs ns1 = (None, ns')"
    unfolding fold_rc_done_Cons by blast
  then have "concat ns1 = concat ns @ note_in senv r"
    using read_note_in [OF assms(1), of ok r] by (auto simp: note_step_def split: sum.splits if_splits)
  then show ?case using Cons.IH [OF 1(2)] by simp
qed simp

lemma collect_notes_in:
  assumes "source_open senv = Inr src" and "collect_notes ok src vi = (Inr ns, st)"
  shows "concat ns = concat (map (note_in senv) (rl_r (vi_cpu_notes vi) @ [vi_vmcoreinfo vi]))"
  using assms(2) note_steps_in [OF assms(1), of ok "rl_r (vi_cpu_notes vi)" "[]"] read_note_in [OF assms(1), of ok "vi_vmcoreinfo vi"]
  by (auto simp: collect_notes_def Let_def split: if_splits prod.splits option.splits sum.splits)

text \<open>C8: a debugger that follows the program headers of a finished dump reads the predecessor's memory and
  its notes.  Header 0 is the note segment: the bytes it names are the valid notes of every CPU's buffer, in
  order, and then those of the vmcoreinfo.  Header \<open>i + 1\<close> names range \<open>i\<close>, and the byte at its file offset
  plus \<open>j\<close> is the one at the range's base plus \<open>j\<close>.  It holds for a regular file, where zero pages are never
  written, for a pipe, and for every sequence of short and interrupted writes.\<close>

theorem dump_reads_back:
  assumes "dump_vmcore ok machine senv ranges vi kenv = (None, st, Some s)" and "dump_fits ranges vi"
  shows "(let ph = phdr_at (sk_data s) 0 in
      p_type ph = PT_NOTE \<and>
      take (unat (p_filesz ph)) (drop (unat (p_offset ph)) (sk_data s)) =
        concat (map (note_in senv) (rl_r (vi_cpu_notes vi) @ [vi_vmcoreinfo vi]))) \<and>
    (\<forall>i < length (rs_r ranges). \<forall>j < unat (r_size (rs_r ranges ! i)).
      let ph = phdr_at (sk_data s) (Suc i); r = rs_r ranges ! i in
      p_type ph = PT_LOAD \<and> p_paddr ph = r_base r \<and> p_filesz ph = r_size r \<and>
      sk_data s ! (unat (p_offset ph) + j) = se_mem senv (r_base r + of_nat j))"
proof -
  let ?rs = "rs_r ranges" and ?hp = "vi_has_page_offset vi" and ?po = "vi_page_offset vi"
  obtain src ns l where l: "elfcore_layout_of ok machine ranges ns ?hp ?po = Inr l" and f: "layout_fits ranges ns"
      and d: "sk_data s = vmcore_image l (se_mem senv) ?rs" and src: "source_open senv = Inr src"
      and ns: "collect_notes ok src vi = (Inr ns, st)"
    using dump_vmcore_done [OF assms] by metis
  obtain nph rest where h: "length (el_header l) = header_size ranges ns"
      and o: "map unat (el_offsets l) = place (header_size ranges ns) (range_sizes ?rs)"
      and n: "p_type nph = PT_NOTE" "p_flags nph = 0" "unat (p_offset nph) = EHDR_SIZE + (1 + length ?rs) * PHDR_SIZE"
        "unat (p_filesz nph) = sum_list (map length ns)"
      and e: "el_header l = fill_ehdr machine (1 + length ?rs) @
         concat (map phdr_bytes (nph # map2 (load_phdr ?hp ?po) ?rs (el_offsets l))) @ concat ns @ rest"
    using elfcore_layout_result [OF l f] by blast
  have len: "length (el_offsets l) = length ?rs" using o by (metis length_map length_place)
  let ?phs = "nph # map2 (load_phdr ?hp ?po) ?rs (el_offsets l)"
  have data: "sk_data s = fill_ehdr machine (1 + length ?rs) @ concat (map phdr_bytes ?phs) @
      (concat ns @ rest @ concat (map (range_image (se_mem senv)) ?rs))"
    using e by (simp add: d vmcore_image_def)
  have "length (fill_ehdr machine (1 + length ?rs) @ concat (map phdr_bytes ?phs)) = unat (p_offset nph)"
    using len by (simp add: n length_concat EHDR_SIZE_def PHDR_SIZE_def comp_def case_prod_unfold sum_list_triv)
  then have "drop (unat (p_offset nph)) (sk_data s) = concat ns @ rest @ concat (map (range_image (se_mem senv)) ?rs)"
    unfolding data by (metis append_assoc append_eq_conv_conj)
  then have "take (unat (p_filesz nph)) (drop (unat (p_offset nph)) (sk_data s)) = concat ns"
    by (simp add: n length_concat)
  moreover have "phdr_at (sk_data s) 0 = nph"
    using phdr_at_header [OF data, of 0] n by (simp add: PT_NOTE_def)
  ultimately have note_seg: "let ph = phdr_at (sk_data s) 0 in p_type ph = PT_NOTE \<and>
      take (unat (p_filesz ph)) (drop (unat (p_offset ph)) (sk_data s)) =
        concat (map (note_in senv) (rl_r (vi_cpu_notes vi) @ [vi_vmcoreinfo vi]))"
    using collect_notes_in [OF src ns] n(1) by (simp add: Let_def)
  have off: "unat (el_offsets l ! i) = length (el_header l) + room (take i (range_sizes ?rs))" if "i < length ?rs" for i
    using place_nth [of i "range_sizes ?rs" "header_size ranges ns"] that len o h by (metis length_map nth_map)
  have ph: "phdr_at (sk_data s) (Suc i) = load_phdr ?hp ?po (?rs ! i) (el_offsets l ! i)" if "i < length ?rs" for i
    using phdr_at_header [OF data, of "Suc i"] that len by (simp add: load_phdr_def PT_LOAD_def)
  show ?thesis
    using note_seg image_nth [of _ ?rs _ "se_mem senv"] off ph
    by (simp add: load_phdr_def Let_def d vmcore_image_def nth_append)
qed

definition example_source :: source_env where
  "example_source = \<lparr>se_open = None, se_fstat = None, se_regular = False, se_size = 0,
     se_mmap = (\<lambda>a n. None), se_mem = (\<lambda>a. if a = 0x2001 then CHR ''x'' else CHR 0x00)\<rparr>"

definition example_sink :: "bool \<Rightarrow> sink_env" where
  "example_sink regular = \<lparr>ke_open = None, ke_fstat = None, ke_regular = regular, ke_truncate = None,
     ke_fsync = None, ke_close = None, ke_evs = [Io_moves 100, Io_error EINTR, Io_moves 3]\<rparr>"

definition example_ranges :: rangeset where
  "example_ranges = \<lparr>rs_r = [\<lparr>r_base = 0x1000, r_size = 0x2000\<rparr>], rs_cap = 1\<rparr>"

lemma example_dump:
  "dump_fits example_ranges VMCORE_INFO_INIT"
  "\<exists>st s. dump_vmcore always 62 example_source example_ranges VMCORE_INFO_INIT (example_sink regular) = (None, st, Some s)"
proof -
  show "dump_fits example_ranges VMCORE_INFO_INIT"
    by (simp add: dump_fits_def example_ranges_def VMCORE_INFO_INIT_def room_def pages_up_def EHDR_SIZE_def PHDR_SIZE_def)
  show "\<exists>st s. dump_vmcore always 62 example_source example_ranges VMCORE_INFO_INIT (example_sink regular) = (None, st, Some s)"
    by (rule dump_vmcore_works)
      (simp_all add: always_def example_ranges_def rangeset_inv_def range_ok_def range_end_def healthy_source_def
        example_source_def healthy_sink_def example_sink_def no_error_def)
qed

definition noted_source :: source_env where
  "noted_source = example_source\<lparr>se_mem := (\<lambda>a. if a = 0x2001 then CHR ''x''
     else if a - 0x1000 < 20 then [CHR 0x04, CHR 0x00, CHR 0x00, CHR 0x00, CHR 0x01, CHR 0x00, CHR 0x00, CHR 0x00, CHR 0x01, CHR 0x00, CHR 0x00, CHR 0x00,
        CHR ''C'', CHR ''P'', CHR ''U'', CHR 0x00, CHR ''r'', CHR 0x00, CHR 0x00, CHR 0x00] ! unat (a - 0x1000) else CHR 0x00)\<rparr>"

definition noted_info :: vmcore_info where
  "noted_info = VMCORE_INFO_INIT\<lparr>vi_cpu_notes := \<lparr>rl_r = [\<lparr>r_base = 0x1000, r_size = 24\<rparr>]\<rparr>\<rparr>"

lemma noted_note: "note_in noted_source \<lparr>r_base = 0x1000, r_size = 24\<rparr> =
    [CHR 0x04, CHR 0x00, CHR 0x00, CHR 0x00, CHR 0x01, CHR 0x00, CHR 0x00, CHR 0x00, CHR 0x01, CHR 0x00, CHR 0x00, CHR 0x00,
     CHR ''C'', CHR ''P'', CHR ''U'', CHR 0x00, CHR ''r'', CHR 0x00, CHR 0x00, CHR 0x00]" (is "_ = ?n")
proof -
  have buf: "mem_bytes (se_mem noted_source) 0x1000 24 = ?n @ [CHR 0x00, CHR 0x00, CHR 0x00, CHR 0x00]"
    by (simp add: mem_bytes_def noted_source_def upt_rec)
  have "elfcore_notes_len (?n @ [CHR 0x00, CHR 0x00, CHR 0x00, CHR 0x00]) = 20" by code_simp
  moreover have "can_read noted_source \<lparr>r_base = 0x1000, r_size = 24\<rparr>"
    by (simp add: can_read_def noted_source_def example_source_def Let_def unsigned_minus_1_eq_mask mask_eq_exp_minus_1)
  ultimately show ?thesis by (simp add: note_in_def buf DUMP_NOTE_MAX_def Let_def)
qed

theorem dump_reads_back_witness:
  "\<exists>st s. dump_vmcore always 62 noted_source example_ranges noted_info (example_sink True) = (None, st, Some s) \<and>
     sk_data s ! (unat (p_offset (phdr_at (sk_data s) 1)) + 0x1001) = CHR ''x'' \<and>
     take (unat (p_filesz (phdr_at (sk_data s) 0))) (drop (unat (p_offset (phdr_at (sk_data s) 0))) (sk_data s)) =
       [CHR 0x04, CHR 0x00, CHR 0x00, CHR 0x00, CHR 0x01, CHR 0x00, CHR 0x00, CHR 0x00, CHR 0x01, CHR 0x00, CHR 0x00, CHR 0x00,
        CHR ''C'', CHR ''P'', CHR ''U'', CHR 0x00, CHR ''r'', CHR 0x00, CHR 0x00, CHR 0x00]"
proof -
  obtain st s where d: "dump_vmcore always 62 noted_source example_ranges noted_info (example_sink True) = (None, st, Some s)"
    using dump_vmcore_works [of always example_ranges noted_source "example_sink True" 62 noted_info]
    by (auto simp: always_def example_ranges_def rangeset_inv_def range_ok_def range_end_def healthy_source_def
      noted_source_def example_source_def healthy_sink_def example_sink_def no_error_def)
  have fits: "dump_fits example_ranges noted_info"
    by (simp add: dump_fits_def example_ranges_def noted_info_def VMCORE_INFO_INIT_def room_def pages_up_def EHDR_SIZE_def PHDR_SIZE_def)
  have rs: "rs_r example_ranges = [\<lparr>r_base = 0x1000, r_size = 0x2000\<rparr>]" by (simp add: example_ranges_def)
  have "sk_data s ! (unat (p_offset (phdr_at (sk_data s) 1)) + 0x1001) = CHR ''x''"
    using dump_reads_back [OF d fits, THEN conjunct2, rule_format, of 0 "0x1001"] rs
    by (simp add: noted_source_def Let_def)
  moreover have "concat (map (note_in noted_source) (rl_r (vi_cpu_notes noted_info) @ [vi_vmcoreinfo noted_info])) =
      note_in noted_source \<lparr>r_base = 0x1000, r_size = 24\<rparr>"
    by (simp add: noted_info_def VMCORE_INFO_INIT_def note_in_def)
  ultimately show ?thesis
    using d dump_reads_back [OF d fits, THEN conjunct1] noted_note by (simp add: Let_def)
qed

text \<open>C9: the same memory dumped to a regular file and to a pipe gives the same bytes, and two dumps of it
  to any outputs do.\<close>

theorem dump_same_bytes:
  assumes "dump_vmcore ok machine senv ranges vi kenv = (None, st, Some s)"
    and "dump_vmcore ok machine senv ranges vi kenv' = (None, st', Some s')" and "dump_fits ranges vi"
  shows "sk_data s = sk_data s'"
proof -
  from dump_vmcore_done [OF assms(1,3)] obtain src ns l where 1: "source_open senv = Inr src"
      "collect_notes ok src vi = (Inr ns, st)"
      "elfcore_layout_of ok machine ranges ns (vi_has_page_offset vi) (vi_page_offset vi) = Inr l"
      "sk_data s = vmcore_image l (se_mem senv) (rs_r ranges)" by metis
  from dump_vmcore_done [OF assms(2,3)] obtain src' ns' l' where 2: "source_open senv = Inr src'"
      "collect_notes ok src' vi = (Inr ns', st')"
      "elfcore_layout_of ok machine ranges ns' (vi_has_page_offset vi) (vi_page_offset vi) = Inr l'"
      "sk_data s' = vmcore_image l' (se_mem senv) (rs_r ranges)" by metis
  have "l = l'" using 1 2 by simp
  then show ?thesis using 1(4) 2(4) by simp
qed

theorem dump_same_bytes_witness:
  "\<exists>st s st' s'. dump_vmcore always 62 example_source example_ranges VMCORE_INFO_INIT (example_sink True) = (None, st, Some s) \<and>
     dump_vmcore always 62 example_source example_ranges VMCORE_INFO_INIT (example_sink False) = (None, st', Some s') \<and>
     sk_data s = sk_data s'"
proof -
  obtain st s st' s' where
      1: "dump_vmcore always 62 example_source example_ranges VMCORE_INFO_INIT (example_sink True) = (None, st, Some s)" and
      2: "dump_vmcore always 62 example_source example_ranges VMCORE_INFO_INIT (example_sink False) = (None, st', Some s')"
    using example_dump(2) by metis
  then show ?thesis using dump_same_bytes [OF 1 2 example_dump(1)] by blast
qed

text \<open>C10: a dump of a well-formed set of at most 65534 ranges from readable memory succeeds, however short
  or interrupted the writes are: no loop of it runs forever, and nothing but a failing call makes it fail.\<close>

theorem dump_succeeds:
  assumes "\<forall>n. ok n" and "length (rs_r ranges) \<le> 65534" and "rangeset_inv ranges"
    and "healthy_source senv" and "healthy_sink kenv"
  shows "\<exists>st s. dump_vmcore ok machine senv ranges vi kenv = (None, st, Some s)"
  using assms by (rule dump_vmcore_works)

theorem dump_succeeds_witness:
  "\<exists>st s. dump_vmcore always 62 example_source example_ranges VMCORE_INFO_INIT (example_sink False) = (None, st, Some s)"
  by (rule dump_succeeds)
    (simp_all add: always_def example_ranges_def rangeset_inv_def range_ok_def range_end_def healthy_source_def
      example_source_def healthy_sink_def example_sink_def no_error_def)

end
