(* ===== verification/Rtnl.thy ===== *)
theory Rtnl
  imports Sysio
begin

text \<open>
  Route netlink messages (lib/rtnl.c): requests are built attribute by
  attribute in a buffer of 512 bytes, messages are searched for an attribute,
  and the replies to a request are read until its end.  A message is its type,
  flags, sequence number and the bytes behind its header.
\<close>

section \<open>Requests\<close>

record nlmsg =
  nl_type :: u16
  nl_flags :: u16
  nl_seq :: u32
  nl_payload :: string

definition RTNL_REQ_MAX :: nat where "RTNL_REQ_MAX = 512"
definition HDRLEN :: nat where "HDRLEN = 16"

definition ALIGN4 :: "nat \<Rightarrow> nat" where
  "ALIGN4 n = (n + 3) div 4 * 4"

abbreviation nlmsg_len :: "nlmsg \<Rightarrow> nat" where
  "nlmsg_len m \<equiv> HDRLEN + length (nl_payload m)"

definition pad_align4 :: "string \<Rightarrow> string" where
  "pad_align4 s = s @ replicate (ALIGN4 (length s) - length s) (CHR 0x00)"

definition NLM_F_REQUEST :: u16 where "NLM_F_REQUEST = 0x01"
definition NLM_F_ACK :: u16 where "NLM_F_ACK = 0x04"
definition NLM_F_REPLACE :: u16 where "NLM_F_REPLACE = 0x100"
definition NLM_F_DUMP :: u16 where "NLM_F_DUMP = 0x300"
definition NLM_F_CREATE :: u16 where "NLM_F_CREATE = 0x400"

definition rtnl_req_init :: "u16 \<Rightarrow> u16 \<Rightarrow> string \<Rightarrow> nlmsg" where
  "rtnl_req_init type flags body =
     \<lparr>nl_type = type, nl_flags = or NLM_F_REQUEST flags, nl_seq = 0, nl_payload = pad_align4 body\<rparr>"

text \<open>A request that has no room for the attribute stays as it is.\<close>

definition rtnl_req_attr :: "u16 \<Rightarrow> string \<Rightarrow> nlmsg \<Rightarrow> rc \<times> nlmsg" where
  "rtnl_req_attr type data r =
     (let alen = 4 + length data in
      if nlmsg_len r + ALIGN4 alen > RTNL_REQ_MAX then (Some E2BIG, r)
      else (None, r\<lparr>nl_payload := nl_payload r @ pad_align4 (le_bytes 2 alen @ le_bytes 2 (unat type) @ data)\<rparr>))"

section \<open>Attributes of a message\<close>

text \<open>\<open>p\<close> is the position behind the header; the data of the first attribute of the type.\<close>

function rtnl_attr_loop :: "string \<Rightarrow> u16 \<Rightarrow> nat \<Rightarrow> string option" where
  "rtnl_attr_loop payload type p =
     (if p + 4 \<le> length payload then
        let len = le_at payload p 2 in
        if len < 4 \<or> p + len > length payload then None
        else if le_at payload (p + 2) 2 = unat type then Some (take (len - 4) (drop (p + 4) payload))
        else rtnl_attr_loop payload type (p + ALIGN4 len)
      else None)"
  by pat_completeness auto
termination
  by (relation "measure (\<lambda>(payload, type, p). length payload - p)") (auto simp: ALIGN4_def)

declare rtnl_attr_loop.simps [simp del]

definition rtnl_attr :: "nlmsg \<Rightarrow> nat \<Rightarrow> u16 \<Rightarrow> string option" where
  "rtnl_attr m hdrlen type = rtnl_attr_loop (nl_payload m) type (ALIGN4 hdrlen)"

section \<open>Replies\<close>

definition NLMSG_ERROR :: u16 where "NLMSG_ERROR = 2"
definition NLMSG_DONE :: u16 where "NLMSG_DONE = 3"

text \<open>
  One datagram: the messages whose length is sound, and whether the rest is
  malformed.  \<open>buf\<close> is what \<open>recv\<close> returned.
\<close>

function nl_split :: "string \<Rightarrow> nat \<Rightarrow> nlmsg list \<times> bool" where
  "nl_split buf off =
     (if off + HDRLEN \<le> length buf then
        let len = le_at buf off 4 in
        if len < HDRLEN \<or> off + len > length buf then ([], True)
        else
          let m = \<lparr>nl_type = of_nat (le_at buf (off + 4) 2), nl_flags = of_nat (le_at buf (off + 6) 2),
                   nl_seq = of_nat (le_at buf (off + 8) 4),
                   nl_payload = take (len - HDRLEN) (drop (off + HDRLEN) buf)\<rparr>;
              (ms, bad) = nl_split buf (off + ALIGN4 len)
          in (m # ms, bad)
      else ([], False))"
  by pat_completeness auto
termination
  by (relation "measure (\<lambda>(buf, off). length buf - off)") (auto simp: ALIGN4_def HDRLEN_def)

declare nl_split.simps [simp del]

text \<open>The error of an \<open>NLMSG_ERROR\<close> message, 0 for an acknowledgement.\<close>

definition nlmsg_error :: "nlmsg \<Rightarrow> rc" where
  "nlmsg_error m =
     (let e = to_int (int (le_at (nl_payload m) 0 4)) in if e = 0 then None else Some (Eother (- e)))"

text \<open>
  The messages of one datagram: \<open>Inr\<close> with the context when the receiving goes
  on, \<open>Inl\<close> with what \<open>receive\<close> returns.
\<close>

fun handle_msgs :: "u32 \<Rightarrow> (nlmsg \<Rightarrow> 'c \<Rightarrow> rc \<times> 'c) option \<Rightarrow> nlmsg list \<Rightarrow> 'c \<Rightarrow> rc option \<times> 'c" where
  "handle_msgs seq cb [] c = (None, c)"
| "handle_msgs seq cb (m # ms) c =
     (if nl_seq m \<noteq> seq then handle_msgs seq cb ms c
      else if nl_type m = NLMSG_DONE then (Some None, c)
      else if nl_type m = NLMSG_ERROR then (Some (nlmsg_error m), c)
      else case cb of
        None \<Rightarrow> handle_msgs seq cb ms c
      | Some f \<Rightarrow> (case f m c of (None, c) \<Rightarrow> handle_msgs seq cb ms c | (Some e, c) \<Rightarrow> (Some (Some e), c)))"

text \<open>
  \<open>recvs\<close> is what the successive \<open>recv\<close> calls return; \<open>None\<close> when the list
  ends before the reply does, where the source waits on.
\<close>

fun receive :: "u32 \<Rightarrow> (nlmsg \<Rightarrow> 'c \<Rightarrow> rc \<times> 'c) option \<Rightarrow> string res list \<Rightarrow> 'c \<Rightarrow> rc option \<times> 'c" where
  "receive seq cb [] c = (None, c)"
| "receive seq cb (Inl e # recvs) c = (if e = EINTR then receive seq cb recvs c else (Some (Some e), c))"
| "receive seq cb (Inr buf # recvs) c =
     (let (ms, bad) = nl_split buf 0 in
      case handle_msgs seq cb ms c of
        (Some r, c) \<Rightarrow> (Some r, c)
      | (None, c) \<Rightarrow> if bad then (Some (Some EBADMSG), c) else receive seq cb recvs c)"

text \<open>The sequence number is the one before plus one; the send may fail.\<close>

definition send_req :: "u32 \<Rightarrow> rc \<Rightarrow> nlmsg \<Rightarrow> rc \<times> nlmsg" where
  "send_req seq sent r = (sent, r\<lparr>nl_seq := seq + 1\<rparr>)"

definition rtnl_talk :: "u32 \<Rightarrow> rc \<Rightarrow> string res list \<Rightarrow> nlmsg \<Rightarrow> rc option" where
  "rtnl_talk seq sent recvs r =
     (let (ret, r) = send_req seq sent (r\<lparr>nl_flags := or (nl_flags r) NLM_F_ACK\<rparr>) in
      if ret \<noteq> None then Some ret else fst (receive (nl_seq r) None recvs ()))"

definition rtnl_dump ::
    "u32 \<Rightarrow> rc \<Rightarrow> string res list \<Rightarrow> u16 \<Rightarrow> (nlmsg \<Rightarrow> 'c \<Rightarrow> rc \<times> 'c) \<Rightarrow> 'c \<Rightarrow> rc option \<times> 'c" where
  "rtnl_dump seq sent recvs type cb c =
     (let (ret, r) = send_req seq sent (rtnl_req_init type NLM_F_DUMP [CHR 0x00]) in
      if ret \<noteq> None then (Some ret, c) else receive (nl_seq r) (Some cb) recvs c)"

section \<open>Reading attributes back\<close>

definition attr_bytes :: "u16 \<times> string \<Rightarrow> string" where
  "attr_bytes = (\<lambda>(type, data). pad_align4 (le_bytes 2 (4 + length data) @ le_bytes 2 (unat type) @ data))"

lemma ALIGN4_bounds: "n \<le> ALIGN4 n" "ALIGN4 (ALIGN4 n) = ALIGN4 n"
  unfolding ALIGN4_def by presburger+

lemma pad_align4_length [simp]: "length (pad_align4 s) = ALIGN4 (length s)"
  using ALIGN4_bounds(1) [of "length s"] by (simp add: pad_align4_def)

lemma attr_bytes_length: "length (attr_bytes (t, d)) = ALIGN4 (4 + length d)"
  by (simp add: attr_bytes_def numeral_eq_Suc)

lemma le_at_skip: "le_at (pre @ s) (length pre + k) n = le_at s k n"
  by (simp add: le_at_def)

lemma attr_loop_reads:
  "\<forall>(t, d) \<in> set attrs. length d < 2 ^ 16 - 4 \<Longrightarrow>
   rtnl_attr_loop (pre @ concat (map attr_bytes attrs)) t (length pre) = map_of attrs t"
proof (induction attrs arbitrary: pre)
  case Nil
  then show ?case by (subst rtnl_attr_loop.simps) simp
next
  case (Cons a attrs)
  obtain u d where a: "a = (u, d)" by fastforce
  let ?rest = "concat (map attr_bytes attrs)" and ?s = "pre @ concat (map attr_bytes (a # attrs))"
  let ?pad = "replicate (ALIGN4 (4 + length d) - (4 + length d)) (CHR 0x00)"
  have s: "?s = pre @ le_bytes 2 (4 + length d) @ le_bytes 2 (unat u) @ d @ ?pad @ ?rest"
    by (simp add: a attr_bytes_def pad_align4_def numeral_eq_Suc)
  have len: "le_at ?s (length pre) 2 = 4 + length d"
    using Cons.prems by (subst s) (simp add: a le_at_def le_val_bytes)
  have type: "le_at ?s (length pre + 2) 2 = unat u"
  proof -
    have "unat u < 2 ^ LENGTH(16)" by (rule unsigned_less)
    then have "unat u < 256 ^ 2" by simp
    then show ?thesis by (subst s) (simp add: le_at_def le_val_bytes)
  qed
  have fit: "length pre + ALIGN4 (4 + length d) \<le> length ?s" by (simp add: a attr_bytes_length)
  then have fit': "length pre + 4 \<le> length ?s" "\<not> length pre + (4 + length d) > length ?s"
    using ALIGN4_bounds(1) [of "4 + length d"] by linarith+
  have data: "take (4 + length d - 4) (drop (length pre + 4) ?s) = d" by (subst s) simp
  have nx: "rtnl_attr_loop ?s t (length pre + ALIGN4 (4 + length d)) = map_of attrs t"
    using Cons.IH [of "pre @ attr_bytes a"] Cons.prems by (simp add: a attr_bytes_length)
  have "rtnl_attr_loop ?s t (length pre) = (if unat u = unat t then Some d else map_of attrs t)"
    using fit' by (subst rtnl_attr_loop.simps) (simp only: Let_def len type data nx if_True if_False simp_thms, simp)
  then show ?case by (simp add: a unsigned_word_eqI) (metis unsigned_word_eqI)
qed

lemma req_attrs_payload:
  "fold_rc (\<lambda>(t, d). rtnl_req_attr t d) attrs r = (None, r') \<Longrightarrow>
   nl_payload r' = nl_payload r @ concat (map attr_bytes attrs) \<and> (\<forall>(t, d) \<in> set attrs. length d < 2 ^ 16 - 4)"
proof (induction attrs arbitrary: r)
  case (Cons a attrs)
  obtain t d where a: "a = (t, d)" by fastforce
  obtain r1 where 1: "rtnl_req_attr t d r = (None, r1)" and 2: "fold_rc (\<lambda>(t, d). rtnl_req_attr t d) attrs r1 = (None, r')"
    using Cons.prems unfolding fold_rc_done_Cons a by auto
  have "ALIGN4 (4 + length d) \<le> 512" and p: "nl_payload r1 = nl_payload r @ attr_bytes (t, d)"
    using 1 by (auto simp: rtnl_req_attr_def Let_def RTNL_REQ_MAX_def attr_bytes_def split: if_splits)
  then have "length d < 2 ^ 16 - 4" using ALIGN4_bounds(1) [of "4 + length d"] by simp
  then show ?case using Cons.IH [OF 2] p by (simp add: a)
qed simp

text \<open>C23: the attributes put into a request are found in it: for any sequence of attributes that fits the
  buffer, looking up a type yields the data of the first attribute of that type, and nothing for a type that
  was not put in.\<close>

theorem rtnl_attrs_roundtrip:
  assumes "fold_rc (\<lambda>(t, d). rtnl_req_attr t d) attrs (rtnl_req_init type flags body) = (None, r)"
  shows "rtnl_attr r (length body) t = map_of attrs t"
  using attr_loop_reads [of attrs "pad_align4 body" t] req_attrs_payload [OF assms]
  by (simp add: rtnl_attr_def rtnl_req_init_def)

theorem rtnl_attrs_roundtrip_witness:
  "\<exists>r. fold_rc (\<lambda>(t, d). rtnl_req_attr t d) [(1, ''abcdef''), (4, ''mtu!''), (3, ''eth0'')]
         (rtnl_req_init 16 0 (replicate 16 (CHR 0x00))) = (None, r) \<and>
     rtnl_attr r 16 4 = Some ''mtu!'' \<and> rtnl_attr r 16 7 = None"
proof -
  let ?as = "[(1, ''abcdef''), (4, ''mtu!''), (3, ''eth0'')] :: (u16 \<times> string) list"
  let ?b = "replicate 16 (CHR 0x00)"
  obtain r where r: "fold_rc (\<lambda>(t, d). rtnl_req_attr t d) ?as (rtnl_req_init 16 0 ?b) = (None, r)"
    by (simp add: rtnl_req_attr_def rtnl_req_init_def Let_def RTNL_REQ_MAX_def HDRLEN_def ALIGN4_def)
  then show ?thesis
    using rtnl_attrs_roundtrip [OF r, of 4] rtnl_attrs_roundtrip [OF r, of 7] by simp
qed

end
