(* ===== verification/Inet.thy ===== *)
theory Inet
  imports Sysio
begin

text \<open>
  The textual form of network addresses as the C library's \<open>inet_ntop\<close> and
  \<open>inet_pton\<close> write and read it.  An address is its 4 or 16 bytes; \<open>None\<close> is a
  text that \<open>inet_pton\<close> refuses.  Reading back what was written is the result
  the snapshot's text form rests on.
\<close>

section \<open>IPv4\<close>

definition inet_ntop4 :: "string \<Rightarrow> string" where
  "inet_ntop4 bs = join ''.'' (map (\<lambda>c. dec (of_char c)) bs)"

text \<open>\<open>prev\<close>: the octets before the current one, \<open>cur\<close>; \<open>saw\<close>: it has a digit.\<close>

fun pton4_loop :: "string \<Rightarrow> nat list \<Rightarrow> nat \<Rightarrow> bool \<Rightarrow> nat \<Rightarrow> nat list option" where
  "pton4_loop [] prev cur saw octets = (if octets < 4 then None else Some (prev @ [cur]))"
| "pton4_loop (c # s) prev cur saw octets =
     (if isdigit c then
        let new = cur * 10 + digit_val c in
        if saw \<and> cur = 0 then None
        else if new > 255 then None
        else if \<not> saw \<and> octets + 1 > 4 then None
        else pton4_loop s prev new True (if saw then octets else octets + 1)
      else if c = CHR ''.'' \<and> saw then
        if octets = 4 then None else pton4_loop s (prev @ [cur]) 0 False octets
      else None)"

definition inet_pton4 :: "string \<Rightarrow> string option" where
  "inet_pton4 s = map_option (map char_of) (pton4_loop s [] 0 False 0)"

section \<open>IPv6\<close>

text \<open>The longest run of zero words, the first one of that length: where it starts and its length.\<close>

definition better_run :: "(nat \<times> nat) option \<Rightarrow> (nat \<times> nat) option \<Rightarrow> (nat \<times> nat) option" where
  "better_run cur best =
     (case cur of None \<Rightarrow> best
      | Some (b, n) \<Rightarrow> (case best of None \<Rightarrow> cur | Some (b', n') \<Rightarrow> if n > n' then cur else best))"

fun run_loop :: "nat list \<Rightarrow> nat \<Rightarrow> (nat \<times> nat) option \<Rightarrow> (nat \<times> nat) option \<Rightarrow> (nat \<times> nat) option" where
  "run_loop [] i cur best = better_run cur best"
| "run_loop (w # ws) i cur best =
     (if w = 0 then run_loop ws (i + 1) (case cur of None \<Rightarrow> Some (i, 1) | Some (b, n) \<Rightarrow> Some (b, n + 1)) best
      else run_loop ws (i + 1) None (better_run cur best))"

definition best_run :: "nat list \<Rightarrow> (nat \<times> nat) option" where
  "best_run ws = (case run_loop ws 0 None None of None \<Rightarrow> None | Some (b, n) \<Rightarrow> if n < 2 then None else Some (b, n))"

definition words6 :: "string \<Rightarrow> nat list" where
  "words6 bs = map (\<lambda>i. of_char (bs ! (2 * i)) * 256 + of_char (bs ! (2 * i + 1))) [0 ..< 8]"

definition piece6 :: "nat list \<Rightarrow> (nat \<times> nat) option \<Rightarrow> nat \<Rightarrow> string" where
  "piece6 ws best i =
     (if (case best of None \<Rightarrow> False | Some (b, n) \<Rightarrow> b \<le> i \<and> i < b + n)
      then if i = fst (the best) then '':'' else []
      else (if i \<noteq> 0 then '':'' else []) @ hex (ws ! i))"

definition inet_ntop6 :: "string \<Rightarrow> string" where
  "inet_ntop6 bs =
     (let ws = words6 bs; best = best_run ws in
      if best = Some (0, 6) \<or> best = Some (0, 5) \<and> ws ! 5 = 0xffff then
        concat (map (piece6 ws best) [0 ..< 6]) @ '':'' @ inet_ntop4 (drop 12 bs)
      else
        concat (map (piece6 ws best) [0 ..< 8]) @
        (case best of None \<Rightarrow> [] | Some (b, n) \<Rightarrow> if b + n = 8 then '':'' else []))"

text \<open>
  \<open>cur\<close> is where the current token starts, \<open>xd\<close> its digits so far and \<open>v\<close>
  their value, \<open>tp\<close> the bytes written and \<open>col\<close> how many there were at \<open>::\<close>.
\<close>

fun pton6_loop :: "string \<Rightarrow> string \<Rightarrow> nat \<Rightarrow> nat \<Rightarrow> string \<Rightarrow> nat option \<Rightarrow> (string \<times> nat option) option" where
  "pton6_loop cur [] xd v tp col =
     (if xd > 0 then if length tp + 2 > 16 then None else Some (tp @ be_bytes 2 v, col) else Some (tp, col))"
| "pton6_loop cur (c # s) xd v tp col =
     (if digit_val c < 16 then
        if xd = 4 \<or> v * 16 + digit_val c > 0xffff then None else pton6_loop cur s (xd + 1) (v * 16 + digit_val c) tp col
      else if c = CHR '':'' then
        if xd = 0 then if col \<noteq> None then None else pton6_loop s s xd v tp (Some (length tp))
        else if s = [] then None
        else if length tp + 2 > 16 then None
        else pton6_loop s s 0 0 (tp @ be_bytes 2 v) col
      else if c = CHR ''.'' \<and> length tp + 4 \<le> 16 then
        (case inet_pton4 cur of None \<Rightarrow> None | Some b \<Rightarrow> Some (tp @ b, col))
      else None)"

definition pton6_finish :: "string \<times> nat option \<Rightarrow> string option" where
  "pton6_finish = (\<lambda>(tp, col). case col of
       None \<Rightarrow> if length tp = 16 then Some tp else None
     | Some k \<Rightarrow> if length tp = 16 then None
                else Some (take k tp @ replicate (16 - length tp) (CHR 0x00) @ drop k tp))"

definition inet_pton6 :: "string \<Rightarrow> string option" where
  "inet_pton6 s =
     (if s = [] \<or> hd s = CHR '':'' \<and> (tl s = [] \<or> hd (tl s) \<noteq> CHR '':'') then None
      else let s = (if hd s = CHR '':'' then tl s else s)
           in case pton6_loop s s 0 0 [] None of None \<Rightarrow> None | Some r \<Rightarrow> pton6_finish r)"

section \<open>Both families\<close>

definition AF_INET :: nat where "AF_INET = 2"
definition AF_INET6 :: nat where "AF_INET6 = 10"

definition inet_ntop :: "nat \<Rightarrow> string \<Rightarrow> nat \<Rightarrow> string option" where
  "inet_ntop family bs len =
     (if family = AF_INET then let s = inet_ntop4 (take 4 bs) in if length s < len then Some s else None
      else if family = AF_INET6 then let s = inet_ntop6 (take 16 bs) in if length s < len then Some s else None
      else None)"

definition inet_pton :: "nat \<Rightarrow> string \<Rightarrow> string option" where
  "inet_pton family s =
     (if family = AF_INET then inet_pton4 s else if family = AF_INET6 then inet_pton6 s else None)"

section \<open>What was written reads back: IPv4\<close>

lemma num_str_length: "n < b ^ k \<Longrightarrow> 2 \<le> b \<Longrightarrow> 0 < k \<Longrightarrow> length (num_str b n) \<le> k"
proof (induction k arbitrary: n)
  case (Suc k)
  show ?case
  proof (cases "n < b")
    case True
    then show ?thesis by (subst num_str.simps) simp
  next
    case False
    then have k: "0 < k" using Suc.prems by (cases k) auto
    have "n div b < b ^ k" using Suc.prems by (simp add: div_less_iff_less_mult mult.commute)
    then show ?thesis using Suc.IH [OF _ Suc.prems(2) k] False Suc.prems(2) by (subst num_str.simps) simp
  qed
qed simp

lemma pton4_octet:
  assumes "n \<le> 255" and "octets < 4"
  shows "pton4_loop (dec n @ s) prev 0 False octets = pton4_loop s prev n True (octets + 1)"
  using assms
proof (induction n arbitrary: s rule: less_induct)
  case (less n)
  show ?case
  proof (cases "n < 10")
    case True
    then show ?thesis using less.prems by (subst num_str.simps) simp
  next
    case False
    have "n div 10 < n" "n div 10 \<le> 255" "n div 10 \<noteq> 0" using False less.prems by auto
    then show ?thesis
      using less.IH [of "n div 10" "digit_char (n mod 10) # s"] less.prems False by (subst num_str.simps) simp
  qed
qed

lemma length_4: "length bs = 4 \<Longrightarrow> \<exists>a b c d. bs = [a, b, c, d]"
  by (auto simp: length_Suc_conv numeral_eq_Suc)

lemma inet_pton4_ntop4: "length bs = 4 \<Longrightarrow> inet_pton4 (inet_ntop4 bs) = Some bs"
proof -
  assume "length bs = 4"
  then obtain a b c d where bs: "bs = [a, b, c, d]" using length_4 by blast
  have o: "of_char x \<le> (255 :: nat)" for x :: char using nat_of_char_less_256 [of x] by linarith
  show ?thesis
    using pton4_octet [OF o, of 0 a] pton4_octet [OF o, of 1 b] pton4_octet [OF o, of 2 c] pton4_octet [OF o, of 3 d "[]"]
    by (simp add: bs inet_pton4_def inet_ntop4_def isdigit_def numeral_2_eq_2 numeral_3_eq_3)
qed

section \<open>What was written reads back: IPv6\<close>

lemma num_val_less: "\<forall>c \<in> set ds. digit_val c < b \<Longrightarrow> num_val b ds < b ^ length ds"
proof (induction ds rule: rev_induct)
  case (snoc d ds)
  then have "num_val b ds + 1 \<le> b ^ length ds" by simp
  then have "(num_val b ds + 1) * b \<le> b ^ length ds * b" by (rule mult_right_mono) simp
  then show ?case using snoc.prems by (simp add: num_val_append algebra_simps)
qed simp

lemma pton6_digits:
  assumes "\<forall>c \<in> set ds. digit_val c < 16" and "length ds \<le> 4"
  shows "pton6_loop cur (ds @ s) 0 0 tp col = pton6_loop cur s (length ds) (num_val 16 ds) tp col"
  using assms
proof (induction ds arbitrary: s rule: rev_induct)
  case (snoc d ds)
  have "num_val 16 (ds @ [d]) < 16 ^ length (ds @ [d])" using snoc.prems by (intro num_val_less) auto
  also have "\<dots> \<le> 16 ^ 4" using snoc.prems by (intro power_increasing) auto
  finally have "num_val 16 (ds @ [d]) \<le> 0xffff" by simp
  then show ?case using snoc.IH [of "d # s"] snoc.prems by (simp add: num_val_append)
qed simp

lemma pton6_hex:
  assumes "w < 65536"
  shows "pton6_loop cur (hex w @ s) 0 0 tp col = pton6_loop cur s (length (hex w)) w tp col"
  using pton6_digits [of "hex w"] hex_digits [of w] num_str_length [of w 16 4] assms by simp

lemma pton6_piece:
  assumes "w < 65536" and "s \<noteq> []" and "length tp \<le> 14"
  shows "pton6_loop cur (hex w @ CHR '':'' # s) 0 0 tp col = pton6_loop s s 0 0 (tp @ be_bytes 2 w) col"
  using assms pton6_hex [of w cur "CHR '':'' # s"] by (simp add: digit_val_def)

abbreviation pieces :: "nat list \<Rightarrow> string" where
  "pieces ws \<equiv> concat (map (\<lambda>w. hex w @ '':'') ws)"

abbreviation bytes_of :: "nat list \<Rightarrow> string" where
  "bytes_of ws \<equiv> concat (map (be_bytes 2) ws)"

lemma bytes_of_length [simp]: "length (bytes_of ws) = 2 * length ws"
  by (induction ws) auto

lemma pton6_pieces:
  assumes "\<forall>w \<in> set ws. w < 65536" and "s \<noteq> []" and "length tp + 2 * length ws \<le> 16"
  shows "pton6_loop cur (pieces ws @ s) 0 0 tp col = pton6_loop (if ws = [] then cur else s) s 0 0 (tp @ bytes_of ws) col"
  using assms
proof (induction ws arbitrary: tp cur)
  case (Cons w ws)
  have "pton6_loop cur (pieces (w # ws) @ s) 0 0 tp col = pton6_loop (pieces ws @ s) (pieces ws @ s) 0 0 (tp @ be_bytes 2 w) col"
    using Cons.prems pton6_piece [of w "pieces ws @ s" tp cur col] by simp
  also have "\<dots> = pton6_loop s s 0 0 ((tp @ be_bytes 2 w) @ bytes_of ws) col"
    using Cons.prems by (subst Cons.IH) auto
  finally show ?case by simp
qed simp

lemma join_pieces: "join '':'' (map hex (ws @ [w])) = pieces ws @ hex w"
  by (induction ws) (simp_all add: join_Cons)

lemma pton6_all:
  assumes "\<forall>w \<in> set ws. w < 65536" and "length tp + 2 * length ws \<le> 16"
  shows "pton6_loop cur (join '':'' (map hex ws)) 0 0 tp col = Some (tp @ bytes_of ws, col)"
proof (cases ws rule: rev_cases)
  case (snoc ws' w)
  have w: "w < 65536" "hex w \<noteq> []" using assms(1) snoc by simp_all
  have "pton6_loop cur (join '':'' (map hex ws)) 0 0 tp col =
      pton6_loop (if ws' = [] then cur else hex w) (hex w) 0 0 (tp @ bytes_of ws') col"
    unfolding snoc join_pieces using assms snoc by (intro pton6_pieces) auto
  also have "\<dots> = Some (tp @ bytes_of ws, col)"
    using pton6_hex [of w _ "[]"] w assms(2) snoc by simp
  finally show ?thesis .
qed simp

lemma num_str_hd: "num_str 16 w \<noteq> [] \<and> hd (num_str 16 w) \<noteq> CHR '':''"
  using hd_num_str [of 16 w] by (auto simp: digit_val_def)

lemma pton6_colons:
  assumes "\<forall>w \<in> set A \<union> set B. w < 65536" and "length A + length B < 8"
  shows "inet_pton6 (join '':'' (map hex A) @ ''::'' @ join '':'' (map hex B)) =
    Some (bytes_of A @ replicate (16 - 2 * length A - 2 * length B) (CHR 0x00) @ bytes_of B)"
proof -
  let ?b = "join '':'' (map hex B)" and ?n = "Some (2 * length A)"
  have b: "pton6_loop cur ?b 0 0 (bytes_of A) ?n = Some (bytes_of A @ bytes_of B, ?n)" for cur
    using assms by (intro pton6_all) auto
  then have c: "pton6_loop cur (CHR '':'' # ?b) 0 0 (bytes_of A) None = Some (bytes_of A @ bytes_of B, ?n)" for cur
    by (simp add: digit_val_def)
  have f: "pton6_finish (bytes_of A @ bytes_of B, ?n) =
      Some (bytes_of A @ replicate (16 - 2 * length A - 2 * length B) (CHR 0x00) @ bytes_of B)"
    using assms(2) by (simp add: pton6_finish_def)
  show ?thesis
  proof (cases A rule: rev_cases)
    case Nil
    then show ?thesis using c f by (simp add: inet_pton6_def del: pton6_loop.simps)
  next
    case (snoc A' a)
    let ?s = "pieces A @ CHR '':'' # ?b"
    have s: "join '':'' (map hex A) @ ''::'' @ ?b = ?s" unfolding snoc join_pieces by simp
    have "?s \<noteq> []" "hd ?s \<noteq> CHR '':''" using num_str_hd snoc by (cases A'; simp)+
    moreover have "pton6_loop ?s ?s 0 0 [] None = Some (bytes_of A @ bytes_of B, ?n)"
      using assms snoc c by (subst pton6_pieces) auto
    ultimately show ?thesis using f unfolding s by (simp add: inet_pton6_def del: pton6_loop.simps)
  qed
qed

lemma pton6_embedded:
  assumes "\<forall>w \<in> set A. w < 65536" and "length A < 6" and "length bs = 4"
  shows "inet_pton6 (''::'' @ pieces A @ inet_ntop4 bs) =
    Some (replicate (12 - 2 * length A) (CHR 0x00) @ bytes_of A @ bs)"
proof -
  obtain a r where bs: "inet_ntop4 bs = dec (of_char a) @ CHR ''.'' # r"
    using length_4 [OF assms(3)] by (auto simp: inet_ntop4_def)
  have "of_char a < (10 :: nat) ^ 3" using nat_of_char_less_256 [of a] by (rule less_trans) simp
  then have "length (dec (of_char a)) \<le> 3" by (rule num_str_length) simp_all
  moreover have "\<forall>c \<in> set (dec (of_char a)). digit_val c < 16" using dec_digits [of "of_char a"] by force
  ultimately have v4: "pton6_loop (inet_ntop4 bs) (inet_ntop4 bs) 0 0 (bytes_of A) (Some 0) = Some (bytes_of A @ bs, Some 0)"
    using pton6_digits [of "dec (of_char a)" "inet_ntop4 bs" "CHR ''.'' # r"] inet_pton4_ntop4 [OF assms(3)] assms(2)
    by (simp add: bs digit_val_def)
  have "pton6_loop cur (pieces A @ inet_ntop4 bs) 0 0 [] (Some 0) = Some (bytes_of A @ bs, Some 0)"
    if "A = [] \<longrightarrow> cur = inet_ntop4 bs" for cur
    using pton6_pieces [of A "inet_ntop4 bs" "[]" cur "Some 0"] assms(1,2) v4 bs that by (cases "A = []") auto
  then have "pton6_loop (CHR '':'' # pieces A @ inet_ntop4 bs) (CHR '':'' # pieces A @ inet_ntop4 bs) 0 0 [] None =
      Some (bytes_of A @ bs, Some 0)"
    by (simp add: digit_val_def)
  then show ?thesis using assms(2,3) by (simp add: inet_pton6_def pton6_finish_def del: pton6_loop.simps)
qed

lemma better_run_in: "better_run cur best = Some r \<Longrightarrow> cur = Some r \<or> best = Some r"
  by (auto simp: better_run_def split: option.splits prod.splits if_splits)

definition zero_run :: "nat list \<Rightarrow> nat \<times> nat \<Rightarrow> bool" where
  "zero_run ws = (\<lambda>(b, n). b + n \<le> length ws \<and> (\<forall>j. b \<le> j \<and> j < b + n \<longrightarrow> ws ! j = 0))"

lemma run_loop_zero:
  assumes "run_loop ws (length pre) cur best = Some r"
    and "\<And>q. best = Some q \<Longrightarrow> zero_run (pre @ ws) q"
    and "\<And>b n. cur = Some (b, n) \<Longrightarrow> b + n = length pre \<and> zero_run (pre @ ws) (b, n)"
  shows "zero_run (pre @ ws) r"
  using assms
proof (induction ws arbitrary: pre cur best)
  case Nil
  then show ?case by (cases r) (auto dest!: better_run_in)
next
  case (Cons w ws)
  show ?case
  proof (cases "w = 0")
    case True
    let ?cur = "case cur of None \<Rightarrow> Some (length pre, 1) | Some (b, n) \<Rightarrow> Some (b, n + 1)"
    have "b + n = length (pre @ [w]) \<and> zero_run ((pre @ [w]) @ ws) (b, n)" if "?cur = Some (b, n)" for b n
      using that Cons.prems(3) True by (auto simp: zero_run_def nth_append less_Suc_eq split: option.splits prod.splits)
    then show ?thesis using Cons.IH [of "pre @ [w]" ?cur best] Cons.prems(1,2) True by simp
  next
    case False
    have "zero_run ((pre @ [w]) @ ws) q" if "better_run cur best = Some q" for q
      using better_run_in [OF that] Cons.prems(2,3) by (cases q) auto
    then show ?thesis using Cons.IH [of "pre @ [w]" None "better_run cur best"] Cons.prems(1) False by simp
  qed
qed

lemma best_run_zero:
  assumes "best_run ws = Some (b, n)"
  shows "2 \<le> n \<and> b + n \<le> length ws \<and> ws = take b ws @ replicate n 0 @ drop (b + n) ws"
proof -
  have n: "2 \<le> n" "run_loop ws 0 None None = Some (b, n)"
    using assms by (auto simp: best_run_def split: option.splits prod.splits if_splits)
  then have z: "zero_run ws (b, n)" using run_loop_zero [of ws "[]" None None] by simp
  then have "take n (drop b ws) = replicate n 0"
    by (intro nth_equalityI) (auto simp: zero_run_def)
  then have "ws = take b ws @ replicate n 0 @ drop (b + n) ws"
    by (metis append_take_drop_id drop_drop add.commute)
  then show ?thesis using n z by (simp add: zero_run_def)
qed

lemma map_nth_upt: "b \<le> length ws \<Longrightarrow> map ((!) ws) [a ..< b] = drop a (take b ws)"
  by (intro nth_equalityI) auto

lemma colon_pieces: "concat (map (\<lambda>w. CHR '':'' # hex w) ws) = (if ws = [] then [] else '':'' @ join '':'' (map hex ws))"
  by (induction ws) (auto simp: join_Cons)

lemma first_pieces:
  assumes "b \<le> length ws"
  shows "concat (map (\<lambda>i. (if i \<noteq> 0 then '':'' else []) @ hex (ws ! i)) [0 ..< b]) = join '':'' (map hex (take b ws))"
proof (cases b)
  case (Suc k)
  define t where "t = drop 1 (take b ws)"
  have "concat (map (\<lambda>i. (if i \<noteq> 0 then '':'' else []) @ hex (ws ! i)) [Suc 0 ..< b]) =
      concat (map (\<lambda>w. CHR '':'' # hex w) (map ((!) ws) [Suc 0 ..< b]))"
    by (intro arg_cong [where f = concat]) simp
  also have "map ((!) ws) [Suc 0 ..< b] = t" using map_nth_upt [OF assms, of 1] by (simp add: t_def)
  finally have "concat (map (\<lambda>i. (if i \<noteq> 0 then '':'' else []) @ hex (ws ! i)) [0 ..< b]) =
      hex (ws ! 0) @ concat (map (\<lambda>w. CHR '':'' # hex w) t)"
    using Suc by (simp add: upt_conv_Cons del: upt_Suc)
  moreover have "take b ws = ws ! 0 # t" using assms Suc by (cases ws) (auto simp: t_def)
  ultimately show ?thesis by (simp add: colon_pieces join_Cons)
qed simp

lemma piece6_None: "concat (map (piece6 ws None) [0 ..< 8]) = join '':'' (map hex (take 8 ws))" if "8 \<le> length ws"
  using first_pieces [OF that] unfolding piece6_def [abs_def] by simp

lemma piece6_Some:
  assumes "b + n \<le> m" and "m \<le> length ws" and "0 < n"
  shows "concat (map (piece6 ws (Some (b, n))) [0 ..< m]) =
    join '':'' (map hex (take b ws)) @ '':'' @
    (if b + n = m then [] else '':'' @ join '':'' (map hex (drop (b + n) (take m ws))))"
proof -
  let ?p = "piece6 ws (Some (b, n))"
  have "[0 ..< m] = [0 ..< b] @ [b ..< b + n] @ [b + n ..< m]"
    using assms(1) upt_add_eq_append [of 0 b n] upt_add_eq_append [of 0 "b + n" "m - (b + n)"] by simp
  moreover have "concat (map ?p [0 ..< b]) = join '':'' (map hex (take b ws))"
    using assms by (subst first_pieces [symmetric]) (auto simp: piece6_def intro!: arg_cong [where f = concat])
  moreover have "concat (map ?p [b ..< b + n]) = '':''"
  proof -
    have "concat (map ?p [Suc b ..< b + n]) = []" by (auto simp: piece6_def)
    then show ?thesis using assms(3) by (simp add: upt_conv_Cons piece6_def)
  qed
  moreover have "concat (map ?p [b + n ..< m]) = concat (map (\<lambda>w. CHR '':'' # hex w) (map ((!) ws) [b + n ..< m]))"
    using assms(3) by (intro arg_cong [where f = concat]) (simp add: piece6_def)
  ultimately show ?thesis using assms by (simp add: map_nth_upt colon_pieces)
qed

section \<open>The round trip\<close>

lemma words6_less: "w \<in> set (words6 bs) \<Longrightarrow> w < 65536"
proof -
  assume "w \<in> set (words6 bs)"
  then obtain c d :: char where "w = of_char c * 256 + of_char d" by (auto simp: words6_def)
  moreover have "of_char c < (256 :: nat)" "of_char d < (256 :: nat)" by simp_all
  ultimately show ?thesis by linarith
qed

lemma length_words6 [simp]: "length (words6 bs) = 8"
  by (simp add: words6_def)

lemma be_bytes_2: "be_bytes 2 (of_char c * 256 + of_char d) = [c, d]"
  by (simp add: numeral_2_eq_2)

lemma bytes_words6:
  assumes "length bs = 16"
  shows "bytes_of (words6 bs) = bs"
proof -
  have "bytes_of (words6 bs) = concat (map (\<lambda>i. [bs ! (2 * i), bs ! (2 * i + 1)]) [0 ..< 8])"
    by (simp add: words6_def comp_def be_bytes_2)
  also have "\<dots> = map ((!) bs) [0 ..< 16]" by (simp add: upt_rec) (simp add: numeral_eq_Suc)
  also have "\<dots> = bs" using assms map_nth [of bs] by simp
  finally show ?thesis .
qed

lemma bytes_of_zeros: "bytes_of (replicate n 0) = replicate (2 * n) (CHR 0x00)"
  by (induction n) (auto simp: numeral_2_eq_2 char_of_def)

lemma ntop6_compressed:
  assumes "best_run (words6 bs) = Some (b, n)" and "length bs = 16"
  shows "bs = bytes_of (take b (words6 bs)) @ replicate (2 * n) (CHR 0x00) @ bytes_of (drop (b + n) (words6 bs))"
proof -
  have "bs = bytes_of (take b (words6 bs) @ replicate n 0 @ drop (b + n) (words6 bs))"
    using best_run_zero [OF assms(1)] bytes_words6 [OF assms(2)] by simp
  then show ?thesis unfolding map_append concat_append bytes_of_zeros .
qed

lemma inet_pton6_ntop6:
  assumes bs: "length bs = 16"
  shows "inet_pton6 (inet_ntop6 bs) = Some bs"
proof -
  let ?ws = "words6 bs"
  have small: "\<forall>w \<in> set (take i ?ws) \<union> set (drop j ?ws). w < 65536" for i j
    using words6_less by (auto dest: in_set_takeD in_set_dropD)
  show ?thesis
  proof (cases "best_run ?ws")
    case None
    have s: "inet_ntop6 bs = join '':'' (map hex ?ws)" using piece6_None [of ?ws] by (simp add: inet_ntop6_def None)
    obtain w ws where ws: "?ws = w # ws" by (cases ?ws) (use length_words6 [of bs] in auto)
    have "inet_ntop6 bs \<noteq> []" "hd (inet_ntop6 bs) \<noteq> CHR '':''" using num_str_hd [of w] by (auto simp: s ws join_Cons)
    moreover have "pton6_loop (inet_ntop6 bs) (inet_ntop6 bs) 0 0 [] None = Some (bs, None)"
      using pton6_all [of ?ws "[]"] small [of 8 8] bytes_words6 [OF bs] by (simp add: s)
    ultimately show ?thesis using bs by (simp add: inet_pton6_def pton6_finish_def)
  next
    case (Some r)
    then obtain b n where r: "best_run ?ws = Some (b, n)" by (cases r) auto
    note run = best_run_zero [OF r]
    note split = ntop6_compressed [OF r bs]
    show ?thesis
    proof (cases "(b, n) = (0, 6) \<or> (b, n) = (0, 5) \<and> ?ws ! 5 = 0xffff")
      case True
      let ?A = "drop n (take 6 ?ws)"
      have "concat (map (piece6 ?ws (Some (b, n))) [0 ..< 6]) @ '':'' = ''::'' @ pieces ?A"
        using piece6_Some [of b n 6 ?ws] True run by (cases ?A rule: rev_cases) (auto simp: join_pieces [simplified])
      then have s: "inet_ntop6 bs = ''::'' @ pieces ?A @ inet_ntop4 (drop 12 bs)"
        using True by (auto simp: inet_ntop6_def r Let_def)
      have "bs = bytes_of (take 6 ?ws) @ bytes_of (drop 6 ?ws)"
        by (metis append_take_drop_id bytes_words6 [OF bs] concat_append map_append)
      then have "drop 12 bs = bytes_of (drop 6 ?ws)"
        using append_eq_conv_conj [of "bytes_of (take 6 ?ws)" "bytes_of (drop 6 ?ws)" bs] by simp
      moreover have "drop n ?ws = ?A @ drop 6 ?ws" using True append_take_drop_id [of "6 - n" "drop n ?ws"] by (auto simp: drop_take)
      ultimately have "bs = replicate (12 - 2 * length ?A) (CHR 0x00) @ bytes_of ?A @ drop 12 bs"
        using split True by auto
      then show ?thesis unfolding s using small [of 6 n] True bs by (subst pton6_embedded) (auto dest: in_set_dropD)
    next
      case False
      have s: "inet_ntop6 bs = join '':'' (map hex (take b ?ws)) @ ''::'' @ join '':'' (map hex (drop (b + n) ?ws))"
        using False piece6_Some [of b n 8 ?ws] run by (auto simp: inet_ntop6_def r Let_def)
      have "b + n \<le> 8" using run by simp
      then have "16 - 2 * length (take b ?ws) - 2 * length (drop (b + n) ?ws) = 2 * n" by (simp add: min_def) arith
      then show ?thesis unfolding s using small [of b "b + n"] run split by (subst pton6_colons) auto
    qed
  qed
qed

section \<open>Size and characters of the text\<close>

lemma dec_byte_length: "length (dec (of_char (c :: char))) \<le> 3"
proof -
  have "of_char c < (10 :: nat) ^ 3" using nat_of_char_less_256 [of c] by (rule less_trans) simp
  then show ?thesis by (rule num_str_length) simp_all
qed

lemma ntop4_text:
  assumes "length bs = 4"
  shows "length (inet_ntop4 bs) \<le> 15" and "c \<in> set (inet_ntop4 bs) \<Longrightarrow> digit_val c < 10 \<or> c = CHR ''.''"
proof -
  obtain a b d e where bs: "bs = [a, b, d, e]" using length_4 [OF assms] by blast
  show "length (inet_ntop4 bs) \<le> 15"
    using dec_byte_length [of a] dec_byte_length [of b] dec_byte_length [of d] dec_byte_length [of e]
    by (simp add: bs inet_ntop4_def)
  show "c \<in> set (inet_ntop4 bs) \<Longrightarrow> digit_val c < 10 \<or> c = CHR ''.''"
    using dec_digits by (auto simp: bs inet_ntop4_def)
qed

lemma piece6_text:
  assumes "i < 8"
  shows "length (piece6 (words6 bs) best i) \<le> 5" and "c \<in> set (piece6 (words6 bs) best i) \<Longrightarrow> digit_val c < 16 \<or> c = CHR '':''"
    and "best = Some (0, n) \<Longrightarrow> i < n \<Longrightarrow> length (piece6 (words6 bs) best i) \<le> 1"
proof -
  have "words6 bs ! i < 16 ^ 4" using words6_less [of "words6 bs ! i" bs] assms by simp
  then have "length (hex (words6 bs ! i)) \<le> 4" by (rule num_str_length) simp_all
  then show "length (piece6 (words6 bs) best i) \<le> 5" by (auto simp: piece6_def)
  show "c \<in> set (piece6 (words6 bs) best i) \<Longrightarrow> digit_val c < 16 \<or> c = CHR '':''"
    using hex_digits by (auto simp: piece6_def split: if_splits)
  show "best = Some (0, n) \<Longrightarrow> i < n \<Longrightarrow> length (piece6 (words6 bs) best i) \<le> 1" by (simp add: piece6_def)
qed

lemma concat_length_le: "\<forall>x \<in> set xs. length (f x) \<le> k \<Longrightarrow> length (concat (map f xs)) \<le> k * length xs"
  by (induction xs) auto

lemma ntop6_length:
  assumes "length bs = 16"
  shows "length (inet_ntop6 bs) \<le> 45"
proof -
  let ?p = "piece6 (words6 bs) (best_run (words6 bs))"
  note p = piece6_text(1) [of _ bs "best_run (words6 bs)"]
  have all: "length (concat (map ?p [0 ..< 8])) \<le> 5 * length [0 ..< 8]" using p by (intro concat_length_le) auto
  have six: "length (concat (map ?p [0 ..< 6])) \<le> 10" if "best_run (words6 bs) = Some (0, n)" "5 \<le> n" for n
  proof -
    have "length (concat (map ?p [0 ..< 5])) \<le> 1 * length [0 ..< 5]"
      using piece6_text(3) [of _ "best_run (words6 bs)" n bs] that by (intro concat_length_le) auto
    moreover have "[0 ..< 6] = [0 ..< 5] @ [5 :: nat]" by (simp add: upt_rec)
    ultimately show ?thesis using p [of 5] by simp
  qed
  show ?thesis
    using all six [of 6] six [of 5] ntop4_text(1) [of "drop 12 bs"] assms
    by (auto simp: inet_ntop6_def Let_def split: option.split prod.split)
qed

lemma ntop6_chars:
  assumes "length bs = 16" and "c \<in> set (inet_ntop6 bs)"
  shows "digit_val c < 16 \<or> c \<in> {CHR '':'', CHR ''.''}"
  using assms piece6_text(2) [of _ c bs "best_run (words6 bs)"] ntop4_text(2) [of "drop 12 bs" c]
  by (fastforce simp: inet_ntop6_def Let_def split: if_splits option.splits prod.splits)

lemma ntop6_has_colon: "CHR '':'' \<in> set (inet_ntop6 bs)"
proof -
  have "CHR '':'' \<in> set (concat (map (piece6 ws best) [0 ..< 8]))" for ws best
  proof (cases "CHR '':'' \<in> set (piece6 ws best 1)")
    case False
    then have "CHR '':'' \<in> set (piece6 ws best 0)" by (auto simp: piece6_def split: if_splits option.splits prod.splits)
    then show ?thesis by (simp add: upt_rec)
  qed (simp add: upt_rec)
  then show ?thesis by (auto simp: inet_ntop6_def Let_def)
qed

lemma inet_roundtrip:
  assumes "family = AF_INET \<or> family = AF_INET6" and "length bs = 16"
  obtains s where "inet_ntop family bs 46 = Some s"
    "inet_pton family s = Some (take (if family = AF_INET6 then 16 else 4) bs)"
    "length s \<le> 45" "\<forall>c \<in> set s. digit_val c < 16 \<or> c \<in> {CHR '':'', CHR ''.''}" "CHR '':'' \<in> set s \<longleftrightarrow> family = AF_INET6"
proof (cases "family = AF_INET6")
  case True
  then show ?thesis
    using that [of "inet_ntop6 bs"] ntop6_length [OF assms(2)] ntop6_chars [OF assms(2)] ntop6_has_colon [of bs]
      inet_pton6_ntop6 [OF assms(2)] assms(2)
    by (simp add: inet_ntop_def inet_pton_def AF_INET6_def AF_INET_def)
next
  case False
  have 4: "length (take 4 bs) = 4" using assms(2) by simp
  have "CHR '':'' \<notin> set (inet_ntop4 (take 4 bs))" using ntop4_text(2) [OF 4, of "CHR '':''"] by (auto simp: digit_val_def)
  then show ?thesis
    using that [of "inet_ntop4 (take 4 bs)"] ntop4_text [OF 4] inet_pton4_ntop4 [OF 4] assms(1) False
    by (fastforce simp: inet_ntop_def inet_pton_def)
qed

end
