(* ===== verification/Netsnap.thy ===== *)
theory Netsnap
  imports Rtnl Inet Parse
begin

text \<open>
  The network identity of the NICs (lib/netsnap.c): what is put back on the
  interfaces the successor adopts, and what is collected of them on the
  predecessor.  The environment's functions act on a world \<open>'w\<close>.
\<close>

section \<open>The snapshot\<close>

record netsnap_addr =
  na_family :: nat
  na_prefix :: nat
  na_has_brd :: bool
  na_addr :: string
  na_brd :: string
  na_valid_until :: int
  na_preferred_until :: int

record netsnap_route =
  nr_family :: nat
  nr_dst_len :: nat
  nr_protocol :: nat
  nr_scope :: nat
  nr_has_gw :: bool
  nr_dst :: string
  nr_gw :: string
  nr_metric :: u32

record netsnap_link =
  nl_pci :: string
  nl_name :: string
  nl_mac :: string
  nl_mtu :: u32
  nl_ifindex :: int
  nl_addrs :: "netsnap_addr list"
  nl_routes :: "netsnap_route list"

record netsnap =
  ns_links :: "netsnap_link list"

definition NETSNAP_MAX_LINKS :: nat where "NETSNAP_MAX_LINKS = 8"
definition NETSNAP_MAX_ADDRS :: nat where "NETSNAP_MAX_ADDRS = 16"
definition NETSNAP_MAX_ROUTES :: nat where "NETSNAP_MAX_ROUTES = 32"
definition NETSNAP_TEXT_MAX :: nat where "NETSNAP_TEXT_MAX = 16384"

definition addr_len :: "nat \<Rightarrow> nat" where
  "addr_len family = (if family = AF_INET6 then 16 else 4)"

section \<open>Putting it back\<close>

record 'w netsnap_env =
  ne_find :: "string \<Rightarrow> 'w \<Rightarrow> (string \<times> int) res \<times> 'w"
  ne_talk :: "nlmsg \<Rightarrow> 'w \<Rightarrow> rc \<times> 'w"
  ne_now :: "'w \<Rightarrow> int"

text \<open>An attribute whose result the source does not look at.\<close>

abbreviation put_attr :: "u16 \<Rightarrow> string \<Rightarrow> nlmsg \<Rightarrow> nlmsg" where
  "put_attr t d r \<equiv> snd (rtnl_req_attr t d r)"

abbreviation u32_bytes :: "u32 \<Rightarrow> string" where
  "u32_bytes v \<equiv> le_bytes 4 (unat v)"

abbreviation int_bytes :: "int \<Rightarrow> string" where
  "int_bytes i \<equiv> le_bytes 4 (nat (i mod 2 ^ 32))"

definition IFF_UP :: u32 where "IFF_UP = 1"

definition ifinfomsg :: "int \<Rightarrow> u32 \<Rightarrow> u32 \<Rightarrow> string" where
  "ifinfomsg index flags change =
     le_bytes 1 0 @ le_bytes 1 0 @ le_bytes 2 0 @ int_bytes index @ u32_bytes flags @ u32_bytes change"

definition restore_link :: "'w netsnap_env \<Rightarrow> netsnap_link \<Rightarrow> int \<Rightarrow> string \<Rightarrow> 'w \<Rightarrow> rc \<times> 'w" where
  "restore_link env l ifindex cur w =
     (let r = rtnl_req_init 16 0 (ifinfomsg ifindex 0 0);
          r = put_attr 1 (nl_mac l) r;
          r = (if nl_mtu l \<noteq> 0 then put_attr 4 (u32_bytes (nl_mtu l)) r else r);
          r = (if cur \<noteq> nl_name l then put_attr 3 (nl_name l @ [CHR 0x00]) r else r);
          (_, w) = ne_talk env r w
      in ne_talk env (rtnl_req_init 16 0 (ifinfomsg ifindex IFF_UP IFF_UP)) w)"

definition LIFE_FOREVER :: u32 where "LIFE_FOREVER = 0xffffffff"

definition life_left :: "int \<Rightarrow> int \<Rightarrow> u32" where
  "life_left until now = (if until = 0 then LIFE_FOREVER else if until > now then of_int (until - now) else 0)"

definition IFA_F_NODAD :: u32 where "IFA_F_NODAD = 0x02"

definition ifaddrmsg :: "nat \<Rightarrow> nat \<Rightarrow> nat \<Rightarrow> nat \<Rightarrow> int \<Rightarrow> string" where
  "ifaddrmsg family prefixlen flags scope index =
     le_bytes 1 family @ le_bytes 1 prefixlen @ le_bytes 1 flags @ le_bytes 1 scope @ int_bytes index"

definition restore_addr :: "'w netsnap_env \<Rightarrow> netsnap_addr \<Rightarrow> int \<Rightarrow> 'w \<Rightarrow> rc \<times> 'w" where
  "restore_addr env a ifindex w =
     (let now = ne_now env w;
          valid = life_left (na_valid_until a) now;
          preferred = life_left (na_preferred_until a) now;
          data = take (addr_len (na_family a)) (na_addr a)
      in if valid = 0 then (Some ETIME, w)
         else
           let preferred = (if preferred > valid then valid else preferred);
               r = rtnl_req_init 20 (or NLM_F_CREATE NLM_F_REPLACE)
                     (ifaddrmsg (na_family a) (na_prefix a) (unat IFA_F_NODAD) 0 ifindex);
               r = put_attr 2 data r;
               r = put_attr 1 data r;
               r = (if na_has_brd a then put_attr 4 (take (addr_len (na_family a)) (na_brd a)) r else r);
               r = put_attr 8 (u32_bytes IFA_F_NODAD) r;
               r = put_attr 6 (u32_bytes preferred @ u32_bytes valid @ u32_bytes 0 @ u32_bytes 0) r
           in ne_talk env r w)"

definition rtmsg :: "nat \<Rightarrow> nat \<Rightarrow> nat \<Rightarrow> nat \<Rightarrow> string" where
  "rtmsg family dst_len protocol scope =
     le_bytes 1 family @ le_bytes 1 dst_len @ le_bytes 1 0 @ le_bytes 1 0 @ le_bytes 1 254 @
     le_bytes 1 protocol @ le_bytes 1 scope @ le_bytes 1 1 @ le_bytes 4 0"

definition restore_route :: "'w netsnap_env \<Rightarrow> netsnap_route \<Rightarrow> int \<Rightarrow> 'w \<Rightarrow> rc \<times> 'w" where
  "restore_route env rt ifindex w =
     (let n = addr_len (nr_family rt);
          r = rtnl_req_init 24 (or NLM_F_CREATE NLM_F_REPLACE)
                (rtmsg (nr_family rt) (nr_dst_len rt) (nr_protocol rt) (nr_scope rt));
          r = (if nr_dst_len rt \<noteq> 0 then put_attr 1 (take n (nr_dst rt)) r else r);
          r = (if nr_has_gw rt then put_attr 5 (take n (nr_gw rt)) r else r);
          r = put_attr 4 (int_bytes ifindex) r;
          r = (if nr_metric rt \<noteq> 0 then put_attr 6 (u32_bytes (nr_metric rt)) r else r)
      in ne_talk env r w)"

text \<open>Two passes: the routes without a gateway, then those with one.\<close>

definition restore_routes :: "'w netsnap_env \<Rightarrow> netsnap_link \<Rightarrow> int \<Rightarrow> 'w \<Rightarrow> 'w" where
  "restore_routes env l ifindex w =
     foldl (\<lambda>w pass. foldl (\<lambda>w rt. if nr_has_gw rt \<noteq> pass then w else snd (restore_route env rt ifindex w)) w (nl_routes l))
       w [False, True]"

text \<open>Whether the link came up.\<close>

definition apply_link :: "'w netsnap_env \<Rightarrow> netsnap_link \<Rightarrow> 'w \<Rightarrow> bool \<times> 'w" where
  "apply_link env l w =
     (case ne_find env (nl_pci l) w of
        (Inl e, w) \<Rightarrow> (False, w)
      | (Inr (cur, ifindex), w) \<Rightarrow>
          (case restore_link env l ifindex cur w of
             (Some e, w) \<Rightarrow> (False, w)
           | (None, w) \<Rightarrow>
               let w = foldl (\<lambda>w a. snd (restore_addr env a ifindex w)) w (nl_addrs l)
               in (True, restore_routes env l ifindex w)))"

text \<open>\<open>restored\<close>, one entry per link; the count it returns is the number of true ones.\<close>

fun apply_links :: "'w netsnap_env \<Rightarrow> netsnap_link list \<Rightarrow> 'w \<Rightarrow> bool list \<times> 'w" where
  "apply_links env [] w = ([], w)"
| "apply_links env (l # ls) w =
     (let (up, w) = apply_link env l w; (ups, w) = apply_links env ls w in (up # ups, w))"

definition netsnap_apply :: "'w netsnap_env \<Rightarrow> netsnap \<Rightarrow> 'w \<Rightarrow> nat \<times> bool list \<times> 'w" where
  "netsnap_apply env s w =
     (let (restored, w) = apply_links env (ns_links s) w in (length (filter id restored), restored, w))"

end
