(* ===== verification/Ops.thy ===== *)
theory Ops
  imports Takeover Dt_Read Dump Netsnap
begin

text \<open>
  The takeover operations bound to the kernel interfaces (kmorphd/ops.c).  A
  kernel is a record of what its files, its fork and its memory device do on a
  world \<open>'w\<close>; every operation threads the daemon's state and the world.
\<close>

section \<open>The kernel and the daemon's state\<close>

text \<open>
  A child that resets a device: it could not be forked, it exits with its
  outcome, or it is killed, before or after its work.
\<close>

datatype fork_outcome = Fork_failed | Child_exits | Child_killed bool

text \<open>
  \<open>k_order\<close> is the order in which the resets of one batch happen, as they run
  side by side; \<open>k_store\<close> is what the dump leaves behind.
\<close>

record 'w kern =
  k_sys :: "'w sys"
  k_alloc :: alloc
  k_forks :: "'w \<Rightarrow> nat \<Rightarrow> fork_outcome"
  k_order :: "'w \<Rightarrow> nat list"
  k_machine :: nat
  k_source :: "'w \<Rightarrow> string \<Rightarrow> source_env"
  k_sink :: "'w \<Rightarrow> string \<Rightarrow> sink_env"
  k_store :: "string \<Rightarrow> sink option \<Rightarrow> 'w \<Rightarrow> 'w"

record 'w ops_env =
  oe_devtree_root :: string
  oe_sysfs_root :: string
  oe_iomem_path :: string
  oe_mem_path :: string
  oe_block_size_path :: string
  oe_dump_path :: "string option"
  oe_pci_bus :: string
  oe_reset_devices :: bool
  oe_fence_fn :: "int \<Rightarrow> 'w \<Rightarrow> rc \<times> 'w"
  oe_network :: "netsnap option"
  oe_net_env :: "'w netsnap_env option"
  oe_net_restored_path :: "string option"
  oe_next_memory :: u64
  oe_pool_claim_path :: "string option"

record 'w ops =
  o_env :: "'w ops_env"
  o_fs :: string
  o_self :: self_info
  o_host :: host_tree
  o_iommus :: rangelist
  o_takeable :: takeable
  o_adoptable :: rangeset
  o_preserved :: rangeset
  o_pool_claim :: range
  o_foreign :: "string list"
  o_devices_tried :: bool
  o_devices_adopted :: nat

abbreviation self_name :: "'w ops \<Rightarrow> string" where
  "self_name o' \<equiv> (case si_name (o_self o') of None \<Rightarrow> [] | Some n \<Rightarrow> n)"

section \<open>Setting up\<close>

definition list_foreign :: "'w kern \<Rightarrow> 'w \<Rightarrow> 'w ops \<Rightarrow> rc \<times> 'w ops" where
  "list_foreign k w o' =
     (let devs = pl_devs (ht_devices (o_host o')) in
      if \<not> k_alloc k ((length devs + 1) * 8) then (Some ENOMEM, o')
      else (None, o'\<lparr>o_foreign := map pi_id
        (filter (\<lambda>d. \<not> pci_is_bridge d \<and>
           \<not> sys_access (k_sys k) w (mkpath [oe_pci_bus (o_env o'), ''devices'', pi_id d])) devs)\<rparr>))"

definition ops_zero :: "'w ops_env \<Rightarrow> 'w ops" where
  "ops_zero env = \<lparr>o_env = env, o_fs = oe_sysfs_root env, o_self = self_info_zero, o_host = host_tree_zero,
     o_iommus = \<lparr>rl_r = []\<rparr>, o_takeable = takeable_zero, o_adoptable = RANGESET_INIT, o_preserved = RANGESET_INIT,
     o_pool_claim = \<lparr>r_base = 0, r_size = 0\<rparr>, o_foreign = [], o_devices_tried = False, o_devices_adopted = 0\<rparr>"

definition ops_free :: "'w ops \<Rightarrow> 'w ops" where
  "ops_free o' = o'\<lparr>o_foreign := [], o_iommus := rangelist_free (o_iommus o'),
     o_preserved := rangeset_free (o_preserved o'), o_adoptable := rangeset_free (o_adoptable o'),
     o_takeable := takeable_free (o_takeable o'), o_host := host_tree_free (o_host o'),
     o_self := self_info_free (o_self o')\<rparr>"

definition HOST_TREE_NODE :: string where
  "HOST_TREE_NODE = ''multikernel,host-tree''"

definition ops_init :: "'w kern \<Rightarrow> 'w ops_env \<Rightarrow> 'w \<Rightarrow> rc \<times> 'w ops" where
  "ops_init k env w =
     (let o' = ops_zero env; (r, s) = devtree_read_self (k_alloc k) (k_sys k) w (oe_devtree_root env);
          o' = o'\<lparr>o_self := s\<rparr>
      in if r \<noteq> None then (r, o')
         else
           let (r, ht) = host_tree_read (k_alloc k) (k_sys k) w (mkpath [oe_devtree_root env, ''chosen'', HOST_TREE_NODE]);
               o' = o'\<lparr>o_host := ht\<rparr>
           in if r \<noteq> None then (r, o'\<lparr>o_self := self_info_free (o_self o')\<rparr>)
              else
                let (r, o') = list_foreign k w o';
                    (r, o') = (if r = None then
                        let (r, l) = devtree_read_iommus (k_alloc k) (k_sys k) w (oe_devtree_root env) (o_iommus o')
                        in (r, o'\<lparr>o_iommus := l\<rparr>) else (r, o'))
                in (r, if r = None then o' else ops_free o'))"

section \<open>The fence\<close>

definition MK_ID_PREDECESSOR :: int where "MK_ID_PREDECESSOR = 0"

definition ops_fence :: "'w ops \<Rightarrow> 'w \<Rightarrow> rc \<times> 'w ops \<times> 'w" where
  "ops_fence o' w = (let (r, w) = oe_fence_fn (o_env o') MK_ID_PREDECESSOR w in (r, o', w))"

section \<open>Planning the adoption\<close>

definition largest_range :: "range list \<Rightarrow> range option" where
  "largest_range rs = foldl (\<lambda>l r. case l of None \<Rightarrow> Some r | Some x \<Rightarrow> if r_size r > r_size x then Some r else l) None rs"

definition keep_for_pool :: "'w kern \<Rightarrow> u64 \<Rightarrow> 'w ops \<Rightarrow> 'w \<Rightarrow> rc \<times> 'w ops \<times> 'w" where
  "keep_for_pool k granule o' w =
     (let o' = o'\<lparr>o_pool_claim := (o_pool_claim o')\<lparr>r_size := 0\<rparr>\<rparr>;
          next_memory = oe_next_memory (o_env o')
      in case oe_pool_claim_path (o_env o') of
           None \<Rightarrow> (None, o', w)
         | Some path \<Rightarrow>
             if next_memory = 0 then (None, o', w)
             else
               let want = (next_memory + granule - 1) div granule * granule + granule in
               case largest_range (rs_r (o_adoptable o')) of
                 None \<Rightarrow> (None, o', w)
               | Some largest \<Rightarrow>
                   if r_size largest < want then (None, o', w)
                   else
                     let c = \<lparr>r_base = r_base largest + r_size largest - want, r_size = want\<rparr>;
                         o' = o'\<lparr>o_pool_claim := c\<rparr>;
                         (r, w) = pool_claim_write (k_sys k) path c w
                     in if r \<noteq> None then (None, o'\<lparr>o_pool_claim := c\<lparr>r_size := 0\<rparr>\<rparr>, w)
                        else let (r, a) = rangeset_subtract (k_alloc k) (o_adoptable o') (r_base c) (r_size c)
                             in (r, o'\<lparr>o_adoptable := a\<rparr>, w))"

definition plan_adoption :: "'w kern \<Rightarrow> 'w ops \<Rightarrow> 'w \<Rightarrow> rc \<times> 'w ops \<times> 'w" where
  "plan_adoption k o' w =
     (let ok = k_alloc k; env = o_env o';
          o' = o'\<lparr>o_takeable := takeable_free (o_takeable o'), o_adoptable := rangeset_free (o_adoptable o')\<rparr>;
          (r, own_ram) = iomem_system_ram ok (k_sys k) w (oe_iomem_path env) RANGESET_INIT;
          (r, o') = (if r = None then
              let (r, t) = takeable_compute ok (ht_ram (o_host o')) (ht_cpus (o_host o')) own_ram
                             (si_reserved (o_self o')) (si_own_cpus (o_self o'))
              in (r, o'\<lparr>o_takeable := t\<rparr>) else (r, o'))
      in if r \<noteq> None then (r, o', w)
         else case memory_granule (k_sys k) w (o_fs o') (oe_block_size_path env) of
                Inl e \<Rightarrow> (Some e, o', w)
              | Inr granule \<Rightarrow>
                  let (r, a) = rangeset_align ok (ta_memory (o_takeable o')) granule (o_adoptable o');
                      o' = o'\<lparr>o_adoptable := a\<rparr>
                  in if r \<noteq> None then (r, o', w) else keep_for_pool k granule o' w)"

text \<open>Building an overlay and having the kernel apply it.\<close>

definition apply_overlay :: "'w kern \<Rightarrow> 'w ops \<Rightarrow> string res \<Rightarrow> 'w \<Rightarrow> rc \<times> 'w" where
  "apply_overlay k o' dtbo w =
     (case dtbo of
        Inl e \<Rightarrow> (Some e, w)
      | Inr dtbo \<Rightarrow> let (r, tx, w) = mkfs_apply_overlay (k_sys k) (o_fs o') dtbo w in (r, w))"

definition apply_adopt :: "'w kern \<Rightarrow> 'w ops \<Rightarrow> cpulist \<Rightarrow> rangeset \<Rightarrow> 'w \<Rightarrow> rc \<times> 'w" where
  "apply_adopt k o' cpus memory w = apply_overlay k o' (dt_build_adopt (k_alloc k) (self_name o') cpus memory) w"

section \<open>Devices\<close>

definition adopt_device :: "'w kern \<Rightarrow> 'w ops \<Rightarrow> string \<Rightarrow> 'w \<Rightarrow> rc \<times> 'w" where
  "adopt_device k o' i w = apply_overlay k o' (dt_build_adopt_device (k_alloc k) (self_name o') i) w"

datatype reset_outcome = DEVICE_RESET | DEVICE_QUIESCED | DEVICE_LIVE

definition reset_device :: "'w sys \<Rightarrow> string \<Rightarrow> string \<Rightarrow> bool \<Rightarrow> 'w \<Rightarrow> reset_outcome \<times> 'w" where
  "reset_device sys bus i reset w =
     (let (r, w) = (if reset then pci_reset_function sys bus i w else (Some ENOENT, w)) in
      if r = None then (DEVICE_RESET, w)
      else let (r, w) = pci_clear_bus_master sys bus i w
           in (if r = None then DEVICE_QUIESCED else DEVICE_LIVE, w))"

text \<open>Each of \<open>n\<close> once, in the order the scheduler gives.\<close>

definition turns :: "nat \<Rightarrow> nat list \<Rightarrow> nat list" where
  "turns n order = (let given = remdups (filter (\<lambda>i. i < n) order) in given @ filter (\<lambda>i. i \<notin> set given) [0 ..< n])"

text \<open>One device's reset, in a child or, if there is none, in the daemon; what the daemon counts it as.\<close>

definition reset_turn :: "'w sys \<Rightarrow> string \<Rightarrow> string list \<Rightarrow> bool \<Rightarrow> (nat \<Rightarrow> fork_outcome) \<Rightarrow> nat \<Rightarrow> 'w \<Rightarrow> reset_outcome \<times> 'w" where
  "reset_turn sys bus ids reset forks i w =
     (case forks i of
        Child_killed False \<Rightarrow> (DEVICE_LIVE, w)
      | Child_killed True \<Rightarrow> (DEVICE_LIVE, snd (reset_device sys bus (ids ! i) reset w))
      | _ \<Rightarrow> reset_device sys bus (ids ! i) reset w)"

fun run_turns :: "(nat \<Rightarrow> 'w \<Rightarrow> reset_outcome \<times> 'w) \<Rightarrow> nat list \<Rightarrow> 'w \<Rightarrow> reset_outcome list \<times> 'w" where
  "run_turns f [] w = ([], w)"
| "run_turns f (i # is) w = (let (x, w) = f i w; (xs, w) = run_turns f is w in (x # xs, w))"

text \<open>Without memory for the child numbers the daemon resets them all itself, in order.\<close>

definition reset_devices :: "'w kern \<Rightarrow> string \<Rightarrow> string list \<Rightarrow> bool \<Rightarrow> 'w \<Rightarrow> reset_outcome list \<times> 'w" where
  "reset_devices k bus ids reset w =
     (let n = length ids in
      if \<not> k_alloc k ((n + 1) * 4) then run_turns (reset_turn (k_sys k) bus ids reset (\<lambda>_. Fork_failed)) [0 ..< n] w
      else run_turns (reset_turn (k_sys k) bus ids reset (k_forks k w)) (turns n (k_order k w)) w)"

definition claim_iommu :: "'w kern \<Rightarrow> 'w ops \<Rightarrow> u64 \<Rightarrow> 'w \<Rightarrow> rc \<times> 'w" where
  "claim_iommu k o' base w = apply_overlay k o' (dt_build_iommu_add (k_alloc k) (self_name o') base) w"

definition claim_iommus :: "'w kern \<Rightarrow> 'w ops \<Rightarrow> bool \<Rightarrow> 'w \<Rightarrow> 'w" where
  "claim_iommus k o' all_quiet w =
     (if \<not> all_quiet then w
      else foldl (\<lambda>w u. snd (claim_iommu k o' (r_base u) w)) w (rl_r (o_iommus o')))"

text \<open>The first error, the devices that joined and the world.\<close>

fun adopt_loop :: "'w kern \<Rightarrow> 'w ops \<Rightarrow> string list \<Rightarrow> rc \<Rightarrow> string list \<Rightarrow> 'w \<Rightarrow> rc \<times> string list \<times> 'w" where
  "adopt_loop k o' [] first adopted w = (first, adopted, w)"
| "adopt_loop k o' (i # is) first adopted w =
     (let (r, w) = adopt_device k o' i w;
          first = (if first = None then r else first)
      in adopt_loop k o' is first (if r = None then adopted @ [i] else adopted) w)"

text \<open>Whether the drivers are held off.\<close>

definition hold_drivers :: "'w kern \<Rightarrow> 'w ops \<Rightarrow> 'w \<Rightarrow> bool \<times> 'w" where
  "hold_drivers k o' w =
     (if oe_reset_devices (o_env o') \<or> rl_r (o_iommus o') \<noteq> [] then
        let (r, w) = pci_set_autoprobe (k_sys k) (oe_pci_bus (o_env o')) False w in (r = None, w)
      else (False, w))"

text \<open>What follows the joining of the devices when the drivers are held off.\<close>

definition settle_devices :: "'w kern \<Rightarrow> 'w ops \<Rightarrow> rc \<Rightarrow> string list \<Rightarrow> 'w \<Rightarrow> 'w" where
  "settle_devices k o' first adopted w =
     (let bus = oe_pci_bus (o_env o');
          (outcomes, w) = reset_devices k bus adopted (oe_reset_devices (o_env o')) w;
          w = (if rl_r (o_iommus o') \<noteq> [] then claim_iommus k o' (first = None \<and> DEVICE_LIVE \<notin> set outcomes) w else w);
          (_, w) = pci_set_autoprobe (k_sys k) bus True w
      in foldl (\<lambda>w i. snd (pci_probe_driver (k_sys k) bus i w)) w adopted)"

text \<open>It is called once, with no device adopted before.\<close>

definition ops_adopt_devices :: "'w kern \<Rightarrow> 'w ops \<Rightarrow> 'w \<Rightarrow> rc \<times> 'w ops \<times> 'w" where
  "ops_adopt_devices k o' w =
     (if \<not> k_alloc k ((length (o_foreign o') + 1) * 8) then (Some ENOMEM, o', w)
      else
        let (hold, w) = hold_drivers k o' w;
            (first, adopted, w) = adopt_loop k o' (o_foreign o') None [] w;
            o' = o'\<lparr>o_devices_adopted := o_devices_adopted o' + length adopted\<rparr>
        in (first, o',
            if hold then settle_devices k o' first adopted w
            else if rl_r (o_iommus o') \<noteq> [] then claim_iommus k o' False w else w))"

section \<open>The network\<close>

text \<open>It has nothing to do without a snapshot and a way to reach the interfaces.\<close>

definition restore_network :: "'w kern \<Rightarrow> 'w ops \<Rightarrow> 'w \<Rightarrow> 'w" where
  "restore_network k o' w =
     (case (oe_network (o_env o'), oe_net_env (o_env o')) of
        (Some s, Some nenv) \<Rightarrow>
          (let (up, restored, w) = netsnap_apply nenv s w in
           case oe_net_restored_path (o_env o') of
             None \<Rightarrow> w
           | Some path \<Rightarrow>
               if up = 0 then w
               else snd (sys_write (k_sys k) path
                      (concat (map (\<lambda>(l, up). if up then nl_name l @ [CHR 0x0A] else []) (zip (ns_links s) restored))) w))
      | _ \<Rightarrow> w)"

section \<open>The operations of the machine\<close>

definition try_devices :: "'w kern \<Rightarrow> 'w ops \<Rightarrow> 'w \<Rightarrow> 'w ops \<times> 'w" where
  "try_devices k o' w =
     (if o_devices_tried o' then (o', w)
      else let (_, o', w) = ops_adopt_devices k (o'\<lparr>o_devices_tried := True\<rparr>) w in (o', restore_network k o' w))"

definition ops_adopt :: "'w kern \<Rightarrow> 'w ops \<Rightarrow> 'w \<Rightarrow> rc \<times> 'w ops \<times> 'w" where
  "ops_adopt k o' w =
     (let (o', w) = try_devices k o' w;
          (r, o', w) = plan_adoption k o' w
      in if r \<noteq> None then (r, o', w)
         else case oe_dump_path (o_env o') of
                None \<Rightarrow>
                  let (r, w) = apply_adopt k o' (ta_cpus (o_takeable o')) (o_adoptable o') w in (r, o', w)
              | Some _ \<Rightarrow>
                  let (r, p) = rangeset_copy (k_alloc k) (o_preserved o') (o_adoptable o');
                      o' = o'\<lparr>o_preserved := p\<rparr>
                  in if r \<noteq> None then (r, o', w)
                     else let (r, w) = apply_adopt k o' (ta_cpus (o_takeable o')) RANGESET_INIT w in (r, o', w))"

definition ops_preserve :: "'w kern \<Rightarrow> 'w ops \<Rightarrow> 'w \<Rightarrow> rc \<times> 'w ops \<times> 'w" where
  "ops_preserve k o' w =
     (case oe_dump_path (o_env o') of
        None \<Rightarrow> (None, o', w)
      | Some path \<Rightarrow>
          if rs_r (o_preserved o') = [] then (None, o', w)
          else
            let (r, st, snk) = dump_vmcore (k_alloc k) (k_machine k) (k_source k w (oe_mem_path (o_env o')))
                  (ta_memory (o_takeable o')) (ht_vmcore (o_host o')) (k_sink k w path)
            in (r, o', k_store k path snk w))"

definition ops_reap :: "'w kern \<Rightarrow> 'w ops \<Rightarrow> 'w \<Rightarrow> rc \<times> 'w ops \<times> 'w" where
  "ops_reap k o' w =
     (if rs_r (o_preserved o') = [] then (None, o', w)
      else let (r, w) = apply_adopt k o' \<lparr>cl_ids = []\<rparr> (o_preserved o') w
           in (r, if r = None then o'\<lparr>o_preserved := rangeset_free (o_preserved o')\<rparr> else o', w))"

text \<open>The table of the state machine; its context is the daemon's state and the world.\<close>

definition ops_takeover_base ::
    "'w kern \<Rightarrow> (('w ops \<times> 'w) takeover \<Rightarrow> takeover_state \<Rightarrow> 'w ops \<times> 'w) \<Rightarrow> ('w ops \<times> 'w) takeover_ops" where
  "ops_takeover_base k on_state =
     \<lparr>op_fence = (\<lambda>(o', w). ops_fence o' w),
      op_adopt = (\<lambda>(o', w). ops_adopt k o' w),
      op_preserve = (\<lambda>(o', w). ops_preserve k o' w),
      op_reap = (\<lambda>(o', w). ops_reap k o' w),
      op_on_state = on_state\<rparr>"

section \<open>Watching what the daemon does to the machine\<close>

text \<open>
  The same kernel with a log: every write, every message and every fence, with
  its result; the daemon adds the files it creates, its replies and the console
  it opens.  A run of the operations on it is a run on the kernel itself
  together with the trace of its effects.
\<close>

datatype io =
    Io_write string string rc
  | Io_attr string string rc
  | Io_pread string nat "string res"
  | Io_pwrite string nat string nat
  | Io_net nlmsg rc
  | Io_store string
  | Io_fence int rc
  | Io_reboot u32 int rc
  | Io_file string
  | Io_send string
  | Io_console string

definition log_io :: "('w \<Rightarrow> 'a \<times> 'w) \<Rightarrow> ('a \<Rightarrow> io) \<Rightarrow> 'w \<times> io list \<Rightarrow> 'a \<times> 'w \<times> io list" where
  "log_io f ev = (\<lambda>(w, l). let (x, w) = f w in (x, w, l @ [ev x]))"

definition log_sys :: "'w sys \<Rightarrow> ('w \<times> io list) sys" where
  "log_sys sys =
     \<lparr>sys_read = (\<lambda>(w, l). sys_read sys w), sys_write = (\<lambda>p c. log_io (sys_write sys p c) (Io_write p c)),
      sys_attr = (\<lambda>p c. log_io (sys_attr sys p c) (Io_attr p c)), sys_readdir = (\<lambda>(w, l). sys_readdir sys w),
      sys_isdir = (\<lambda>(w, l). sys_isdir sys w), sys_access = (\<lambda>(w, l). sys_access sys w),
      sys_pread = (\<lambda>p off n. log_io (sys_pread sys p off n) (Io_pread p off)),
      sys_pwrite = (\<lambda>p off c. log_io (sys_pwrite sys p off c) (Io_pwrite p off c))\<rparr>"

definition log_kern :: "'w kern \<Rightarrow> ('w \<times> io list) kern" where
  "log_kern k =
     \<lparr>k_sys = log_sys (k_sys k), k_alloc = k_alloc k, k_forks = (\<lambda>(w, l). k_forks k w),
      k_order = (\<lambda>(w, l). k_order k w), k_machine = k_machine k, k_source = (\<lambda>(w, l). k_source k w),
      k_sink = (\<lambda>(w, l). k_sink k w), k_store = (\<lambda>p s (w, l). (k_store k p s w, l @ [Io_store p]))\<rparr>"

definition log_net :: "'w netsnap_env \<Rightarrow> ('w \<times> io list) netsnap_env" where
  "log_net e =
     \<lparr>ne_find = (\<lambda>p (w, l). let (x, w) = ne_find e p w in (x, w, l)),
      ne_talk = (\<lambda>m. log_io (ne_talk e m) (Io_net m)), ne_now = (\<lambda>(w, l). ne_now e w)\<rparr>"

definition logs_env :: "('w \<times> io list) ops_env \<Rightarrow> bool" where
  "logs_env e = ((\<exists>f. oe_fence_fn e = (\<lambda>i. log_io (f i) (Io_fence i))) \<and> (\<exists>n. oe_net_env e = map_option log_net n))"

text \<open>Nothing is undone in a log.\<close>

definition grows :: "('w \<times> io list) \<Rightarrow> ('w \<times> io list) \<Rightarrow> bool" where
  "grows w w' = (\<exists>l. snd w' = snd w @ l)"

lemma grows_refl [simp]: "grows w w"
  by (simp add: grows_def)

lemma grows_trans: "grows a b \<Longrightarrow> grows b c \<Longrightarrow> grows a c"
  by (auto simp: grows_def)

lemma grows_log_io: "log_io f ev w = (x, w') \<Longrightarrow> grows w w'"
  by (auto simp: log_io_def grows_def split: prod.splits)

lemma grows_foldl:
  assumes "\<And>w x. grows w (f w x)"
  shows "grows w (foldl f w xs)"
proof (induction xs arbitrary: w)
  case (Cons x xs)
  then show ?case using grows_trans [OF assms [of w x] Cons.IH] by simp
qed simp

lemma grows_snd: "(\<And>r w'. f w = (r, w') \<Longrightarrow> grows w w') \<Longrightarrow> grows w (snd (f w))"
  by (cases "f w") simp

named_theorems log_grows \<open>operations on a logging kernel only extend the log\<close>

lemma log_sys_grows [log_grows]:
  "sys_write (log_sys sys) p c w = (r, w') \<Longrightarrow> grows w w'"
  "sys_attr (log_sys sys) p c w = (r, w') \<Longrightarrow> grows w w'"
  "sys_pread (log_sys sys) p off n w = (b, w') \<Longrightarrow> grows w w'"
  "sys_pwrite (log_sys sys) p off c w = (m, w') \<Longrightarrow> grows w w'"
  by (auto simp: log_sys_def dest: grows_log_io)

lemma log_kern_simps [simp]:
  "k_sys (log_kern k) = log_sys (k_sys k)" "k_alloc (log_kern k) = k_alloc k"
  by (simp_all add: log_kern_def)

lemma apply_overlay_grows [log_grows]:
  "apply_overlay (log_kern k) o' dtbo w = (r, w') \<Longrightarrow> grows w w'"
  by (auto simp: apply_overlay_def mkfs_apply_overlay_def Let_def split: sum.splits prod.splits if_splits dest: log_grows)

lemma overlays_grow [log_grows]:
  "apply_adopt (log_kern k) o' cpus memory w = (r, w') \<Longrightarrow> grows w w'"
  "adopt_device (log_kern k) o' i w = (r, w') \<Longrightarrow> grows w w'"
  "claim_iommu (log_kern k) o' base w = (r, w') \<Longrightarrow> grows w w'"
  by (auto simp: apply_adopt_def adopt_device_def claim_iommu_def dest: log_grows)

lemma pci_grows [log_grows]:
  "pci_set_autoprobe (log_sys sys) bus on w = (r, w') \<Longrightarrow> grows w w'"
  "pci_probe_driver (log_sys sys) bus i w = (r, w') \<Longrightarrow> grows w w'"
  "pci_reset_function (log_sys sys) bus i w = (r, w') \<Longrightarrow> grows w w'"
  "pool_claim_write (log_sys sys) p c w = (r, w') \<Longrightarrow> grows w w'"
  by (simp_all add: pci_set_autoprobe_def pci_probe_driver_def pci_reset_function_def pool_claim_write_def log_grows)

lemma pci_clear_bus_master_grows [log_grows]:
  "pci_clear_bus_master (log_sys sys) bus i w = (r, w') \<Longrightarrow> grows w w'"
  by (auto simp: pci_clear_bus_master_def Let_def split: sum.splits prod.splits if_splits dest: log_grows
      intro: grows_trans [OF log_sys_grows(3) log_sys_grows(4)])

lemma reset_device_grows [log_grows]:
  "reset_device (log_sys sys) bus i reset w = (x, w') \<Longrightarrow> grows w w'"
  by (auto simp: reset_device_def Let_def split: prod.splits if_splits dest: log_grows
      intro: grows_trans [OF pci_grows(3) pci_clear_bus_master_grows])

lemma run_turns_grows:
  "(\<And>i w x w'. f i w = (x, w') \<Longrightarrow> grows w w') \<Longrightarrow> run_turns f is w = (xs, w') \<Longrightarrow> grows w w'"
proof (induction "is" arbitrary: w xs)
  case (Cons i "is")
  obtain x w1 where 1: "f i w = (x, w1)" by (cases "f i w")
  with Cons.prems(2) obtain ys where "run_turns f is w1 = (ys, w')" by (auto split: prod.splits)
  then show ?case using grows_trans [OF Cons.prems(1) [OF 1] Cons.IH] Cons.prems(1) by blast
qed simp

lemma reset_turn_grows [log_grows]:
  "reset_turn (log_sys sys) bus ids reset forks i w = (x, w') \<Longrightarrow> grows w w'"
  by (auto simp: reset_turn_def split: fork_outcome.splits bool.splits dest: log_grows intro: grows_snd)

lemma reset_devices_grows [log_grows]:
  "reset_devices (log_kern k) bus ids reset w = (xs, w') \<Longrightarrow> grows w w'"
  by (auto simp: reset_devices_def Let_def split: if_splits elim!: run_turns_grows [rotated] dest: log_grows)

lemma claim_iommus_grows: "grows w (claim_iommus (log_kern k) o' q w)"
  by (auto simp: claim_iommus_def intro!: grows_foldl grows_snd dest: log_grows)

lemma adopt_loop_grows [log_grows]:
  "adopt_loop (log_kern k) o' is first adopted w = (r, ids, w') \<Longrightarrow> grows w w'"
  by (induction "is" arbitrary: first adopted w) (auto split: prod.splits dest: log_grows intro: grows_trans)

lemma hold_drivers_grows: "grows w (snd (hold_drivers (log_kern k) o' w))"
  by (auto simp: hold_drivers_def split: prod.splits dest: log_grows)

lemma settle_devices_grows: "grows w (settle_devices (log_kern k) o' first ids w)"
proof -
  let ?bus = "oe_pci_bus (o_env o')"
  obtain xs w1 where 1: "reset_devices (log_kern k) ?bus ids (oe_reset_devices (o_env o')) w = (xs, w1)" by (rule prod.exhaust)
  let ?w2 = "if rl_r (o_iommus o') \<noteq> [] then claim_iommus (log_kern k) o' (first = None \<and> DEVICE_LIVE \<notin> set xs) w1 else w1"
  have "grows w ?w2" using grows_trans [OF reset_devices_grows [OF 1] claim_iommus_grows] reset_devices_grows [OF 1] by auto
  then have "grows w (snd (pci_set_autoprobe (log_sys (k_sys k)) ?bus True ?w2))"
    by (rule grows_trans) (auto intro: grows_snd dest: log_grows)
  then have "grows w (foldl (\<lambda>w i. snd (pci_probe_driver (log_sys (k_sys k)) ?bus i w))
      (snd (pci_set_autoprobe (log_sys (k_sys k)) ?bus True ?w2)) ids)"
    by (rule grows_trans) (intro grows_foldl grows_snd, auto dest: log_grows)
  then show ?thesis by (simp add: settle_devices_def Let_def 1 split_def split: if_splits)
qed

lemma ops_adopt_devices_grows:
  assumes "ops_adopt_devices (log_kern k) o' w = (r, o2, w')"
  shows "grows w w' \<and> o_env o2 = o_env o'"
proof -
  obtain hold w1 where 1: "hold_drivers (log_kern k) o' w = (hold, w1)" by (rule prod.exhaust)
  obtain f ids w2 where 2: "adopt_loop (log_kern k) o' (o_foreign o') None [] w1 = (f, ids, w2)" by (rule prod_cases3)
  have "grows w w2" using grows_trans [OF _ adopt_loop_grows [OF 2]] hold_drivers_grows [of w k o'] 1 by auto
  then show ?thesis
    using assms
    by (auto simp: ops_adopt_devices_def 1 2 Let_def split: if_splits
        intro: grows_trans [OF _ settle_devices_grows] grows_trans [OF _ claim_iommus_grows])
qed

lemma log_net_grows: "ne_talk (log_net e) m w = (r, w') \<Longrightarrow> grows w w'" "ne_find (log_net e) p w = (x, w') \<Longrightarrow> grows w w'"
  by (auto simp: log_net_def log_io_def grows_def split: prod.splits)

lemma restore_grows [log_grows]:
  "restore_link (log_net e) l i cur w = (r, w') \<Longrightarrow> grows w w'"
  "restore_addr (log_net e) a i w = (r, w') \<Longrightarrow> grows w w'"
  "restore_route (log_net e) rt i w = (r, w') \<Longrightarrow> grows w w'"
  by (auto simp: restore_link_def restore_addr_def restore_route_def Let_def split: prod.splits if_splits
      intro: grows_trans [OF log_net_grows(1) log_net_grows(1)] dest: log_net_grows)

lemma restore_routes_grows: "grows w (restore_routes (log_net e) l i w)"
  unfolding restore_routes_def by (intro grows_foldl) (auto intro: grows_snd dest: log_grows)

lemma apply_link_grows [log_grows]: "apply_link (log_net e) l w = (up, w') \<Longrightarrow> grows w w'"
proof -
  obtain x w1 where 1: "ne_find (log_net e) (nl_pci l) w = (x, w1)" by (rule prod.exhaust)
  obtain r w2 where 2: "restore_link (log_net e) l (snd (projr x)) (fst (projr x)) w1 = (r, w2)" by (rule prod.exhaust)
  have w2: "grows w w2" using grows_trans [OF log_net_grows(2) [OF 1] restore_grows(1) [OF 2]] .
  have "grows w2 (foldl (\<lambda>w a. snd (restore_addr (log_net e) a i w)) w2 (nl_addrs l))" for i
    by (intro grows_foldl grows_snd) (auto dest: log_grows)
  then have "grows w (restore_routes (log_net e) l i (foldl (\<lambda>w a. snd (restore_addr (log_net e) a i w)) w2 (nl_addrs l)))" for i
    using grows_trans [OF w2 grows_trans [OF _ restore_routes_grows]] by blast
  then show "apply_link (log_net e) l w = (up, w') \<Longrightarrow> grows w w'"
    using log_net_grows(2) [OF 1] w2 2 by (auto simp: apply_link_def 1 split: sum.splits prod.splits option.splits)
qed

lemma apply_links_grows [log_grows]: "apply_links (log_net e) ls w = (ups, w') \<Longrightarrow> grows w w'"
proof (induction ls arbitrary: w ups)
  case (Cons l ls)
  obtain u w1 where 1: "apply_link (log_net e) l w = (u, w1)" by (rule prod.exhaust)
  with Cons.prems obtain us where "apply_links (log_net e) ls w1 = (us, w')" by (auto split: prod.splits)
  from grows_trans [OF apply_link_grows [OF 1] Cons.IH [OF this]] show ?case .
qed simp

lemma restore_network_grows:
  assumes "logs_env (o_env o')"
  shows "grows w (restore_network (log_kern k) o' w)"
proof (cases "oe_network (o_env o')"; cases "oe_net_env (o_env o')")
  fix s ne assume s: "oe_network (o_env o') = Some s" "oe_net_env (o_env o') = Some ne"
  with assms obtain e where ne: "ne = log_net e" by (auto simp: logs_env_def dest: sym)
  obtain ups w1 where 1: "apply_links (log_net e) (ns_links s) w = (ups, w1)" by (rule prod.exhaust)
  have "grows w1 (snd (sys_write (log_sys (k_sys k)) p c w1))" for p c by (rule grows_snd) (auto dest: log_grows)
  then show ?thesis
    using apply_links_grows [OF 1]
    by (auto simp: restore_network_def s ne netsnap_apply_def 1 Let_def split: option.split intro: grows_trans)
qed (auto simp: restore_network_def)

lemma keep_for_pool_grows:
  "keep_for_pool (log_kern k) g o' w = (r, o2, w') \<Longrightarrow> grows w w' \<and> o_env o2 = o_env o'"
  by (auto simp: keep_for_pool_def Let_def split: option.splits if_splits prod.splits dest: log_grows)

lemma plan_adoption_grows:
  "plan_adoption (log_kern k) o' w = (r, o2, w') \<Longrightarrow> grows w w' \<and> o_env o2 = o_env o'"
  by (auto simp: plan_adoption_def Let_def split: sum.splits if_splits prod.splits dest: keep_for_pool_grows)

lemma ops_adopt_grows:
  assumes "ops_adopt (log_kern k) o' w = (r, o2, w')" and "logs_env (o_env o')"
  shows "grows w w' \<and> o_env o2 = o_env o'"
proof -
  obtain o1 w1 where 1: "try_devices (log_kern k) o' w = (o1, w1)" by (rule prod.exhaust)
  obtain r2 o2' w2 where 2: "plan_adoption (log_kern k) o1 w1 = (r2, o2', w2)" by (rule prod_cases3)
  have "grows w w1 \<and> o_env o1 = o_env o'"
    using 1 assms(2) by (auto simp: try_devices_def split: if_splits prod.splits dest!: ops_adopt_devices_grows
        intro: grows_trans [OF _ restore_network_grows])
  then have w2: "grows w w2" "o_env o2' = o_env o'" using plan_adoption_grows [OF 2] by (auto intro: grows_trans)
  with assms(1) show ?thesis
    by (auto simp: ops_adopt_def 1 2 Let_def split: if_splits option.splits prod.splits intro: grows_trans dest: log_grows)
qed

lemma ops_preserve_grows:
  "ops_preserve (log_kern k) o' w = (r, o2, w') \<Longrightarrow> grows w w' \<and> o_env o2 = o_env o'"
  by (auto simp: ops_preserve_def log_kern_def grows_def split: option.splits if_splits prod.splits)

lemma ops_reap_grows:
  "ops_reap (log_kern k) o' w = (r, o2, w') \<Longrightarrow> grows w w' \<and> o_env o2 = o_env o'"
  by (auto simp: ops_reap_def split: if_splits prod.splits dest: log_grows)

section \<open>Nothing is taken before the fence\<close>

text \<open>
  The trace of a run is fenced first when, but for fences of the predecessor and
  what is harmless, everything in it comes after a fence of the predecessor
  that succeeded.
\<close>

fun fence_first :: "(io \<Rightarrow> bool) \<Rightarrow> io list \<Rightarrow> bool" where
  "fence_first harmless [] = True"
| "fence_first harmless (x # l) =
     (case x of Io_fence i r \<Rightarrow> i = MK_ID_PREDECESSOR \<and> (r = None \<or> fence_first harmless l)
      | _ \<Rightarrow> harmless x \<and> fence_first harmless l)"

lemma fence_first_append:
  "fence_first h (l @ l') \<longleftrightarrow> fence_first h l \<and> (Io_fence MK_ID_PREDECESSOR None \<in> set l \<or> fence_first h l')"
  by (induction l) (auto split: io.split option.split)

definition log_good :: "(io \<Rightarrow> bool) \<Rightarrow> ('w \<times> io list) ops \<times> 'w \<times> io list \<Rightarrow> bool" where
  "log_good h = (\<lambda>(o', w, l). logs_env (o_env o') \<and> fence_first h l)"

definition log_fenced :: "('w \<times> io list) ops \<times> 'w \<times> io list \<Rightarrow> bool" where
  "log_fenced = (\<lambda>(o', w, l). Io_fence MK_ID_PREDECESSOR None \<in> set l)"

lemma log_good_grows:
  assumes "log_good h (o1, w1)" and "log_fenced (o1, w1)" and "grows w1 w2 \<and> o_env o2 = o_env o1"
  shows "log_good h (o2, w2) \<and> log_fenced (o2, w2)"
  using assms by (cases w1; cases w2) (auto simp: log_good_def log_fenced_def grows_def fence_first_append)

lemma ops_fence_good:
  assumes "log_good h (o1, w1)" and "ops_fence o1 w1 = (r, o2, w2)"
  shows "log_good h (o2, w2) \<and> (r = None \<longrightarrow> log_fenced (o2, w2))"
  using assms
  by (cases w1; cases r)
    (auto simp: log_good_def log_fenced_def ops_fence_def logs_env_def log_io_def fence_first_append split: prod.splits)

text \<open>
  The table without a callback, and with one that only does harmless writes:
  the contract the machine's results rest on.
\<close>

lemma takeover_actions_ops:
  assumes "\<And>t s o' w l o2 w2 l2. tk_ctx t = (o', w, l) \<Longrightarrow> on_state t s = (o2, w2, l2) \<Longrightarrow>
    o_env o2 = o_env o' \<and> (\<exists>m. l2 = l @ m \<and> (s \<in> {TK_FENCED, TK_TAKEN_OVER} \<or> fence_first h m))"
  shows "takeover_actions (ops_takeover_base (log_kern k) on_state) (log_good h) log_fenced"
proof
  fix c c' :: "('a \<times> io list) ops \<times> 'a \<times> io list" and r assume good: "log_good h c"
  obtain o1 w1 where c: "c = (o1, w1)" by (rule prod.exhaust)
  obtain o2 w2 where c': "c' = (o2, w2)" by (rule prod.exhaust)
  let ?ops = "ops_takeover_base (log_kern k) on_state"
  show "op_fence ?ops c = (r, c') \<Longrightarrow> log_good h c' \<and> (r = None \<longrightarrow> log_fenced c')"
    using ops_fence_good [OF good [unfolded c]] by (simp add: ops_takeover_base_def c c')
  assume fenced: "log_fenced c"
  have env: "logs_env (o_env o1)" using good by (auto simp: log_good_def c)
  note keep = log_good_grows [OF good [unfolded c] fenced [unfolded c]]
  show "op_adopt ?ops c = (r, c') \<Longrightarrow> log_good h c' \<and> log_fenced c'"
    using keep [OF ops_adopt_grows [OF _ env]] by (simp add: ops_takeover_base_def c c')
  show "op_preserve ?ops c = (r, c') \<Longrightarrow> log_good h c' \<and> log_fenced c'"
    using keep [OF ops_preserve_grows] by (simp add: ops_takeover_base_def c c')
  show "op_reap ?ops c = (r, c') \<Longrightarrow> log_good h c' \<and> log_fenced c'"
    using keep [OF ops_reap_grows] by (simp add: ops_takeover_base_def c c')
next
  fix t :: "(('a \<times> io list) ops \<times> 'a \<times> io list) takeover" and s
  assume good: "log_good h (tk_ctx t)" and fenced: "s \<in> {TK_FENCED, TK_TAKEN_OVER} \<longrightarrow> log_fenced (tk_ctx t)"
  obtain o1 w1 l1 where t: "tk_ctx t = (o1, w1, l1)" by (rule prod_cases3)
  obtain o2 w2 l2 where s: "on_state t s = (o2, w2, l2)" by (rule prod_cases3)
  show "log_good h (op_on_state (ops_takeover_base (log_kern k) on_state) t s) \<and> (log_fenced (tk_ctx t) \<longrightarrow>
      log_fenced (op_on_state (ops_takeover_base (log_kern k) on_state) t s))"
    using good fenced assms [OF t s] by (auto simp: ops_takeover_base_def t s log_good_def log_fenced_def fence_first_append)
qed

text \<open>The table as it is, with no callback set.\<close>

interpretation base: takeover_actions "ops_takeover_base (log_kern k) (\<lambda>t s. tk_ctx t)" "log_good (\<lambda>_. False)" log_fenced
  for k by (rule takeover_actions_ops) auto

section \<open>What is planned\<close>

lemma largest_range_mem: "largest_range rs = Some r \<Longrightarrow> r \<in> set rs"
proof -
  have "foldl (\<lambda>l r. case l of None \<Rightarrow> Some r | Some x \<Rightarrow> if r_size r > r_size x then Some r else l) l rs = Some r \<Longrightarrow>
      r \<in> set rs \<or> l = Some r" for l
    by (induction rs arbitrary: l) (auto split: option.splits if_splits)
  then show "largest_range rs = Some r \<Longrightarrow> r \<in> set rs" unfolding largest_range_def by fastforce
qed

text \<open>The top of a range, \<open>n\<close> bytes of it, lies in it.\<close>

lemma range_top:
  assumes "range_ok r" and "n \<le> r_size r" and "n \<noteq> 0"
  shows "r_base r + r_size r - n < r_base r + r_size r - n + n"
    and "{r_base r + r_size r - n ..< r_base r + r_size r - n + n} \<subseteq> range_den r"
proof -
  have s: "unat (r_base r + r_size r) = unat (r_base r) + unat (r_size r)"
    using range_ok_no_wrap [OF assms(1)] by (simp add: unat_word_ariths)
  moreover have n: "unat n \<le> unat (r_size r)" "0 < unat n" using assms(2,3) by (simp_all add: word_le_nat_alt unat_gt_0)
  ultimately have "unat (r_base r + r_size r - n) = unat (r_base r) + unat (r_size r) - unat n"
    by (subst unat_sub) (simp_all add: word_le_nat_alt)
  then show "r_base r + r_size r - n < r_base r + r_size r - n + n"
    "{r_base r + r_size r - n ..< r_base r + r_size r - n + n} \<subseteq> range_den r"
    using s n by (auto simp: word_less_nat_alt word_le_nat_alt range_den_def range_end_def)
qed

lemma keep_for_pool_splits:
  assumes "keep_for_pool k g o1 w = (None, o2, w')" and "rangeset_inv (o_adoptable o1)"
  shows "rangeset_inv (o_adoptable o2) \<and> range_den (o_pool_claim o2) \<subseteq> rangeset_den (o_adoptable o1) \<and>
    rangeset_den (o_adoptable o2) = rangeset_den (o_adoptable o1) - range_den (o_pool_claim o2)"
proof (cases "o_adoptable o2 = o_adoptable o1 \<and> r_size (o_pool_claim o2) = 0")
  case True
  then show ?thesis using assms(2) by (simp add: range_den_def range_end_def)
next
  case False
  then obtain r where r: "largest_range (rs_r (o_adoptable o1)) = Some r" "r_size (o_pool_claim o2) \<le> r_size r"
      "o_pool_claim o2 = \<lparr>r_base = r_base r + r_size r - r_size (o_pool_claim o2), r_size = r_size (o_pool_claim o2)\<rparr>"
      "rangeset_subtract (k_alloc k) (o_adoptable o1) (r_base (o_pool_claim o2)) (r_size (o_pool_claim o2)) = (None, o_adoptable o2)"
    using assms(1) by (auto simp: keep_for_pool_def Let_def not_less split: option.splits if_splits prod.splits)
  then have law: "r_base (o_pool_claim o2) < r_base (o_pool_claim o2) + r_size (o_pool_claim o2)" "rangeset_inv (o_adoptable o2)"
      "rangeset_den (o_adoptable o2) = rangeset_den (o_adoptable o1) - range_den (o_pool_claim o2)"
    using rangeset_subtract_law [OF assms(2), where alc = "k_alloc k" and b = "r_base (o_pool_claim o2)" and z = "r_size (o_pool_claim o2)"]
    by (simp_all add: range_den_def range_end_def)
  have "range_ok r" "range_den r \<subseteq> rangeset_den (o_adoptable o1)"
    using largest_range_mem [OF r(1)] assms(2) by (auto simp: rangeset_inv_def rangeset_den_def ranges_den_def intro: ranges_ok_mem)
  moreover have "r_size (o_pool_claim o2) \<noteq> 0" using law(1) by auto
  ultimately have "range_den (o_pool_claim o2) \<subseteq> rangeset_den (o_adoptable o1)"
    using range_top(2) [OF _ r(2)] r(3) by (metis (no_types) range_den_def range_end_def range.select_convs subset_trans)
  then show ?thesis using law by simp
qed

text \<open>The addresses of whole blocks of \<open>g\<close> bytes inside a set.\<close>

definition whole_blocks :: "u64 \<Rightarrow> u64 set \<Rightarrow> u64 set" where
  "whole_blocks g A = {x. \<forall>y. y div g = x div g \<longrightarrow> y \<in> A}"

lemma plan_adoption_stages:
  assumes "plan_adoption k o1 w = (None, o2, w')"
  obtains own g t a o3 where
    "iomem_system_ram (k_alloc k) (k_sys k) w (oe_iomem_path (o_env o1)) RANGESET_INIT = (None, own)"
    "memory_granule (k_sys k) w (o_fs o1) (oe_block_size_path (o_env o1)) = Inr g"
    "takeable_compute (k_alloc k) (ht_ram (o_host o1)) (ht_cpus (o_host o1)) own
       (si_reserved (o_self o1)) (si_own_cpus (o_self o1)) = (None, t)"
    "rangeset_align (k_alloc k) (ta_memory t) g (rangeset_free (o_adoptable o1)) = (None, a)"
    "keep_for_pool k g o3 w = (None, o2, w')" "o_adoptable o3 = a" "o_takeable o3 = t"
  using assms by (auto simp: plan_adoption_def Let_def split: prod.splits sum.splits if_splits)

lemma keep_for_pool_takeable: "keep_for_pool k g o1 w = (r, o2, w') \<Longrightarrow> o_takeable o2 = o_takeable o1"
  by (auto simp: keep_for_pool_def Let_def split: option.splits if_splits prod.splits)

text \<open>C7: what the daemon plans to hot-add is exactly the whole granules of the machine's RAM that neither
  this kernel nor a reserved region holds, less the memory it keeps for the next pool, which is itself taken
  from those granules; and the CPUs are the machine's that this kernel does not own.  It holds for a machine with no
  RAM in the last granule of the address space, where rounding up would wrap.\<close>

theorem plan_adoption_exact:
  assumes "plan_adoption k o1 w = (None, o2, w')"
    and "iomem_system_ram (k_alloc k) (k_sys k) w (oe_iomem_path (o_env o1)) RANGESET_INIT = (None, own)"
    and "memory_granule (k_sys k) w (o_fs o1) (oe_block_size_path (o_env o1)) = Inr g"
    and "\<forall>x \<in> rangeset_den (ht_ram (o_host o1)). unat x + unat g \<le> 2 ^ 64"
  defines "free \<equiv> rangeset_den (ht_ram (o_host o1)) - rangeset_den own - rangeset_den (si_reserved (o_self o1))"
  shows "rangeset_den (o_adoptable o2) = whole_blocks g free - range_den (o_pool_claim o2) \<and>
    range_den (o_pool_claim o2) \<subseteq> whole_blocks g free \<and> rangeset_inv (o_adoptable o2) \<and>
    set (cl_ids (ta_cpus (o_takeable o2))) = set (cl_ids (ht_cpus (o_host o1))) - set (cl_ids (si_own_cpus (o_self o1)))"
proof -
  obtain t a o3 where
    t: "takeable_compute (k_alloc k) (ht_ram (o_host o1)) (ht_cpus (o_host o1)) own
       (si_reserved (o_self o1)) (si_own_cpus (o_self o1)) = (None, t)" and
    a: "rangeset_align (k_alloc k) (ta_memory t) g (rangeset_free (o_adoptable o1)) = (None, a)" and
    o3: "keep_for_pool k g o3 w = (None, o2, w')" "o_adoptable o3 = a" "o_takeable o3 = t"
    using plan_adoption_stages [OF assms(1)] assms(2,3) by (metis (no_types) Pair_inject sum.inject(2))
  have t': "rangeset_inv (ta_memory t)" "rangeset_den (ta_memory t) = free"
      "set (cl_ids (ta_cpus t)) = set (cl_ids (ht_cpus (o_host o1))) - set (cl_ids (si_own_cpus (o_self o1)))"
    using takeable_compute_law [where ok = "k_alloc k" and host_ram = "ht_ram (o_host o1)" and
        host_cpus = "ht_cpus (o_host o1)" and own_ram = own and reserved = "si_reserved (o_self o1)" and
        own_cpus = "si_own_cpus (o_self o1)"] by (simp_all add: t free_def)
  have "\<forall>r \<in> set (rs_r (ta_memory t)). round_fits g r"
  proof
    fix r assume r: "r \<in> set (rs_r (ta_memory t))"
    then have "range_ok r" using t'(1) by (auto simp: rangeset_inv_def intro: ranges_ok_mem)
    then have "r_base r \<in> rangeset_den (ta_memory t)"
      using r by (auto simp: rangeset_den_def ranges_den_def range_den_def range_ok_def)
    then show "round_fits g r" using assms(4) t'(2) by (auto simp: free_def)
  qed
  then have "rangeset_inv a" "rangeset_den a = whole_blocks g free"
    using rangeset_align_correct [OF t'(1) _ _ a] by (simp_all add: rangeset_inv_empty t'(2) whole_blocks_def)
  then show ?thesis using keep_for_pool_splits [OF o3(1)] keep_for_pool_takeable [OF o3(1)] o3(2,3) t'(3) by simp
qed

text \<open>A kernel with a few files, whose writes all succeed and change nothing.\<close>

definition files_kern :: "(string \<Rightarrow> string option) \<Rightarrow> unit kern" where
  "files_kern files =
     \<lparr>k_sys = (one_file [])\<lparr>sys_read := (\<lambda>w p. case files p of None \<Rightarrow> Inl ENOENT | Some c \<Rightarrow> Inr c)\<rparr>,
      k_alloc = always, k_forks = (\<lambda>w i. Child_exits), k_order = (\<lambda>w. []), k_machine = 62,
      k_source = (\<lambda>w p. example_source), k_sink = (\<lambda>w p. example_sink True), k_store = (\<lambda>p s w. w)\<rparr>"

definition small_env :: "unit ops_env" where
  "small_env = \<lparr>oe_devtree_root = ''dt'', oe_sysfs_root = ''mk'', oe_iomem_path = ''iomem'', oe_mem_path = ''mem'',
     oe_block_size_path = ''block'', oe_dump_path = None, oe_pci_bus = ''pci'', oe_reset_devices = True,
     oe_fence_fn = (\<lambda>i w. (None, w)), oe_network = None, oe_net_env = None, oe_net_restored_path = None,
     oe_next_memory = 0x10, oe_pool_claim_path = Some ''claim''\<rparr>"

definition small_files :: "string \<Rightarrow> string option" where
  "small_files p = (if p = ''iomem'' then Some ''00000000-0000000f : System RAM'' else if p = ''block'' then Some ''10'' else None)"

definition small_ops :: "unit ops" where
  "small_ops = (ops_zero small_env)\<lparr>o_host := host_tree_zero\<lparr>ht_cpus := \<lparr>cl_ids = [0, 1, 2]\<rparr>,
     ht_ram := \<lparr>rs_r = [\<lparr>r_base = 0, r_size = 0x40\<rparr>], rs_cap = 1\<rparr>\<rparr>,
     o_self := self_info_zero\<lparr>si_name := Some ''next'', si_own_cpus := \<lparr>cl_ids = [2]\<rparr>\<rparr>\<rparr>"

theorem plan_adoption_exact_witness:
  "\<exists>o2. plan_adoption (files_kern small_files) small_ops () = (None, o2, ()) \<and>
    rangeset_den (o_adoptable o2) = {0x10 ..< 0x20} \<and> range_den (o_pool_claim o2) = {0x20 ..< 0x40} \<and>
    set (cl_ids (ta_cpus (o_takeable o2))) = {0, 1} \<and>
    rangeset_den (o_adoptable o2) \<subseteq> whole_blocks 0x10 ({0 ..< 0x40} - {0 ..< 0x10})"
proof -
  let ?k = "files_kern small_files" and ?a = "\<lparr>rs_r = [\<lparr>r_base = 0x10, r_size = 0x30\<rparr>], rs_cap = 8\<rparr>"
  let ?own = "\<lparr>rs_r = [\<lparr>r_base = 0, r_size = 0x10\<rparr>], rs_cap = 8\<rparr>"
  have own: "iomem_system_ram always (k_sys ?k) () ''iomem'' RANGESET_INIT = (None, ?own)" by code_simp
  have g: "memory_granule (k_sys ?k) () ''mk'' ''block'' = Inr 0x10" by code_simp
  have t: "takeable_compute always (ht_ram (o_host small_ops)) (ht_cpus (o_host small_ops)) ?own (si_reserved (o_self small_ops))
      (si_own_cpus (o_self small_ops)) = (None, \<lparr>ta_memory = ?a, ta_cpus = \<lparr>cl_ids = [0, 1]\<rparr>\<rparr>)" by code_simp
  have a: "rangeset_align always ?a 0x10 (rangeset_free (o_adoptable small_ops)) = (None, ?a)" by code_simp
  have s: "rangeset_subtract always ?a 0x20 0x20 = (None, \<lparr>rs_r = [\<lparr>r_base = 0x10, r_size = 0x10\<rparr>], rs_cap = 8\<rparr>)" by code_simp
  have e: "k_alloc ?k = always" "oe_iomem_path (o_env small_ops) = ''iomem''" "o_fs small_ops = ''mk''"
      "oe_block_size_path (o_env small_ops) = ''block''" "oe_next_memory (o_env small_ops) = 0x10"
      "oe_pool_claim_path (o_env small_ops) = Some ''claim''"
    by (simp_all add: files_kern_def small_ops_def ops_zero_def small_env_def)
  have w: "pool_claim_write (k_sys ?k) p c () = (None, ())" for p c by (simp add: pool_claim_write_def files_kern_def one_file_def)
  obtain o2 where o2: "plan_adoption ?k small_ops () = (None, o2, ())"
      "rangeset_den (o_adoptable o2) = {0x10 ..< 0x20}" "range_den (o_pool_claim o2) = {0x20 ..< 0x40}"
    by (simp add: plan_adoption_def e own g t a s w keep_for_pool_def largest_range_def Let_def
        rangeset_den_def ranges_den_def range_den_def range_end_def)
  have "\<forall>x \<in> rangeset_den (ht_ram (o_host small_ops)). unat x + unat (0x10 :: u64) \<le> 2 ^ 64"
    by (auto simp: small_ops_def rangeset_den_def ranges_den_def range_den_def range_end_def word_less_nat_alt)
  from plan_adoption_exact [OF o2(1), where own = ?own and g = "0x10"] this own g e o2 show ?thesis
    by (intro exI [of _ o2])
      (auto simp: small_ops_def rangeset_den_def ranges_den_def range_den_def range_end_def self_info_zero_def RANGESET_INIT_def)
qed

section \<open>The trace of the devices' adoption\<close>







text \<open>A function's DMA is off: it was reset, or its command register was seen or written without bus mastering.\<close>

definition quiet_in :: "string \<Rightarrow> io list \<Rightarrow> string \<Rightarrow> bool" where
  "quiet_in bus l i =
     (let config = mkpath [bus, ''devices'', i, ''config''] in
      Io_attr (mkpath [bus, ''devices'', i, ''reset'']) ''1'' None \<in> set l \<or>
      (\<exists>c d. Io_pread config PCI_COMMAND_OFFSET (Inr [c, d]) \<in> set l \<and>
         (and (byte_of c) PCI_COMMAND_MASTER = 0 \<or>
          Io_pwrite config PCI_COMMAND_OFFSET [char_of_byte (and (byte_of c) (not PCI_COMMAND_MASTER)), d] 2 \<in> set l)))"


lemma quiet_in_append [simp]: "quiet_in bus l i \<or> quiet_in bus m i \<Longrightarrow> quiet_in bus (l @ m) i"
  by (auto simp: quiet_in_def Let_def)


























section \<open>The machine on the kernel\<close>

definition log_env :: "'w ops_env \<Rightarrow> ('w \<times> io list) ops_env" where
  "log_env e =
     \<lparr>oe_devtree_root = oe_devtree_root e, oe_sysfs_root = oe_sysfs_root e, oe_iomem_path = oe_iomem_path e,
      oe_mem_path = oe_mem_path e, oe_block_size_path = oe_block_size_path e, oe_dump_path = oe_dump_path e,
      oe_pci_bus = oe_pci_bus e, oe_reset_devices = oe_reset_devices e,
      oe_fence_fn = (\<lambda>i. log_io (oe_fence_fn e i) (Io_fence i)), oe_network = oe_network e,
      oe_net_env = map_option log_net (oe_net_env e), oe_net_restored_path = oe_net_restored_path e,
      oe_next_memory = oe_next_memory e, oe_pool_claim_path = oe_pool_claim_path e\<rparr>"

lemma logs_log_env [simp]: "logs_env (log_env e)"
  by (auto simp: logs_env_def log_env_def)

lemma ops_init_env: "ops_init k env w = (r, o') \<Longrightarrow> o_env o' = env"
  by (auto simp: ops_init_def ops_zero_def list_foreign_def ops_free_def Let_def split: prod.splits if_splits)

text \<open>C2: whatever events arrive and whatever the kernel answers, the takeover touches nothing of the machine
  (no overlay, no device, no network message, no dump) before a fence of the predecessor has succeeded.\<close>

theorem nothing_taken_before_fence:
  fixes k :: "'w kern"
  shows "case tk_ctx (takeover_run (ops_takeover_base (log_kern k) (\<lambda>t s. tk_ctx t))
      (takeover_init (snd (ops_init (log_kern k) (log_env env) (w, [])), w, []) timeouts retries) evs) of
    (o', w', trace) \<Rightarrow> fence_first (\<lambda>_. False) trace"
proof -
  obtain r o1 where o1: "ops_init (log_kern k) (log_env env) (w, []) = (r, o1)" by (rule prod.exhaust)
  then have "log_good (\<lambda>_. False) (o1, w, [])" using ops_init_env [OF o1] by (simp add: log_good_def)
  then show ?thesis
    using base.run_good [of "takeover_init (o1, w, []) timeouts retries" k evs] unfolding o1 snd_conv log_good_def
    by (simp add: takeover_init_def split_def)
qed

end
