(* ===== verification/Netsnap_Text.thy ===== *)
theory Netsnap_Text
  imports Netsnap
begin

text \<open>
  The text form of a network snapshot (lib/netsnap.c): one line per link,
  address and route.  The predecessor formats it, the successor parses it, and
  what is parsed is what was formatted.
\<close>

section \<open>Fields\<close>

definition INET6_ADDRSTRLEN :: nat where "INET6_ADDRSTRLEN = 46"

definition put_ip :: "nat \<Rightarrow> string \<Rightarrow> string res" where
  "put_ip family addr = (case inet_ntop family addr INET6_ADDRSTRLEN of None \<Rightarrow> Inl EINVAL | Some s \<Rightarrow> Inr s)"

abbreviation zero16 :: string where
  "zero16 \<equiv> replicate 16 (CHR 0x00)"

text \<open>The family, and the address in a buffer of 16 bytes that was zero.\<close>

definition get_ip :: "string \<Rightarrow> (nat \<times> string) res" where
  "get_ip txt =
     (let family = (if CHR '':'' \<in> set txt then AF_INET6 else AF_INET) in
      case inet_pton family txt of None \<Rightarrow> Inl EINVAL | Some bs \<Rightarrow> Inr (family, bs @ drop (length bs) zero16))"

definition get_prefix :: "string \<Rightarrow> (nat \<times> string \<times> nat) res" where
  "get_prefix txt =
     (if CHR ''/'' \<notin> set txt then Inl EINVAL
      else let addr = takeWhile (\<lambda>c. c \<noteq> CHR ''/'') txt;
               (n, e, range) = strtoull 10 (tl (dropWhile (\<lambda>c. c \<noteq> CHR ''/'') txt))
           in if e \<noteq> [] then Inl EINVAL
              else case get_ip addr of
                     Inl err \<Rightarrow> Inl EINVAL
                   | Inr (family, bs) \<Rightarrow> if unat n > addr_len family * 8 then Inl EINVAL else Inr (family, bs, unat n))"

definition put_until :: "int \<Rightarrow> string" where
  "put_until until = (if until = 0 then ''forever'' else snd (snprintf 24 (dec_int until)))"

definition get_until :: "string \<Rightarrow> int res" where
  "get_until txt =
     (if txt = ''forever'' then Inr 0
      else let (until, e) = strtoll 10 txt in if e \<noteq> [] \<or> until \<le> 0 then Inl EINVAL else Inr until)"

section \<open>Formatting\<close>

text \<open>The buffer of \<open>len\<close> bytes holds the text so far; what does not fit is cut.\<close>

definition append_fmt :: "nat \<Rightarrow> string \<Rightarrow> string \<Rightarrow> rc \<times> string" where
  "append_fmt len s buf =
     (if length s \<ge> len - length buf then (Some ENOSPC, buf @ take (len - length buf - 1) s) else (None, buf @ s))"

abbreviation byte_hex :: "char \<Rightarrow> string" where
  "byte_hex c \<equiv> zpad 2 (hex (of_char c))"

definition link_line :: "netsnap_link \<Rightarrow> string" where
  "link_line l = ''link '' @ nl_pci l @ '' '' @ nl_name l @ '' '' @ join '':'' (map byte_hex (nl_mac l)) @ '' '' @
     dec (unat (nl_mtu l)) @ [CHR 0x0A]"

definition addr_line :: "netsnap_link \<Rightarrow> netsnap_addr \<Rightarrow> string \<Rightarrow> string \<Rightarrow> string" where
  "addr_line l ad a b = ''addr '' @ nl_pci l @ '' '' @ a @ ''/'' @ dec (na_prefix ad) @ '' '' @
     (if na_has_brd ad then b else ''-'') @ '' '' @ put_until (na_valid_until ad) @ '' '' @
     put_until (na_preferred_until ad) @ [CHR 0x0A]"

definition route_line :: "netsnap_link \<Rightarrow> netsnap_route \<Rightarrow> string \<Rightarrow> string \<Rightarrow> string" where
  "route_line l r a b = ''route '' @ nl_pci l @ '' '' @ a @ ''/'' @ dec (nr_dst_len r) @ '' '' @
     (if nr_has_gw r then b else ''-'') @ '' '' @ dec (unat (nr_metric r)) @ '' '' @ dec (nr_protocol r) @ '' '' @
     dec (nr_scope r) @ [CHR 0x0A]"

text \<open>An address and, when there is one, a second address, then the line.\<close>

definition put_line :: "nat \<Rightarrow> nat \<Rightarrow> string \<Rightarrow> bool \<Rightarrow> string \<Rightarrow> (string \<Rightarrow> string \<Rightarrow> string) \<Rightarrow> string \<Rightarrow> rc \<times> string" where
  "put_line len family a second b line buf =
     (case put_ip family a of
        Inl e \<Rightarrow> (Some e, buf)
      | Inr a \<Rightarrow>
          (case (if second then put_ip family b else Inr []) of
             Inl e \<Rightarrow> (Some e, buf)
           | Inr b \<Rightarrow> append_fmt len (line a b) buf))"

definition format_link :: "nat \<Rightarrow> netsnap_link \<Rightarrow> string \<Rightarrow> rc \<times> string" where
  "format_link len l = try_all
     [append_fmt len (link_line l),
      fold_rc (\<lambda>ad. put_line len (na_family ad) (na_addr ad) (na_has_brd ad) (na_brd ad) (addr_line l ad)) (nl_addrs l),
      fold_rc (\<lambda>r. put_line len (nr_family r) (nr_dst r) (nr_has_gw r) (nr_gw r) (route_line l r)) (nl_routes l)]"

definition netsnap_format :: "netsnap \<Rightarrow> nat \<Rightarrow> nat res \<times> string" where
  "netsnap_format s len =
     (case fold_rc (format_link len) (ns_links s) [] of
        (None, buf) \<Rightarrow> (Inr (length buf), buf)
      | (Some e, buf) \<Rightarrow> (Inl e, buf))"

section \<open>Parsing\<close>

fun find_index :: "('a \<Rightarrow> bool) \<Rightarrow> 'a list \<Rightarrow> nat option" where
  "find_index P [] = None"
| "find_index P (x # xs) = (if P x then Some 0 else map_option Suc (find_index P xs))"

text \<open>The position of the link in the snapshot.\<close>

definition link_by_pci :: "netsnap \<Rightarrow> string \<Rightarrow> nat option" where
  "link_by_pci s pci = find_index (\<lambda>l. nl_pci l = pci) (ns_links s)"

abbreviation link_zero :: netsnap_link where
  "link_zero \<equiv> \<lparr>nl_pci = [], nl_name = [], nl_mac = replicate 6 (CHR 0x00), nl_mtu = 0, nl_ifindex = 0, nl_addrs = [], nl_routes = []\<rparr>"

abbreviation char_of_u64 :: "u64 \<Rightarrow> char" where
  "char_of_u64 v \<equiv> char_of (unat v mod 256)"

definition parse_link :: "netsnap \<Rightarrow> string \<Rightarrow> string \<Rightarrow> rc \<times> netsnap" where
  "parse_link s pci rest =
     (if length (ns_links s) = NETSNAP_MAX_LINKS \<or> link_by_pci s pci \<noteq> None \<or> length pci \<ge> 16 then (Some EINVAL, s)
      else case fst (sscanf rest [SStr 15, SWs, SNum 16 None, SLit (CHR '':''), SNum 16 None, SLit (CHR '':''),
             SNum 16 None, SLit (CHR '':''), SNum 16 None, SLit (CHR '':''), SNum 16 None, SLit (CHR '':''),
             SNum 16 None, SWs, SNum 10 None]) of
           [VStr name, VNum m0, VNum m1, VNum m2, VNum m3, VNum m4, VNum m5, VNum mtu] \<Rightarrow>
             (None, s\<lparr>ns_links := ns_links s @ [link_zero\<lparr>nl_pci := pci, nl_name := name,
                nl_mac := map char_of_u64 [m0, m1, m2, m3, m4, m5], nl_mtu := ucast mtu\<rparr>]\<rparr>)
         | _ \<Rightarrow> (Some EINVAL, s))"

abbreviation addr_zero :: netsnap_addr where
  "addr_zero \<equiv> \<lparr>na_family = 0, na_prefix = 0, na_has_brd = False, na_addr = zero16, na_brd = zero16, na_valid_until = 0, na_preferred_until = 0\<rparr>"

text \<open>A second address, \<open>-\<close> for none: whether there is one, and its bytes.\<close>

definition get_second :: "nat \<Rightarrow> string \<Rightarrow> (bool \<times> string) res" where
  "get_second family txt =
     (if txt = ''-'' then Inr (False, zero16)
      else case get_ip txt of
             Inl e \<Rightarrow> Inl EINVAL
           | Inr (fam, bs) \<Rightarrow> if fam \<noteq> family then Inl EINVAL else Inr (True, bs))"

definition parse_addr :: "netsnap_link \<Rightarrow> string \<Rightarrow> netsnap_link res" where
  "parse_addr l rest =
     (if length (nl_addrs l) = NETSNAP_MAX_ADDRS then Inl EINVAL
      else case fst (sscanf rest [SStr 63, SWs, SStr 63, SWs, SStr 23, SWs, SStr 23]) of
        [VStr addr, VStr brd, VStr valid, VStr pref] \<Rightarrow>
          (case (get_prefix addr, get_until valid, get_until pref) of
             (Inr (family, bs, prefix), Inr v, Inr p) \<Rightarrow>
               (case get_second family brd of
                  Inl e \<Rightarrow> Inl EINVAL
                | Inr (has_brd, b) \<Rightarrow> Inr (l\<lparr>nl_addrs := nl_addrs l @ [\<lparr>na_family = family, na_prefix = prefix,
                    na_has_brd = has_brd, na_addr = bs, na_brd = b, na_valid_until = v, na_preferred_until = p\<rparr>]\<rparr>))
           | _ \<Rightarrow> Inl EINVAL)
      | _ \<Rightarrow> Inl EINVAL)"

definition parse_route :: "netsnap_link \<Rightarrow> string \<Rightarrow> netsnap_link res" where
  "parse_route l rest =
     (if length (nl_routes l) = NETSNAP_MAX_ROUTES then Inl EINVAL
      else case fst (sscanf rest [SStr 63, SWs, SStr 63, SWs, SNum 10 None, SWs, SNum 10 None, SWs, SNum 10 None]) of
        [VStr dst, VStr gw, VNum metric, VNum protocol, VNum scope] \<Rightarrow>
          let metric = ucast metric :: u32; protocol = ucast protocol :: u32; scope = ucast scope :: u32 in
          if protocol > 255 \<or> scope > 255 then Inl EINVAL
          else (case get_prefix dst of
             Inl e \<Rightarrow> Inl EINVAL
           | Inr (family, bs, dst_len) \<Rightarrow>
               (case get_second family gw of
                  Inl e \<Rightarrow> Inl EINVAL
                | Inr (has_gw, g) \<Rightarrow> Inr (l\<lparr>nl_routes := nl_routes l @ [\<lparr>nr_family = family, nr_dst_len = dst_len,
                    nr_protocol = unat protocol, nr_scope = unat scope, nr_has_gw = has_gw, nr_dst = bs, nr_gw = g,
                    nr_metric = metric\<rparr>]\<rparr>)))
      | _ \<Rightarrow> Inl EINVAL)"

text \<open>One line that is not empty.\<close>

definition parse_line :: "string \<Rightarrow> netsnap \<Rightarrow> rc \<times> netsnap" where
  "parse_line line s =
     (case sscanf line [SStr 7, SWs, SStr 31, SWs, SPos] of
        ([VStr kind, VStr pci], Some skip) \<Rightarrow>
          let rest = drop skip line in
          if kind = ''link'' then parse_link s pci rest
          else (case link_by_pci s pci of
             None \<Rightarrow> (Some EINVAL, s)
           | Some i \<Rightarrow>
               let l = ns_links s ! i;
                   r = (if kind = ''addr'' then parse_addr l rest else if kind = ''route'' then parse_route l rest else Inl EINVAL)
               in (case r of Inl e \<Rightarrow> (Some e, s) | Inr l \<Rightarrow> (None, s\<lparr>ns_links := (ns_links s)[i := l]\<rparr>)))
      | _ \<Rightarrow> (Some EINVAL, s))"

function parse_loop :: "string \<Rightarrow> netsnap \<Rightarrow> rc \<times> netsnap" where
  "parse_loop p s =
     (if p = [] then (None, s)
      else
        let line = snd (snprintf 256 (takeWhile (\<lambda>c. c \<noteq> CHR 0x0A) p));
            p = tl (dropWhile (\<lambda>c. c \<noteq> CHR 0x0A) p)
        in if line = [] then parse_loop p s
           else case parse_line line s of (Some e, s) \<Rightarrow> (Some e, s) | (None, s) \<Rightarrow> parse_loop p s)"
  by pat_completeness auto
termination
proof -
  have "length (tl (dropWhile P p)) < length p" if "p \<noteq> []" for p :: string and P
    unfolding length_tl using that length_dropWhile_le [of P p] by (simp only: length_greater_0_conv [symmetric])
  then show ?thesis by (relation "measure (\<lambda>(p, s). length p)") auto
qed

declare parse_loop.simps [simp del]

definition netsnap_parse :: "string \<Rightarrow> rc \<times> netsnap" where
  "netsnap_parse txt = parse_loop txt \<lparr>ns_links = []\<rparr>"

section \<open>Scanning what was printed\<close>

definition word_ok :: "nat \<Rightarrow> string \<Rightarrow> bool" where
  "word_ok n w = (w \<noteq> [] \<and> length w \<le> n \<and> (\<forall>c \<in> set w. \<not> isspace c))"

lemma scan_str:
  assumes "word_ok n w" and "s = [] \<or> isspace (hd s)"
  shows "scan at (SStr n # ds) (w @ s) = (let (vs, k) = scan at ds s in (VStr w # vs, k))"
  using assms scan_word_max_print [of w n s] by (simp add: word_ok_def)

lemma scan_space:
  assumes "s \<noteq> []" and "\<not> isspace (hd s)"
  shows "scan at (SWs # ds) (CHR '' '' # s) = scan at ds s"
  using assms dropWhile_isspace_head [of s] by (simp add: isspace_lit)

lemma word_ok_hd: "word_ok n w \<Longrightarrow> w @ s \<noteq> [] \<and> \<not> isspace (hd (w @ s))"
  by (auto simp: word_ok_def)

lemma word_ok_mono: "word_ok m w \<Longrightarrow> m \<le> n \<Longrightarrow> word_ok n w"
  by (simp add: word_ok_def)

lemma isspace_space [simp]: "isspace (CHR '' '')"
  by (simp add: isspace_lit)

lemma dec_word: "n < 10 ^ k \<Longrightarrow> 0 < k \<Longrightarrow> word_ok k (dec n)"
  using num_str_length [of n 10 k] dec_digits [of n] digit_not_space by (fastforce simp: word_ok_def)

lemma byte_hex_digits: "\<forall>c \<in> set (byte_hex b). digit_val c < 16"
  using zpad_digits hex_digits by blast

lemma scan_byte_hex:
  assumes "s = [] \<or> hd s = CHR '':'' \<or> hd s = CHR '' ''"
  shows "scan at (SNum 16 None # ds) (byte_hex b @ s) = (let (vs, k) = scan at ds s in (VNum (of_nat (of_char b)) # vs, k))"
proof -
  have s: "stops 16 s" "s = [] \<or> hd s \<noteq> CHR ''x'' \<and> hd s \<noteq> CHR ''X''"
    using assms by (auto simp: stops_def digit_val_def)
  have "of_char b < (2 :: nat) ^ 64" using nat_of_char_less_256 [of b] by (rule less_trans) simp
  then have v: "strtoull 16 (byte_hex b @ s) = (of_nat (of_char b), s, False)" using s by (intro strtoull_zpad_hex)
  have "\<not> isspace (hd (byte_hex b))" using byte_hex_digits [of b] digit_not_space by (metis hd_in_set zpad_nonempty num_str_nonempty)
  then have "dropWhile isspace (byte_hex b @ s) = byte_hex b @ s" by (intro dropWhile_isspace_head) simp
  moreover have "scan_num 16 (byte_hex b @ s) \<noteq> None"
    using scan_num_digits [of "byte_hex b" 16 s] byte_hex_digits [of b] s by simp
  ultimately show ?thesis using v by (auto simp: scan_number_def)
qed

lemma scan_dec_word:
  assumes "n < 2 ^ 64" and "s = [] \<or> isspace (hd s)"
  shows "scan at (SNum 10 None # ds) (dec n @ s) = (let (vs, k) = scan at ds s in (VNum (of_nat n) # vs, k))"
proof -
  have "stops 10 s" using assms(2) digit_not_space by (cases s) (auto simp: stops_def intro: less_trans)
  then show ?thesis using scan_number_dec [OF assms(1)] by simp
qed

text \<open>A text that starts with a word, and the words of a line one after the other.\<close>

definition starts_word :: "string \<Rightarrow> bool" where
  "starts_word s = (s \<noteq> [] \<and> \<not> isspace (hd s))"

lemma starts_word: "word_ok n w \<Longrightarrow> starts_word (w @ s)" "starts_word (dec k @ s)" "starts_word (byte_hex b @ s)"
  using word_ok_hd hd_num_str [of 10 k] digit_not_space [of "hd (dec k)"] digit_not_space [of "hd (byte_hex b)"] byte_hex_digits [of b]
  by (auto simp: starts_word_def)

lemma scan_word_then:
  "word_ok n w \<Longrightarrow> starts_word s \<Longrightarrow>
    scan at (SStr n # SWs # ds) (w @ CHR '' '' # s) = (let (vs, k) = scan at ds s in (VStr w # vs, k))"
  "word_ok n w \<Longrightarrow> scan at [SStr n] w = ([VStr w], None)"
  "m < 2 ^ 64 \<Longrightarrow> starts_word s \<Longrightarrow>
    scan at (SNum 10 None # SWs # ds) (dec m @ CHR '' '' # s) = (let (vs, k) = scan at ds s in (VNum (of_nat m) # vs, k))"
  "m < 2 ^ 64 \<Longrightarrow> scan at [SNum 10 None] (dec m) = ([VNum (of_nat m)], None)"
  using scan_str [of n w "CHR '' '' # s" at "SWs # ds"] scan_str [of n w "[]" at "[]"] scan_space [of s at ds]
    scan_dec_word [of m "CHR '' '' # s" at "SWs # ds"] scan_dec_word [of m "[]" at "[]"]
  by (simp_all only: starts_word_def) simp_all

lemma scan_head:
  assumes "word_ok 7 kind" and "word_ok 31 pci" and "starts_word rest"
  shows "sscanf (kind @ '' '' @ pci @ '' '' @ rest) [SStr 7, SWs, SStr 31, SWs, SPos] =
    ([VStr kind, VStr pci], Some (length (kind @ '' '' @ pci @ '' '')))"
  using scan_word_then(1) [OF assms(1) starts_word(1) [OF assms(2)]] scan_word_then(1) [OF assms(2,3)]
  by (simp add: sscanf_def del: scan.simps(2,4))

section \<open>Reading back the fields\<close>

definition ip_ok :: "nat \<Rightarrow> string \<Rightarrow> bool" where
  "ip_ok family bs = ((family = AF_INET \<or> family = AF_INET6) \<and> length bs = 16 \<and>
     drop (addr_len family) bs = replicate (16 - addr_len family) (CHR 0x00))"

definition ip_text :: "nat \<Rightarrow> string \<Rightarrow> string" where
  "ip_text family bs = (case inet_ntop family bs INET6_ADDRSTRLEN of None \<Rightarrow> [] | Some s \<Rightarrow> s)"

lemma ip_text_props:
  assumes "ip_ok family bs"
  shows "put_ip family bs = Inr (ip_text family bs)" and "get_ip (ip_text family bs) = Inr (family, bs)"
    and "length (ip_text family bs) \<le> 45" and "ip_text family bs \<noteq> []"
    and "\<forall>c \<in> set (ip_text family bs). digit_val c < 16 \<or> c \<in> {CHR '':'', CHR ''.''}"
proof -
  obtain s where s: "inet_ntop family bs 46 = Some s"
    "inet_pton family s = Some (take (if family = AF_INET6 then 16 else 4) bs)"
    "length s \<le> 45" "\<forall>c \<in> set s. digit_val c < 16 \<or> c \<in> {CHR '':'', CHR ''.''}" "CHR '':'' \<in> set s \<longleftrightarrow> family = AF_INET6"
    using inet_roundtrip [of family bs] assms unfolding ip_ok_def by metis
  have t: "ip_text family bs = s" by (simp add: ip_text_def INET6_ADDRSTRLEN_def s(1))
  have a: "addr_len family = (if family = AF_INET6 then 16 else 4)" by (simp add: addr_len_def)
  then have "bs = take (addr_len family) bs @ replicate (16 - addr_len family) (CHR 0x00)"
    using assms append_take_drop_id [of "addr_len family" bs] by (simp add: ip_ok_def)
  moreover have "(if CHR '':'' \<in> set s then AF_INET6 else AF_INET) = family" using s(5) assms by (auto simp: ip_ok_def)
  ultimately show "get_ip (ip_text family bs) = Inr (family, bs)"
    using s(2) a assms by (auto simp: get_ip_def t ip_ok_def Let_def)
  show "put_ip family bs = Inr (ip_text family bs)" by (simp add: put_ip_def t INET6_ADDRSTRLEN_def s(1))
  show "ip_text family bs \<noteq> []"
    using s(2) by (auto simp: t inet_pton_def inet_pton4_def inet_pton6_def split: if_splits)
  show "length (ip_text family bs) \<le> 45" "\<forall>c \<in> set (ip_text family bs). digit_val c < 16 \<or> c \<in> {CHR '':'', CHR ''.''}"
    using s(3,4) by (simp_all add: t)
qed

lemma ip_text_word:
  assumes "ip_ok family bs"
  shows "word_ok 45 (ip_text family bs)" and "CHR ''/'' \<notin> set (ip_text family bs)" and "ip_text family bs \<noteq> ''-''"
proof -
  note p = ip_text_props(3-5) [OF assms]
  have "\<not> isspace c" if "c \<in> set (ip_text family bs)" for c
    using p(3) that digit_not_space [of c] by (auto simp: isspace_lit)
  then show "word_ok 45 (ip_text family bs)" using p(1,2) by (auto simp: word_ok_def)
  have "digit_val (CHR ''/'') = 16" "digit_val (CHR ''-'') = 16" by (simp_all add: digit_val_def)
  then show "CHR ''/'' \<notin> set (ip_text family bs)" "ip_text family bs \<noteq> ''-''" using p(3) by auto
qed

lemma prefix_word:
  assumes "ip_ok family bs" and "n \<le> 128"
  shows "word_ok 63 (ip_text family bs @ ''/'' @ dec n)"
  using ip_text_word(1) [OF assms(1)] dec_word [of n 3] assms(2) by (auto simp: word_ok_def isspace_lit)

lemma get_prefix_text:
  assumes "ip_ok family bs" and "n \<le> addr_len family * 8"
  shows "get_prefix (ip_text family bs @ ''/'' @ dec n) = Inr (family, bs, n)"
proof -
  let ?t = "ip_text family bs"
  have cut: "takeWhile (\<lambda>c. c \<noteq> CHR ''/'') (?t @ ''/'' @ dec n) = ?t" "dropWhile (\<lambda>c. c \<noteq> CHR ''/'') (?t @ ''/'' @ dec n) = ''/'' @ dec n"
    by (rule takeWhile_digits_append; use ip_text_word(2) [OF assms(1)] in auto)+
  have n: "n \<le> 128" using assms(2) by (simp add: addr_len_def split: if_splits)
  then have "strtoull 10 (dec n) = (of_nat n, [], False)" using strtoull_dec [of n "[]"] by simp
  moreover have "unat (of_nat n :: u64) = n" using n by (simp add: unat_of_nat)
  ultimately show ?thesis
    using ip_text_props(2) [OF assms(1)] assms(2) by (simp add: get_prefix_def cut [simplified])
qed

definition until_ok :: "int \<Rightarrow> bool" where
  "until_ok t = (0 \<le> t \<and> t < 2 ^ 63)"

lemma until_text:
  assumes "until_ok t"
  shows "word_ok 23 (put_until t)" and "get_until (put_until t) = Inr t"
proof -
  have w: "word_ok 19 (dec (nat t))" if "t \<noteq> 0"
    using assms that by (intro dec_word) (auto simp: until_ok_def nat_less_iff)
  have d: "hd (dec (nat t)) \<noteq> CHR ''f''" using hd_num_str [of 10 "nat t"] by (auto simp: digit_val_def)
  have p: "put_until t = dec (nat t)" if "t \<noteq> 0"
    using that assms w by (simp add: put_until_def dec_int_def until_ok_def snprintf_def word_ok_def)
  show "word_ok 23 (put_until t)"
    using w p by (cases "t = 0") (auto simp: put_until_def word_ok_def isspace_lit)
  show "get_until (put_until t) = Inr t"
  proof (cases "t = 0")
    case False
    have "dec (nat t) \<noteq> ''forever''" using d by auto
    then show ?thesis
      using False p assms scan_num_dec_str [of "[]" "nat t"] by (simp add: get_until_def strtoll_def until_ok_def)
  qed (simp add: get_until_def put_until_def)
qed

definition second_text :: "nat \<Rightarrow> bool \<Rightarrow> string \<Rightarrow> string" where
  "second_text family has bs = (if has then ip_text family bs else ''-'')"

definition second_ok :: "nat \<Rightarrow> bool \<Rightarrow> string \<Rightarrow> bool" where
  "second_ok family has bs = (if has then ip_ok family bs else bs = zero16)"

lemma second_text:
  assumes "second_ok family has bs"
  shows "word_ok 63 (second_text family has bs)" and "get_second family (second_text family has bs) = Inr (has, bs)"
  using assms ip_text_word [of family bs] ip_text_props(2) [of family bs]
  by (auto simp: second_ok_def second_text_def get_second_def word_ok_def isspace_lit split: if_splits)

section \<open>Reading back the lines\<close>

definition addr_ok :: "netsnap_addr \<Rightarrow> bool" where
  "addr_ok a = (ip_ok (na_family a) (na_addr a) \<and> na_prefix a \<le> addr_len (na_family a) * 8 \<and>
     second_ok (na_family a) (na_has_brd a) (na_brd a) \<and> until_ok (na_valid_until a) \<and> until_ok (na_preferred_until a))"

definition route_ok :: "netsnap_route \<Rightarrow> bool" where
  "route_ok r = (ip_ok (nr_family r) (nr_dst r) \<and> nr_dst_len r \<le> addr_len (nr_family r) * 8 \<and>
     second_ok (nr_family r) (nr_has_gw r) (nr_gw r) \<and> nr_protocol r \<le> 255 \<and> nr_scope r \<le> 255)"

text \<open>The lines without what names the link and without the line break.\<close>

definition addr_rest :: "netsnap_addr \<Rightarrow> string" where
  "addr_rest a = (ip_text (na_family a) (na_addr a) @ ''/'' @ dec (na_prefix a)) @ '' '' @
     second_text (na_family a) (na_has_brd a) (na_brd a) @ '' '' @ put_until (na_valid_until a) @ '' '' @ put_until (na_preferred_until a)"

definition route_rest :: "netsnap_route \<Rightarrow> string" where
  "route_rest r = (ip_text (nr_family r) (nr_dst r) @ ''/'' @ dec (nr_dst_len r)) @ '' '' @
     second_text (nr_family r) (nr_has_gw r) (nr_gw r) @ '' '' @ dec (unat (nr_metric r)) @ '' '' @ dec (nr_protocol r) @ '' '' @ dec (nr_scope r)"

definition link_rest :: "netsnap_link \<Rightarrow> string" where
  "link_rest l = nl_name l @ '' '' @ join '':'' (map byte_hex (nl_mac l)) @ '' '' @ dec (unat (nl_mtu l))"

lemma addr_len_128: "n \<le> addr_len family * 8 \<Longrightarrow> n \<le> 128"
  by (simp add: addr_len_def split: if_splits)

lemma parse_addr_rest:
  assumes "addr_ok a" and "length (nl_addrs l) < NETSNAP_MAX_ADDRS"
  shows "parse_addr l (addr_rest a) = Inr (l\<lparr>nl_addrs := nl_addrs l @ [a]\<rparr>)"
proof -
  have ok: "ip_ok (na_family a) (na_addr a)" "na_prefix a \<le> addr_len (na_family a) * 8"
    "second_ok (na_family a) (na_has_brd a) (na_brd a)" "until_ok (na_valid_until a)" "until_ok (na_preferred_until a)"
    using assms(1) by (simp_all add: addr_ok_def)
  let ?s2 = "second_text (na_family a) (na_has_brd a) (na_brd a)" and ?v = "put_until (na_valid_until a)"
    and ?p = "put_until (na_preferred_until a)"
  define w1 where "w1 = ip_text (na_family a) (na_addr a) @ ''/'' @ dec (na_prefix a)"
  note w = prefix_word [OF ok(1) addr_len_128 [OF ok(2)], folded w1_def] second_text(1) [OF ok(3)] until_text(1) [OF ok(4)] until_text(1) [OF ok(5)]
  have "fst (sscanf (addr_rest a) [SStr 63, SWs, SStr 63, SWs, SStr 23, SWs, SStr 23]) =
      [VStr w1, VStr ?s2, VStr ?v, VStr ?p]"
    using starts_word(1) [OF w(2)] starts_word(1) [OF w(3)] starts_word(1) [OF w(4), of "[]"]
    unfolding sscanf_def addr_rest_def w1_def [symmetric]
    by (simp add: scan_word_then w del: scan.simps)
  then show ?thesis
    using assms(2) get_prefix_text [OF ok(1,2), folded w1_def] second_text(2) [OF ok(3)] until_text(2) [OF ok(4)] until_text(2) [OF ok(5)]
    by (simp add: parse_addr_def)
qed

lemma ucast_u32_small: "n < 2 ^ 32 \<Longrightarrow> unat (ucast (of_nat n :: u64) :: u32) = n"
  by (simp add: unat_ucast_down unat_of_nat)

lemma parse_route_rest:
  assumes "route_ok r" and "length (nl_routes l) < NETSNAP_MAX_ROUTES"
  shows "parse_route l (route_rest r) = Inr (l\<lparr>nl_routes := nl_routes l @ [r]\<rparr>)"
proof -
  have ok: "ip_ok (nr_family r) (nr_dst r)" "nr_dst_len r \<le> addr_len (nr_family r) * 8"
    "second_ok (nr_family r) (nr_has_gw r) (nr_gw r)" "nr_protocol r \<le> 255" "nr_scope r \<le> 255"
    using assms(1) by (simp_all add: route_ok_def)
  let ?s2 = "second_text (nr_family r) (nr_has_gw r) (nr_gw r)"
  define w1 where "w1 = ip_text (nr_family r) (nr_dst r) @ ''/'' @ dec (nr_dst_len r)"
  note w = prefix_word [OF ok(1) addr_len_128 [OF ok(2)], folded w1_def] second_text(1) [OF ok(3)]
  have n: "unat (nr_metric r) < 2 ^ 64" "nr_protocol r < 2 ^ 64" "nr_scope r < 2 ^ 64"
    using unsigned_less [of "nr_metric r", where 'a = nat] ok(4,5) by simp_all
  have "fst (sscanf (route_rest r) [SStr 63, SWs, SStr 63, SWs, SNum 10 None, SWs, SNum 10 None, SWs, SNum 10 None]) =
      [VStr w1, VStr ?s2, VNum (of_nat (unat (nr_metric r))),
       VNum (of_nat (nr_protocol r)), VNum (of_nat (nr_scope r))]"
    using starts_word(1) [OF w(2)] starts_word(2) [of "nr_scope r" "[]"]
    unfolding sscanf_def route_rest_def w1_def [symmetric]
    by (simp add: scan_word_then starts_word(2) w n [simplified] del: scan.simps)
  moreover have "unat (ucast (of_nat (nr_protocol r) :: u64) :: u32) = nr_protocol r" "unat (ucast (of_nat (nr_scope r) :: u64) :: u32) = nr_scope r"
    using ok(4,5) by (auto intro!: ucast_u32_small)
  moreover have "ucast (of_nat (unat (nr_metric r)) :: u64) = nr_metric r"
    using unsigned_less [of "nr_metric r", where 'a = nat] by (simp add: word_unat_eq_iff unat_ucast_down unat_ucast_up)
  ultimately show ?thesis
    using assms(2) get_prefix_text [OF ok(1,2), folded w1_def] second_text(2) [OF ok(3)] ok(4,5)
    by (simp add: parse_route_def word_less_nat_alt)
qed

lemma parse_link_rest:
  assumes "word_ok 15 pci" and "word_ok 15 (nl_name l)" and "length (nl_mac l) = 6"
    and "length (ns_links s) < NETSNAP_MAX_LINKS" and "link_by_pci s pci = None"
  shows "parse_link s pci (link_rest l) =
    (None, s\<lparr>ns_links := ns_links s @ [link_zero\<lparr>nl_pci := pci, nl_name := nl_name l, nl_mac := nl_mac l, nl_mtu := nl_mtu l\<rparr>]\<rparr>)"
proof -
  obtain a b c d e f where mac: "nl_mac l = [a, b, c, d, e, f]"
    using assms(3) by (auto simp: length_Suc_conv numeral_eq_Suc)
  have colon: "scan at (SLit (CHR '':'') # ds) (CHR '':'' # r) = scan at ds r" for at ds r by simp
  have space: "scan at (SWs # ds) (CHR '' '' # dec n) = scan at ds (dec n)" for at ds n
    using scan_space [of "dec n" at ds] starts_word(2) [of n "[]"] by (simp add: starts_word_def)
  have mtu: "unat (nl_mtu l) < 2 ^ 64" using unsigned_less [of "nl_mtu l", where 'a = nat] by simp
  have "fst (sscanf (link_rest l) [SStr 15, SWs, SNum 16 None, SLit (CHR '':''), SNum 16 None, SLit (CHR '':''),
      SNum 16 None, SLit (CHR '':''), SNum 16 None, SLit (CHR '':''), SNum 16 None, SLit (CHR '':''),
      SNum 16 None, SWs, SNum 10 None]) =
    [VStr (nl_name l), VNum (of_nat (of_char a)), VNum (of_nat (of_char b)), VNum (of_nat (of_char c)),
     VNum (of_nat (of_char d)), VNum (of_nat (of_char e)), VNum (of_nat (of_char f)), VNum (of_nat (unat (nl_mtu l)))]"
    unfolding sscanf_def link_rest_def mac
    by (simp add: scan_word_then(1) [OF assms(2)] starts_word(3) scan_byte_hex colon space scan_word_then(4) [OF mtu] del: scan.simps)
  moreover have "char_of_u64 (of_nat (of_char x)) = x" for x :: char
  proof -
    have "of_char x mod (18446744073709551616 :: nat) = of_char x"
      by (rule mod_less) (use nat_of_char_less_256 [of x] in linarith)
    then show ?thesis by (simp add: unat_of_nat)
  qed
  moreover have "ucast (of_nat (unat (nl_mtu l)) :: u64) = nl_mtu l"
    using unsigned_less [of "nl_mtu l", where 'a = nat] by (simp add: word_unat_eq_iff unat_ucast_down unat_ucast_up)
  ultimately show ?thesis using assms(1,4,5) mac by (simp add: parse_link_def word_ok_def)
qed

section \<open>Reading back the snapshot\<close>

lemma find_index_append: "\<forall>x \<in> set xs. \<not> P x \<Longrightarrow> P y \<Longrightarrow> find_index P (xs @ y # ys) = Some (length xs)"
  by (induction xs) auto

lemma find_index_None: "find_index P xs = None \<longleftrightarrow> (\<forall>x \<in> set xs. \<not> P x)"
  by (induction xs) auto

lemma parse_loop_line:
  assumes "CHR 0x0A \<notin> set line" and "line \<noteq> []" and "length line \<le> 255"
  shows "parse_loop (line @ CHR 0x0A # p) s =
    (case parse_line line s of (Some e, s) \<Rightarrow> (Some e, s) | (None, s) \<Rightarrow> parse_loop p s)"
proof -
  have "takeWhile (\<lambda>c. c \<noteq> CHR 0x0A) (line @ CHR 0x0A # p) = line" "dropWhile (\<lambda>c. c \<noteq> CHR 0x0A) (line @ CHR 0x0A # p) = CHR 0x0A # p"
    by (rule takeWhile_digits_append; use assms(1) in auto)+
  then show ?thesis using assms(2,3) by (subst parse_loop.simps) (simp add: snprintf_def)
qed

lemma parse_line_head:
  assumes "word_ok 7 kind" and "word_ok 31 pci" and "starts_word rest"
  shows "parse_line (kind @ '' '' @ pci @ '' '' @ rest) s =
    (if kind = ''link'' then parse_link s pci rest
     else case link_by_pci s pci of
        None \<Rightarrow> (Some EINVAL, s)
      | Some i \<Rightarrow>
          (case (if kind = ''addr'' then parse_addr (ns_links s ! i) rest
                 else if kind = ''route'' then parse_route (ns_links s ! i) rest else Inl EINVAL) of
             Inl e \<Rightarrow> (Some e, s) | Inr l \<Rightarrow> (None, s\<lparr>ns_links := (ns_links s)[i := l]\<rparr>)))"
proof -
  have "drop (length (kind @ '' '' @ pci @ '' '')) (kind @ '' '' @ pci @ '' '' @ rest) = rest" by simp
  then show ?thesis unfolding parse_line_def scan_head [OF assms] by (simp only: list.case sval.case option.case prod.case Let_def)
qed

definition link_ok :: "netsnap_link \<Rightarrow> bool" where
  "link_ok l = (word_ok 15 (nl_pci l) \<and> word_ok 15 (nl_name l) \<and> length (nl_mac l) = 6 \<and> nl_ifindex l = 0 \<and>
     length (nl_addrs l) \<le> NETSNAP_MAX_ADDRS \<and> list_all addr_ok (nl_addrs l) \<and>
     length (nl_routes l) \<le> NETSNAP_MAX_ROUTES \<and> list_all route_ok (nl_routes l))"

definition snap_ok :: "netsnap \<Rightarrow> bool" where
  "snap_ok s = (length (ns_links s) \<le> NETSNAP_MAX_LINKS \<and> distinct (map nl_pci (ns_links s)) \<and> list_all link_ok (ns_links s))"

definition line_of :: "string \<Rightarrow> netsnap_link \<Rightarrow> string \<Rightarrow> string" where
  "line_of kind l rest = kind @ '' '' @ nl_pci l @ '' '' @ rest"

definition link_text :: "netsnap_link \<Rightarrow> string" where
  "link_text l = line_of ''link'' l (link_rest l) @ [CHR 0x0A] @
     concat (map (\<lambda>a. line_of ''addr'' l (addr_rest a) @ [CHR 0x0A]) (nl_addrs l)) @
     concat (map (\<lambda>r. line_of ''route'' l (route_rest r) @ [CHR 0x0A]) (nl_routes l))"

lemma word_ok_no_break: "word_ok n w \<Longrightarrow> CHR 0x0A \<notin> set w"
  by (auto simp: word_ok_def isspace_lit)

lemma byte_hex_word: "word_ok 2 (byte_hex b)"
proof -
  have "of_char b < (16 :: nat) ^ 2" using nat_of_char_less_256 [of b] by (rule less_le_trans) simp
  then have "length (hex (of_char b)) \<le> 2" by (rule num_str_length) simp_all
  then show ?thesis using byte_hex_digits [of b] digit_not_space by (auto simp: word_ok_def zpad_def)
qed

lemma rest_lines:
  assumes "word_ok 15 (nl_pci l)"
  shows "addr_ok a \<Longrightarrow> starts_word (addr_rest a) \<and> CHR 0x0A \<notin> set (line_of ''addr'' l (addr_rest a)) \<and> length (line_of ''addr'' l (addr_rest a)) \<le> 255"
    and "route_ok r \<Longrightarrow> starts_word (route_rest r) \<and> CHR 0x0A \<notin> set (line_of ''route'' l (route_rest r)) \<and> length (line_of ''route'' l (route_rest r)) \<le> 255"
    and "word_ok 15 (nl_name l) \<Longrightarrow> length (nl_mac l) = 6 \<Longrightarrow>
      starts_word (link_rest l) \<and> CHR 0x0A \<notin> set (line_of ''link'' l (link_rest l)) \<and> length (line_of ''link'' l (link_rest l)) \<le> 255"
proof -
  note pci = assms word_ok_no_break [OF assms]
  show "starts_word (addr_rest a) \<and> CHR 0x0A \<notin> set (line_of ''addr'' l (addr_rest a)) \<and> length (line_of ''addr'' l (addr_rest a)) \<le> 255"
    if "addr_ok a"
  proof -
    have ok: "ip_ok (na_family a) (na_addr a)" "na_prefix a \<le> addr_len (na_family a) * 8"
      "second_ok (na_family a) (na_has_brd a) (na_brd a)" "until_ok (na_valid_until a)" "until_ok (na_preferred_until a)"
      using that by (simp_all add: addr_ok_def)
    note w = prefix_word [OF ok(1) addr_len_128 [OF ok(2)]] second_text(1) [OF ok(3)] until_text(1) [OF ok(4)] until_text(1) [OF ok(5)]
    show ?thesis
      using starts_word(1) [OF w(1)] w [THEN word_ok_no_break] w pci by (simp add: addr_rest_def line_of_def word_ok_def)
  qed
  show "starts_word (route_rest r) \<and> CHR 0x0A \<notin> set (line_of ''route'' l (route_rest r)) \<and> length (line_of ''route'' l (route_rest r)) \<le> 255"
    if "route_ok r"
  proof -
    have ok: "ip_ok (nr_family r) (nr_dst r)" "nr_dst_len r \<le> addr_len (nr_family r) * 8"
      "second_ok (nr_family r) (nr_has_gw r) (nr_gw r)" "nr_protocol r < 10 ^ 3" "nr_scope r < 10 ^ 3"
      "unat (nr_metric r) < 10 ^ 10"
      using that unsigned_less [of "nr_metric r", where 'a = nat] by (simp_all add: route_ok_def)
    note w = prefix_word [OF ok(1) addr_len_128 [OF ok(2)]] second_text(1) [OF ok(3)]
      dec_word [OF ok(4)] dec_word [OF ok(5)] dec_word [OF ok(6)]
    show ?thesis
      using starts_word(1) [OF w(1)] w [THEN word_ok_no_break] w pci by (simp add: route_rest_def line_of_def word_ok_def)
  qed
  show "starts_word (link_rest l) \<and> CHR 0x0A \<notin> set (line_of ''link'' l (link_rest l)) \<and> length (line_of ''link'' l (link_rest l)) \<le> 255"
    if name: "word_ok 15 (nl_name l)" and mac: "length (nl_mac l) = 6"
  proof -
    have "unat (nl_mtu l) < 10 ^ 10" using unsigned_less [of "nl_mtu l", where 'a = nat] by simp
    note mtu = dec_word [OF this]
    obtain a b c d e f where m: "nl_mac l = [a, b, c, d, e, f]" using mac by (auto simp: length_Suc_conv numeral_eq_Suc)
    show ?thesis
      using starts_word(1) [OF name] word_ok_no_break [OF name] word_ok_no_break [OF mtu] name mtu pci
        byte_hex_word [of a] byte_hex_word [of b] byte_hex_word [of c] byte_hex_word [of d] byte_hex_word [of e] byte_hex_word [of f]
        byte_hex_word [THEN word_ok_no_break]
      by (simp add: link_rest_def line_of_def m word_ok_def)
  qed
qed

lemma link_by_pci_last:
  assumes "\<forall>k \<in> set ls. nl_pci k \<noteq> nl_pci l"
  shows "link_by_pci \<lparr>ns_links = ls @ [l]\<rparr> (nl_pci l) = Some (length ls)" and "link_by_pci \<lparr>ns_links = ls\<rparr> (nl_pci l) = None"
  using assms by (simp_all add: link_by_pci_def find_index_append find_index_None)

lemma line_kinds: "word_ok 7 ''link''" "word_ok 7 ''addr''" "word_ok 7 ''route''"
  by (simp_all add: word_ok_def isspace_lit)

lemma parse_loop_of:
  assumes "CHR 0x0A \<notin> set (line_of kind l rest)" and "length (line_of kind l rest) \<le> 255"
  shows "parse_loop (line_of kind l rest @ CHR 0x0A # p) s =
    (case parse_line (line_of kind l rest) s of (Some e, s) \<Rightarrow> (Some e, s) | (None, s) \<Rightarrow> parse_loop p s)"
  by (rule parse_loop_line [OF assms(1) _ assms(2)]) (simp add: line_of_def)

lemma parse_addr_lines:
  assumes "word_ok 15 (nl_pci l)" and "\<forall>k \<in> set ls. nl_pci k \<noteq> nl_pci l"
  shows "list_all addr_ok as \<Longrightarrow> length (nl_addrs l) + length as \<le> NETSNAP_MAX_ADDRS \<Longrightarrow> pci = nl_pci l \<Longrightarrow>
    parse_loop (concat (map (\<lambda>a. ''addr '' @ pci @ '' '' @ addr_rest a @ [CHR 0x0A]) as) @ p) \<lparr>ns_links = ls @ [l]\<rparr> =
    parse_loop p \<lparr>ns_links = ls @ [l\<lparr>nl_addrs := nl_addrs l @ as\<rparr>]\<rparr>"
  using assms
proof (induction as arbitrary: l)
  case (Cons a as)
  let ?l = "l\<lparr>nl_addrs := nl_addrs l @ [a]\<rparr>"
  note line = rest_lines(1) [OF Cons.prems(4), of a]
  have a: "addr_ok a" "length (nl_addrs l) < NETSNAP_MAX_ADDRS" using Cons.prems by simp_all
  have "parse_line (line_of ''addr'' l (addr_rest a)) \<lparr>ns_links = ls @ [l]\<rparr> = (None, \<lparr>ns_links = ls @ [?l]\<rparr>)"
    unfolding line_of_def
    by (subst parse_line_head) (use line a Cons.prems in \<open>simp_all add: line_kinds word_ok_mono [of 15 _ 31] link_by_pci_last parse_addr_rest\<close>)
  then have "parse_loop (line_of ''addr'' l (addr_rest a) @ CHR 0x0A # q) \<lparr>ns_links = ls @ [l]\<rparr> = parse_loop q \<lparr>ns_links = ls @ [?l]\<rparr>" for q
    using line a(1) by (simp add: parse_loop_of)
  from this [of "concat (map (\<lambda>a. ''addr '' @ pci @ '' '' @ addr_rest a @ [CHR 0x0A]) as) @ p"]
  show ?case using Cons.IH [of ?l] Cons.prems by (simp add: line_of_def)
qed simp

lemma parse_route_lines:
  assumes "word_ok 15 (nl_pci l)" and "\<forall>k \<in> set ls. nl_pci k \<noteq> nl_pci l"
  shows "list_all route_ok rs \<Longrightarrow> length (nl_routes l) + length rs \<le> NETSNAP_MAX_ROUTES \<Longrightarrow> pci = nl_pci l \<Longrightarrow>
    parse_loop (concat (map (\<lambda>r. ''route '' @ pci @ '' '' @ route_rest r @ [CHR 0x0A]) rs) @ p) \<lparr>ns_links = ls @ [l]\<rparr> =
    parse_loop p \<lparr>ns_links = ls @ [l\<lparr>nl_routes := nl_routes l @ rs\<rparr>]\<rparr>"
  using assms
proof (induction rs arbitrary: l)
  case (Cons r rs)
  let ?l = "l\<lparr>nl_routes := nl_routes l @ [r]\<rparr>"
  note line = rest_lines(2) [OF Cons.prems(4), of r]
  have r: "route_ok r" "length (nl_routes l) < NETSNAP_MAX_ROUTES" using Cons.prems by simp_all
  have "parse_line (line_of ''route'' l (route_rest r)) \<lparr>ns_links = ls @ [l]\<rparr> = (None, \<lparr>ns_links = ls @ [?l]\<rparr>)"
    unfolding line_of_def
    by (subst parse_line_head) (use line r Cons.prems in \<open>simp_all add: line_kinds word_ok_mono [of 15 _ 31] link_by_pci_last parse_route_rest\<close>)
  then have "parse_loop (line_of ''route'' l (route_rest r) @ CHR 0x0A # q) \<lparr>ns_links = ls @ [l]\<rparr> = parse_loop q \<lparr>ns_links = ls @ [?l]\<rparr>" for q
    using line r(1) by (simp add: parse_loop_of)
  from this [of "concat (map (\<lambda>r. ''route '' @ pci @ '' '' @ route_rest r @ [CHR 0x0A]) rs) @ p"]
  show ?case using Cons.IH [of ?l] Cons.prems by (simp add: line_of_def)
qed simp

lemma parse_link_text:
  assumes "link_ok l" and "\<forall>k \<in> set ls. nl_pci k \<noteq> nl_pci l" and "length ls < NETSNAP_MAX_LINKS"
  shows "parse_loop (link_text l @ p) \<lparr>ns_links = ls\<rparr> = parse_loop p \<lparr>ns_links = ls @ [l]\<rparr>"
proof -
  let ?l = "link_zero\<lparr>nl_pci := nl_pci l, nl_name := nl_name l, nl_mac := nl_mac l, nl_mtu := nl_mtu l\<rparr>"
  have ok: "word_ok 15 (nl_pci l)" "word_ok 15 (nl_name l)" "length (nl_mac l) = 6" using assms(1) by (simp_all add: link_ok_def)
  note line = rest_lines(3) [OF ok]
  have "parse_line (line_of ''link'' l (link_rest l)) \<lparr>ns_links = ls\<rparr> = (None, \<lparr>ns_links = ls @ [?l]\<rparr>)"
    unfolding line_of_def
    by (subst parse_line_head) (use line ok assms(2,3) in \<open>simp_all add: line_kinds word_ok_mono [of 15 _ 31] link_by_pci_last parse_link_rest\<close>)
  then have "parse_loop (line_of ''link'' l (link_rest l) @ CHR 0x0A # q) \<lparr>ns_links = ls\<rparr> = parse_loop q \<lparr>ns_links = ls @ [?l]\<rparr>" for q
    using line by (simp add: parse_loop_of)
  moreover have "\<lparr>nl_pci = nl_pci l, nl_name = nl_name l, nl_mac = nl_mac l, nl_mtu = nl_mtu l, nl_ifindex = 0,
      nl_addrs = nl_addrs l, nl_routes = nl_routes l\<rparr> = l" using assms(1) by (cases l) (simp add: link_ok_def)
  ultimately show ?thesis
    using parse_addr_lines [of ?l ls "nl_addrs l" "nl_pci l"] parse_route_lines [of "?l\<lparr>nl_addrs := nl_addrs l\<rparr>" ls "nl_routes l" "nl_pci l" p] assms(1,2)
    by (simp add: link_text_def line_of_def link_ok_def)
qed

definition snap_text :: "netsnap \<Rightarrow> string" where
  "snap_text s = concat (map link_text (ns_links s))"

lemma parse_link_texts:
  "list_all link_ok xs \<Longrightarrow> distinct (map nl_pci (ls @ xs)) \<Longrightarrow> length ls + length xs \<le> NETSNAP_MAX_LINKS \<Longrightarrow>
   parse_loop (concat (map link_text xs)) \<lparr>ns_links = ls\<rparr> = (None, \<lparr>ns_links = ls @ xs\<rparr>)"
proof (induction xs arbitrary: ls)
  case (Cons x xs)
  have "\<forall>k \<in> set ls. nl_pci k \<noteq> nl_pci x" using Cons.prems(2) by (force simp: image_iff)
  then show ?case using Cons.IH [of "ls @ [x]"] Cons.prems parse_link_text [of x ls "concat (map link_text xs)"] by simp
qed (simp add: parse_loop.simps)

lemma netsnap_parse_text: "snap_ok s \<Longrightarrow> netsnap_parse (snap_text s) = (None, s)"
  using parse_link_texts [of "ns_links s" "[]"] by (cases s) (simp add: snap_ok_def snap_text_def netsnap_parse_def)

section \<open>What is formatted\<close>

lemma append_fmt_done: "append_fmt len s buf = (None, b) \<Longrightarrow> b = buf @ s \<and> length b < len"
  by (auto simp: append_fmt_def split: if_splits)

lemma append_fmt_append:
  "length buf < len \<Longrightarrow>
   (case append_fmt len s buf of (None, b) \<Rightarrow> append_fmt len t b | (Some e, b) \<Rightarrow> (Some e, b)) = append_fmt len (s @ t) buf"
  by (auto simp: append_fmt_def)

lemma try_append_fmt:
  assumes "list_all2 (\<lambda>f t. \<forall>b. length b < len \<longrightarrow> f b = append_fmt len t b) fs ts" and "length buf < len"
  shows "try_all fs buf = append_fmt len (concat ts) buf"
  using assms
proof (induction fs ts arbitrary: buf rule: list_all2_induct)
  case (Cons f fs t ts)
  have "try_all fs b = append_fmt len (concat ts) b" if "append_fmt len t buf = (None, b)" for b
    by (rule Cons.IH) (use append_fmt_done [OF that] in blast)
  then show ?case
    using append_fmt_append [OF Cons.prems, where s = t and t = "concat ts"] Cons.hyps Cons.prems
    by (auto split: prod.splits option.splits)
qed (simp add: append_fmt_def)

lemma fold_rc_try_all: "fold_rc f xs s = try_all (map f xs) s"
  by (induction xs arbitrary: s) (auto split: prod.splits option.splits)

lemma fold_append_fmt:
  assumes "\<And>x buf. x \<in> set xs \<Longrightarrow> length buf < len \<Longrightarrow> f x buf = append_fmt len (g x) buf" and "length buf < len"
  shows "fold_rc f xs buf = append_fmt len (concat (map g xs)) buf"
proof (subst fold_rc_try_all, rule try_append_fmt [OF _ assms(2)])
  show "list_all2 (\<lambda>f t. \<forall>b. length b < len \<longrightarrow> f b = append_fmt len t b) (map f xs) (map g xs)"
    unfolding list_all2_map1 list_all2_map2 by (rule list.rel_refl_strong) (use assms(1) in blast)
qed

lemma put_line_ok:
  assumes "ip_ok family a" and "second_ok family second b"
  shows "put_line len family a second b line buf = append_fmt len (line (ip_text family a) (if second then ip_text family b else [])) buf"
  using ip_text_props(1) assms by (simp add: put_line_def second_ok_def)

lemma format_link_text:
  assumes "link_ok l" and "length buf < len"
  shows "format_link len l buf = append_fmt len (link_text l) buf"
proof -
  let ?as = "concat (map (\<lambda>a. line_of ''addr'' l (addr_rest a) @ [CHR 0x0A]) (nl_addrs l))"
    and ?rs = "concat (map (\<lambda>r. line_of ''route'' l (route_rest r) @ [CHR 0x0A]) (nl_routes l))"
  have as: "fold_rc (\<lambda>ad. put_line len (na_family ad) (na_addr ad) (na_has_brd ad) (na_brd ad) (addr_line l ad)) (nl_addrs l) b =
      append_fmt len ?as b" if "length b < len" for b
    by (rule fold_append_fmt [OF _ that])
      (use assms(1) in \<open>auto simp: link_ok_def list_all_iff addr_ok_def put_line_ok addr_line_def addr_rest_def line_of_def second_text_def\<close>)
  have rs: "fold_rc (\<lambda>r. put_line len (nr_family r) (nr_dst r) (nr_has_gw r) (nr_gw r) (route_line l r)) (nl_routes l) b =
      append_fmt len ?rs b" if "length b < len" for b
    by (rule fold_append_fmt [OF _ that])
      (use assms(1) in \<open>auto simp: link_ok_def list_all_iff route_ok_def put_line_ok route_line_def route_rest_def line_of_def second_text_def\<close>)
  have l: "link_line l = line_of ''link'' l (link_rest l) @ [CHR 0x0A]" by (simp add: link_line_def line_of_def link_rest_def)
  have "format_link len l buf = append_fmt len (concat [link_line l, ?as, ?rs]) buf"
    unfolding format_link_def by (rule try_append_fmt) (use as rs assms(2) in auto)
  then show ?thesis by (simp add: link_text_def l)
qed

lemma netsnap_format_links:
  assumes "list_all link_ok (ns_links s)" and "0 < len"
  shows "netsnap_format s len =
    (if length (snap_text s) < len then (Inr (length (snap_text s)), snap_text s) else (Inl ENOSPC, take (len - 1) (snap_text s)))"
proof -
  have "fold_rc (format_link len) (ns_links s) [] = append_fmt len (snap_text s) []"
    unfolding snap_text_def
    by (rule fold_append_fmt) (use assms in \<open>auto simp: list_all_iff format_link_text\<close>)
  then show ?thesis by (simp add: netsnap_format_def append_fmt_def)
qed

lemma netsnap_format_text:
  "snap_ok s \<Longrightarrow> 0 < len \<Longrightarrow> netsnap_format s len =
    (if length (snap_text s) < len then (Inr (length (snap_text s)), snap_text s) else (Inl ENOSPC, take (len - 1) (snap_text s)))"
  by (rule netsnap_format_links) (simp_all add: snap_ok_def)

definition one_link_snap :: netsnap where
  "one_link_snap = \<lparr>ns_links = [\<lparr>nl_pci = ''0000:00:03.0'', nl_name = ''eth0'',
     nl_mac = [CHR 0x02, CHR 0x00, CHR 0xAB, CHR 0x00, CHR 0x00, CHR 0x01], nl_mtu = 1500, nl_ifindex = 0,
     nl_addrs = [\<lparr>na_family = AF_INET, na_prefix = 24, na_has_brd = False,
       na_addr = [CHR 0x0A, CHR 0x00, CHR 0x02, CHR 0x0F] @ replicate 12 (CHR 0x00), na_brd = zero16,
       na_valid_until = 900, na_preferred_until = 0\<rparr>],
     nl_routes = [\<lparr>nr_family = AF_INET, nr_dst_len = 0, nr_protocol = 3, nr_scope = 0, nr_has_gw = True, nr_dst = zero16,
       nr_gw = [CHR 0x0A, CHR 0x00, CHR 0x02, CHR 0x02] @ replicate 12 (CHR 0x00), nr_metric = 100\<rparr>]\<rparr>]\<rparr>"

lemma one_link_snap_ok: "snap_ok one_link_snap"
  by (simp add: one_link_snap_def snap_ok_def link_ok_def word_ok_def isspace_def NETSNAP_MAX_LINKS_def NETSNAP_MAX_ADDRS_def
    NETSNAP_MAX_ROUTES_def addr_ok_def route_ok_def ip_ok_def second_ok_def until_ok_def addr_len_def AF_INET_def AF_INET6_def
    numeral_eq_Suc)

text \<open>C26: Formatting a well-formed snapshot never cuts silently.  The text is written when it fits the
  buffer with room for its end; otherwise the call fails with \<open>ENOSPC\<close>, and the
  buffer holds the text cut to its size.\<close>

theorem netsnap_format_error:
  assumes "snap_ok s" and "0 < len"
  shows "netsnap_format s len = (Inl ENOSPC, take (len - 1) (snap_text s)) \<and> len \<le> length (snap_text s) \<or>
    netsnap_format s len = (Inr (length (snap_text s)), snap_text s) \<and> length (snap_text s) < len"
  using netsnap_format_text [OF assms] by auto

theorem netsnap_format_error_witness:
  "netsnap_format one_link_snap 60 = (Inl ENOSPC, ''link 0000:00:03.0 eth0 02:00:ab:00:00:01 1500'' @ [CHR 0x0A] @ ''addr 0000:00:'')"
proof -
  have "length (snap_text one_link_snap) \<ge> 60" and
    "take 59 (snap_text one_link_snap) = ''link 0000:00:03.0 eth0 02:00:ab:00:00:01 1500'' @ [CHR 0x0A] @ ''addr 0000:00:''"
    by code_simp+
  then show ?thesis using netsnap_format_error [OF one_link_snap_ok, of 60] by auto
qed

end
