(* ===== verification/Request.thy ===== *)
theory Request
  imports Cstdio
begin

text \<open>
  The line protocol between kmorph and kmorphd (lib/request.c).  A function
  that formats into a buffer of \<open>len\<close> bytes returns the length or
  \<open>-ENOSPC\<close>, beside what the buffer holds.  The contract of a message format
  is the locale \<open>line_codec\<close>: what the formatter wrote, the parser reads
  back; it is interpreted for the status reply and the two acknowledgements.
\<close>

section \<open>Definitions\<close>

datatype request_kind = REQUEST_STATUS | REQUEST_HANDOVER | REQUEST_NETWORK

record status_reply =
  sr_state :: string
  sr_predecessor :: string
  sr_last_probe_ms :: u64
  sr_last_error :: int

definition newline :: char where
  "newline = CHR 0x0A"

definition carriage_return :: char where
  "carriage_return = CHR 0x0D"

definition line_len :: "string \<Rightarrow> nat" where
  "line_len line = length (dropWhile (\<lambda>c. c = newline \<or> c = carriage_return) (rev line))"

definition NETWORK_MAX :: u64 where
  "NETWORK_MAX = push_bit 20 1"

definition network_fmt :: "sdir list" where
  "network_fmt = sfmt ''network '' @ [SNum 10 None, SPos]"

definition request_parse :: "string \<Rightarrow> (request_kind \<times> u64) res" where
  "request_parse line =
     (let n = line_len line in
      if n = 6 \<and> take 6 line = ''status'' then Inr (REQUEST_STATUS, 0)
      else if n = 8 \<and> take 8 line = ''handover'' then Inr (REQUEST_HANDOVER, 0)
      else case sscanf line network_fmt of
        ([VNum payload], end) \<Rightarrow>
          if (case end of None \<Rightarrow> 0 | Some e \<Rightarrow> e) = n \<and> payload \<le> NETWORK_MAX
          then Inr (REQUEST_NETWORK, payload) else Inl EINVAL
      | _ \<Rightarrow> Inl EINVAL)"

definition request_format_network :: "u64 \<Rightarrow> nat \<Rightarrow> nat res \<times> string" where
  "request_format_network len buflen =
     fits_or_nospc buflen (snprintf buflen (''network '' @ dec (unat len) @ [newline]))"

definition status_line :: "status_reply \<Rightarrow> string" where
  "status_line r = ''ok '' @ sr_state r @ '' predecessor='' @ sr_predecessor r @ '' last_probe='' @
     dec (unat (sr_last_probe_ms r)) @ ''ms error='' @ dec_int (sr_last_error r) @ [newline]"

definition request_format_status :: "status_reply \<Rightarrow> nat \<Rightarrow> nat res \<times> string" where
  "request_format_status r len = fits_or_nospc len (snprintf len (status_line r))"

definition status_fmt :: "sdir list" where
  "status_fmt = sfmt ''ok '' @ [SStr 15] @ sfmt '' predecessor='' @ [SStr 15] @ sfmt '' last_probe='' @
     [SNum 10 None] @ sfmt ''ms error='' @ [SInt]"

abbreviation status_zero :: status_reply where
  "status_zero \<equiv> \<lparr>sr_state = [], sr_predecessor = [], sr_last_probe_ms = 0, sr_last_error = 0\<rparr>"

definition request_parse_status :: "string \<Rightarrow> rc \<times> status_reply" where
  "request_parse_status line =
     (case fst (sscanf line status_fmt) of
        [VStr s, VStr p, VNum ms, VInt e] \<Rightarrow>
          (None, \<lparr>sr_state = s, sr_predecessor = p, sr_last_probe_ms = ms, sr_last_error = e\<rparr>)
      | VStr s # VStr p # _ \<Rightarrow> (Some EINVAL, status_zero\<lparr>sr_state := s, sr_predecessor := p\<rparr>)
      | VStr s # _ \<Rightarrow> (Some EINVAL, status_zero\<lparr>sr_state := s\<rparr>)
      | _ \<Rightarrow> (Some EINVAL, status_zero))"

definition format_ack :: "string \<Rightarrow> string option \<Rightarrow> nat \<Rightarrow> nat res \<times> string" where
  "format_ack ok reason len =
     fits_or_nospc len
       (case reason of
          Some reason \<Rightarrow> snprintf len (''refused '' @ reason @ [newline])
        | None \<Rightarrow> snprintf len (''ok '' @ ok @ [newline]))"

text \<open>The return code and, where one was stored, the reason.\<close>

definition parse_ack :: "string \<Rightarrow> string \<Rightarrow> nat \<Rightarrow> rc \<times> string option" where
  "parse_ack ok line len =
     (let n = line_len line in
      if n = length ok + 3 \<and> take 3 line = ''ok '' \<and> take (n - 3) (drop 3 line) = ok then (None, None)
      else if n > 8 \<and> take 8 line = ''refused '' then
        (Some EBUSY, Some (snd (snprintf len (take (n - 8) (drop 8 line)))))
      else (Some EINVAL, None))"

definition request_format_handover :: "string option \<Rightarrow> nat \<Rightarrow> nat res \<times> string" where
  "request_format_handover reason len = format_ack ''fencing'' reason len"

definition request_parse_handover :: "string \<Rightarrow> nat \<Rightarrow> rc \<times> string option" where
  "request_parse_handover line len = parse_ack ''fencing'' line len"

definition request_format_network_reply :: "string option \<Rightarrow> nat \<Rightarrow> nat res \<times> string" where
  "request_format_network_reply reason len = format_ack ''network'' reason len"

definition request_parse_network_reply :: "string \<Rightarrow> nat \<Rightarrow> rc \<times> string option" where
  "request_parse_network_reply line len = parse_ack ''network'' line len"

section \<open>The contract of a message format\<close>

locale line_codec =
  fixes valid :: "'m \<Rightarrow> bool"
    and print :: "'m \<Rightarrow> nat \<Rightarrow> nat res \<times> string"
    and parse :: "string \<Rightarrow> 'm option"
  assumes reads_back: "valid m \<Longrightarrow> print m len = (Inr n, line) \<Longrightarrow> parse line = Some m"
    and bounded: "print m len = (r, line) \<Longrightarrow> length line \<le> len \<and> (\<forall>n. r = Inr n \<longrightarrow> n = length line \<and> n < len)"
begin

text \<open>No two messages share a line, whatever the buffers they were formatted into.\<close>

lemma print_inj:
  assumes "valid a" "valid b" and "print a len = (Inr n, line)" and "print b len' = (Inr n', line)"
  shows "a = b"
  using reads_back [OF assms(1,3)] reads_back [OF assms(2,4)] by simp

end

lemma fits_or_nospc_bounded:
  "fits_or_nospc len (snprintf len s) = (r, line) \<Longrightarrow>
     length line \<le> len \<and> (\<forall>n. r = Inr n \<longrightarrow> n = length line \<and> n < len)"
  by (auto simp: fits_or_nospc_snprintf split: if_splits)

lemma fits_or_nospc_done: "fits_or_nospc len (snprintf len s) = (Inr n, line) \<Longrightarrow> line = s"
  by (auto simp: fits_or_nospc_snprintf split: if_splits)

section \<open>Acknowledgements\<close>

text \<open>A reason is not empty, keeps to one line and does not end in a line break.\<close>

definition reason_ok :: "string \<Rightarrow> bool" where
  "reason_ok s = (s \<noteq> [] \<and> newline \<notin> set s \<and> carriage_return \<notin> set s)"

lemma line_len_newline:
  assumes "s \<noteq> []" and "last s \<noteq> newline" and "last s \<noteq> carriage_return"
  shows "line_len (s @ [newline]) = length s"
proof -
  obtain xs x where "s = xs @ [x]" using assms(1) by (cases s rule: rev_exhaust) auto
  then show ?thesis using assms(2,3) by (simp add: line_len_def)
qed

lemma parse_ack_refused:
  assumes "reason_ok s"
  shows "parse_ack ok (''refused '' @ s @ [newline]) len = (Some EBUSY, Some (take (len - 1) s))"
proof -
  have s: "s \<noteq> []" "last s \<noteq> newline" "last s \<noteq> carriage_return"
    using assms by (auto simp: reason_ok_def dest: last_in_set)
  then have "line_len (''refused '' @ s @ [newline]) = length s + 8"
    using line_len_newline [of "''refused '' @ s"] by simp
  then show ?thesis using s by (simp add: parse_ack_def Let_def snprintf_def)
qed

lemma parse_ack_ok:
  assumes "ok \<noteq> []" and "last ok \<noteq> newline" and "last ok \<noteq> carriage_return"
  shows "parse_ack ok (''ok '' @ ok @ [newline]) len = (None, None)"
  using line_len_newline [of "''ok '' @ ok"] assms by (simp add: parse_ack_def Let_def)

lemma format_parse_ack:
  assumes "case reason of None \<Rightarrow> True | Some s \<Rightarrow> reason_ok s"
    and "ok \<noteq> []" and "last ok \<noteq> newline" and "last ok \<noteq> carriage_return"
    and "format_ack ok reason len = (Inr n, line)"
  shows "parse_ack ok line rlen =
    (case reason of None \<Rightarrow> (None, None) | Some s \<Rightarrow> (Some EBUSY, Some (take (rlen - 1) s)))"
proof (cases reason)
  case None
  then have "line = ''ok '' @ ok @ [newline]"
    using assms(5) by (auto simp: format_ack_def dest: fits_or_nospc_done)
  then show ?thesis using None parse_ack_ok [OF assms(2-4), of rlen] by (simp only: option.case)
next
  case (Some s)
  then have "line = ''refused '' @ s @ [newline]"
    using assms(5) by (auto simp: format_ack_def dest: fits_or_nospc_done)
  then show ?thesis using Some parse_ack_refused [of s ok rlen] assms(1) by (simp only: option.case)
qed

section \<open>Status replies\<close>

text \<open>What \<open>fill_status\<close> can produce: words that fit the fields, an \<open>int\<close> error.\<close>

definition status_word :: "string \<Rightarrow> bool" where
  "status_word w = (w \<noteq> [] \<and> list_all (\<lambda>c. \<not> isspace c) w \<and> length w \<le> 15)"

definition status_ok :: "status_reply \<Rightarrow> bool" where
  "status_ok r = (status_word (sr_state r) \<and> status_word (sr_predecessor r) \<and>
     - (2 ^ 31) \<le> sr_last_error r \<and> sr_last_error r < 2 ^ 31)"

lemma scan_status_word:
  assumes "status_word w" and "s = [] \<or> isspace (hd s)"
  shows "scan at (SStr 15 # ds) (w @ s) = (let (vs, n) = scan at ds s in (VStr w # vs, n))"
  using assms scan_word_max_print [of w 15 s] by (simp add: status_word_def list_all_iff)

lemma status_word_start: "status_word w \<Longrightarrow> dropWhile isspace (w @ s) = w @ s"
  by (intro dropWhile_isspace_head) (auto simp: status_word_def list_all_iff)

lemma scan_status_line:
  assumes "status_ok r"
  shows "fst (sscanf (status_line r) status_fmt) =
    [VStr (sr_state r), VStr (sr_predecessor r), VNum (sr_last_probe_ms r), VInt (sr_last_error r)]"
proof -
  have w: "status_word (sr_state r)" "status_word (sr_predecessor r)" using assms by (auto simp: status_ok_def)
  have num: "scan_number 10 None (dec (unat (sr_last_probe_ms r)) @ CHR ''m'' # s) = Some (sr_last_probe_ms r, CHR ''m'' # s)" for s
    using scan_number_dec [of "unat (sr_last_probe_ms r)" "CHR ''m'' # s"] unsigned_less [of "sr_last_probe_ms r", where 'a = nat]
    by (simp add: digit_val_def)
  have err: "scan_int (dec_int (sr_last_error r) @ [newline]) = Some (sr_last_error r, [newline])"
    using assms by (intro scan_int_dec) (auto simp: status_ok_def newline_def digit_val_def Let_def)
  show ?thesis
    by (simp add: sscanf_def status_line_def status_fmt_def sfmt_def isspace_lit
        status_word_start w scan_status_word num err del: scan.simps(4) split: prod.split)
qed

lemma status_roundtrip:
  assumes "status_ok r" and "request_format_status r len = (Inr n, line)"
  shows "request_parse_status line = (None, r)"
proof -
  have "line = status_line r" using assms(2) by (auto simp: request_format_status_def dest: fits_or_nospc_done)
  then show ?thesis using scan_status_line [OF assms(1)] by (simp add: request_parse_status_def)
qed

section \<open>Requests\<close>

lemma network_roundtrip:
  assumes "request_format_network len buflen = (Inr n, line)"
  shows "request_parse line = (if len \<le> NETWORK_MAX then Inr (REQUEST_NETWORK, len) else Inl EINVAL)"
proof -
  let ?d = "dec (unat len)"
  have line: "line = ''network '' @ ?d @ [newline]"
    using assms by (auto simp: request_format_network_def dest: fits_or_nospc_done)
  have dig: "digit_val (last ?d) < 10" using dec_digits [of "unat len"] by simp
  then have "last ?d \<noteq> newline" "last ?d \<noteq> carriage_return"
    by (auto simp: newline_def carriage_return_def digit_val_def Let_def)
  then have n: "line_len line = length ?d + 8"
    using line_len_newline [of "''network '' @ ?d"] line by simp
  have hd: "\<not> isspace (hd ?d)" using hd_num_str [of 10 "unat len"] by (intro digit_not_space) simp
  have num: "scan_number 10 None (?d @ [newline]) = Some (len, [newline])"
    using scan_number_dec [of "unat len" "[newline]"] unsigned_less [of len, where 'a = nat]
    by (simp add: newline_def digit_val_def Let_def)
  have "sscanf line network_fmt = ([VNum len], Some (length ?d + 8))"
    using hd num
    by (simp add: sscanf_def line network_fmt_def sfmt_def isspace_lit dropWhile_isspace_head)
  moreover have "take 6 line \<noteq> ''status''" "take 8 line \<noteq> ''handover''" by (simp_all add: line)
  ultimately show ?thesis by (simp add: request_parse_def Let_def n)
qed

section \<open>The formats meet their contract\<close>

definition parse_status_opt :: "string \<Rightarrow> status_reply option" where
  "parse_status_opt line = (case request_parse_status line of (None, r) \<Rightarrow> Some r | (Some _, _) \<Rightarrow> None)"

text \<open>The buffer for the reason is large enough for any line of the protocol.\<close>

definition parse_ack_opt :: "string \<Rightarrow> string \<Rightarrow> string option option" where
  "parse_ack_opt ok line = (case parse_ack ok line (length line + 1) of
      (None, _) \<Rightarrow> Some None | (Some EBUSY, Some s) \<Rightarrow> Some (Some s) | _ \<Rightarrow> None)"

lemma format_ack_bounded:
  "format_ack ok m len = (r, line) \<Longrightarrow> length line \<le> len \<and> (\<forall>n. r = Inr n \<longrightarrow> n = length line \<and> n < len)"
  by (cases m) (auto simp: format_ack_def dest: fits_or_nospc_bounded)

lemma ack_reads_back:
  assumes "case m of None \<Rightarrow> True | Some s \<Rightarrow> reason_ok s" and "format_ack ok m len = (Inr n, line)"
    and "ok \<noteq> []" and "last ok \<noteq> newline" and "last ok \<noteq> carriage_return"
  shows "parse_ack_opt ok line = Some m"
proof -
  have "length s \<le> length line" if "m = Some s" for s
    using assms(2) that by (auto simp: format_ack_def dest!: fits_or_nospc_done)
  then show ?thesis
    using format_parse_ack [OF assms(1,3,4,5,2), of "length line + 1"]
    by (auto simp: parse_ack_opt_def split: option.splits)
qed

interpretation status_codec: line_codec status_ok request_format_status parse_status_opt
  by unfold_locales
    (auto simp: parse_status_opt_def status_roundtrip request_format_status_def dest: fits_or_nospc_bounded)

lemma ack_word_reads_back:
  assumes "case m of None \<Rightarrow> True | Some s \<Rightarrow> reason_ok s" and "format_ack ok m len = (Inr n, line)"
    and "ok \<in> {''fencing'', ''network''}"
  shows "parse_ack_opt ok line = Some m"
proof (rule ack_reads_back [OF assms(1,2)])
  show "ok \<noteq> []" "last ok \<noteq> newline" "last ok \<noteq> carriage_return"
    using assms(3) by (auto simp: newline_def carriage_return_def)
qed

interpretation handover_codec: line_codec "\<lambda>m. case m of None \<Rightarrow> True | Some s \<Rightarrow> reason_ok s"
  request_format_handover "parse_ack_opt ''fencing''"
  unfolding request_format_handover_def
  by unfold_locales (rule ack_word_reads_back, assumption, assumption, simp, rule format_ack_bounded)

interpretation network_codec: line_codec "\<lambda>m. case m of None \<Rightarrow> True | Some s \<Rightarrow> reason_ok s"
  request_format_network_reply "parse_ack_opt ''network''"
  unfolding request_format_network_reply_def
  by unfold_locales (rule ack_word_reads_back, assumption, assumption, simp, rule format_ack_bounded)

lemma line_len_split: "set (drop (line_len line) line) \<subseteq> {newline, carriage_return}"
proof -
  let ?P = "\<lambda>c. c = newline \<or> c = carriage_return"
  have "line = rev (dropWhile ?P (rev line)) @ rev (takeWhile ?P (rev line))"
    by (metis rev_append rev_rev_ident takeWhile_dropWhile_id)
  then have "drop (line_len line) line = rev (takeWhile ?P (rev line))"
    by (metis append_eq_conv_conj length_rev line_len_def)
  then show ?thesis by (auto dest: set_takeWhileD)
qed

lemma line_len_ends:
  assumes "set e \<subseteq> {newline, carriage_return}" and "s \<noteq> []" and "last s \<noteq> newline" "last s \<noteq> carriage_return"
  shows "line_len (s @ e) = length s"
proof -
  obtain xs x where s: "s = xs @ [x]" using assms(2) by (cases s rule: rev_exhaust) auto
  have "dropWhile (\<lambda>c. c = newline \<or> c = carriage_return) (rev e @ rev s) = rev s"
    using assms(1,3,4) s by (subst dropWhile_append2) auto
  then show ?thesis by (simp add: line_len_def)
qed

section \<open>The properties of the protocol\<close>

text \<open>C27: the only lines \<open>request_parse\<close> takes for a handover are the word itself followed by line
  breaks: no other text can make the successor fence its predecessor.\<close>

theorem handover_request_exact:
  "request_parse line = Inr (REQUEST_HANDOVER, len) \<longleftrightarrow>
     len = 0 \<and> (\<exists>e. line = ''handover'' @ e \<and> set e \<subseteq> {newline, carriage_return})"
proof
  assume p: "request_parse line = Inr (REQUEST_HANDOVER, len)"
  then have "line_len line = 8" "take 8 line = ''handover''" "len = 0"
    by (auto simp: request_parse_def Let_def split: if_splits prod.splits list.splits sval.splits)
  then show "len = 0 \<and> (\<exists>e. line = ''handover'' @ e \<and> set e \<subseteq> {newline, carriage_return})"
    using line_len_split [of line] append_take_drop_id [of 8 line] by metis
next
  assume "len = 0 \<and> (\<exists>e. line = ''handover'' @ e \<and> set e \<subseteq> {newline, carriage_return})"
  then obtain e where e: "line = ''handover'' @ e" "set e \<subseteq> {newline, carriage_return}" "len = 0" by auto
  then have "line_len line = 8"
    using line_len_ends [of e "''handover''"] by (simp add: newline_def carriage_return_def)
  then show "request_parse line = Inr (REQUEST_HANDOVER, len)" using e by (simp add: request_parse_def Let_def)
qed

text \<open>C28: the length in a network request that \<open>request_format_network\<close> wrote is the length
  \<open>request_parse\<close> announces, and a payload above the limit is refused.\<close>

theorem network_request_roundtrip:
  assumes "request_format_network len buflen = (Inr n, line)"
  shows "request_parse line = (if len \<le> NETWORK_MAX then Inr (REQUEST_NETWORK, len) else Inl EINVAL)"
  using assms by (rule network_roundtrip)

theorem network_request_roundtrip_witness:
  "request_parse (''network 4096'' @ [newline]) = Inr (REQUEST_NETWORK, 4096)"
proof -
  have "request_format_network 4096 64 = (Inr 13, ''network 4096'' @ [newline])"
    by (simp add: request_format_network_def fits_or_nospc_snprintf num_str.simps digit_char_def
        newline_def char_of_def bit_0)
  from network_request_roundtrip [OF this] show ?thesis by (simp add: NETWORK_MAX_def)
qed

text \<open>C29: every status that fits the reply's fields is read back exactly as it was formatted, over the
  whole range of probe times and error codes.\<close>

theorem status_reply_roundtrip:
  assumes "status_ok r" and "request_format_status r len = (Inr n, line)"
  shows "request_parse_status line = (None, r)"
  using assms by (rule status_roundtrip)

theorem status_reply_roundtrip_witness:
  "let r = \<lparr>sr_state = ''FENCE_FAILED'', sr_predecessor = ''silent'', sr_last_probe_ms = 7, sr_last_error = - 110\<rparr> in
   request_parse_status (snd (request_format_status r 128)) = (None, r)"
proof -
  let ?r = "\<lparr>sr_state = ''FENCE_FAILED'', sr_predecessor = ''silent'', sr_last_probe_ms = 7, sr_last_error = - 110\<rparr>"
  have "request_format_status ?r 128 = (Inr 61, snd (request_format_status ?r 128))"
    by (simp add: request_format_status_def status_line_def fits_or_nospc_snprintf dec_int_def num_str.simps
        digit_char_def)
  moreover have "status_ok ?r" by (simp add: status_ok_def status_word_def isspace_lit)
  ultimately show ?thesis using status_reply_roundtrip by (simp add: Let_def)
qed

text \<open>C30: the answer to a handover request reaches the client as it was given: accepted exactly when no
  reason was given, else refused with the reason, cut to the client's buffer.\<close>

theorem handover_answer_roundtrip:
  assumes "case reason of None \<Rightarrow> True | Some s \<Rightarrow> reason_ok s"
    and "request_format_handover reason len = (Inr n, line)"
  shows "request_parse_handover line rlen =
    (case reason of None \<Rightarrow> (None, None) | Some s \<Rightarrow> (Some EBUSY, Some (take (rlen - 1) s)))"
  using assms format_parse_ack [of reason "''fencing''" len n line rlen]
  by (simp add: request_format_handover_def request_parse_handover_def newline_def carriage_return_def)

theorem handover_answer_roundtrip_witness:
  "request_parse_handover (snd (request_format_handover (Some ''state=SUSPECT'') 64)) 64 = (Some EBUSY, Some ''state=SUSPECT'')"
proof -
  have "request_format_handover (Some ''state=SUSPECT'') 64 =
      (Inr 22, snd (request_format_handover (Some ''state=SUSPECT'') 64))"
    by (simp add: request_format_handover_def format_ack_def fits_or_nospc_snprintf)
  then show ?thesis
    using handover_answer_roundtrip [of "Some ''state=SUSPECT''" 64 22 _ 64]
    by (simp add: reason_ok_def newline_def carriage_return_def)
qed

text \<open>Two different answers to a handover request never produce the same line, whatever the buffers
  they were formatted into.\<close>

lemma handover_answers_distinct:
  assumes "case a of None \<Rightarrow> True | Some s \<Rightarrow> reason_ok s" and "case b of None \<Rightarrow> True | Some s \<Rightarrow> reason_ok s"
    and "request_format_handover a len = (Inr n, line)" and "request_format_handover b len' = (Inr n', line)"
  shows "a = b"
  using assms by (rule handover_codec.print_inj)

end
