(* ===== verification/Config.thy ===== *)
theory Config
  imports Parse Cstdio
begin

text \<open>
  The configuration file (lib/config.c).  A \<open>char *\<close> field is a \<open>string
  option\<close>.  The error buffer is modelled with its size; the texts of
  \<open>strerror\<close> are a parameter, and so is reading the file.
\<close>

section \<open>Definitions\<close>

record kmorph_config =
  cf_name :: "string option"
  cf_cpus :: cpulist
  cf_memory :: u64
  cf_kernel :: "string option"
  cf_initrd :: "string option"
  cf_cmdline :: "string option"
  cf_devices :: strlist
  cf_machine_cpus :: cpulist
  cf_modules :: strlist
  cf_standby :: strlist
  cf_standby_files :: strlist
  cf_probe_interval_ms :: u64
  cf_probe_timeouts :: u32
  cf_fence_retries :: u32
  cf_dump :: "string option"
  cf_reset_devices :: bool
  cf_console :: "string option"
  cf_console_baud :: u32
  cf_console_login :: "string option"
  cf_text :: "string option"

definition config_zero :: kmorph_config where
  "config_zero =
     \<lparr>cf_name = None, cf_cpus = \<lparr>cl_ids = []\<rparr>, cf_memory = 0, cf_kernel = None, cf_initrd = None,
      cf_cmdline = None, cf_devices = \<lparr>sl_items = []\<rparr>, cf_machine_cpus = \<lparr>cl_ids = []\<rparr>,
      cf_modules = \<lparr>sl_items = []\<rparr>, cf_standby = \<lparr>sl_items = []\<rparr>, cf_standby_files = \<lparr>sl_items = []\<rparr>,
      cf_probe_interval_ms = 0, cf_probe_timeouts = 0, cf_fence_retries = 0, cf_dump = None,
      cf_reset_devices = False, cf_console = None, cf_console_baud = 0, cf_console_login = None,
      cf_text = None\<rparr>"

definition strdup :: "alloc \<Rightarrow> string \<Rightarrow> string option" where
  "strdup ok s = (if ok (length s + 1) then Some s else None)"

definition config_defaults :: "alloc \<Rightarrow> kmorph_config" where
  "config_defaults ok =
     config_zero\<lparr>cf_name := strdup ok ''successor'', cf_probe_interval_ms := 100, cf_probe_timeouts := 5,
       cf_fence_retries := 3, cf_console_baud := 115200, cf_reset_devices := True\<rparr>"

text \<open>The setters return the new value of the field beside the return code.\<close>

definition set_string :: "alloc \<Rightarrow> string \<Rightarrow> rc \<times> string option" where
  "set_string ok v =
     (if v = [] then (None, None)
      else case strdup ok v of None \<Rightarrow> (Some ENOMEM, None) | Some s \<Rightarrow> (None, Some s))"

definition set_uint :: "u32 \<Rightarrow> string \<Rightarrow> u32 \<Rightarrow> rc \<times> u32" where
  "set_uint dst value m =
     (if value = [] \<or> \<not> isdigit (hd value) then (Some EINVAL, dst)
      else let (v, e, range) = strtoull 10 value
           in if e \<noteq> [] \<or> v < ucast m \<or> v > 0xFFFFFFFF then (Some EINVAL, dst) else (None, ucast v))"

definition set_bool :: "bool \<Rightarrow> string \<Rightarrow> rc \<times> bool" where
  "set_bool dst value =
     (if value = ''yes'' then (None, True) else if value = ''no'' then (None, False) else (Some EINVAL, dst))"

definition set_size :: "u64 \<Rightarrow> u64 res \<Rightarrow> rc \<times> u64" where
  "set_size dst r = (case r of Inl e \<Rightarrow> (Some e, dst) | Inr v \<Rightarrow> (None, v))"

definition set_cpus :: "alloc \<Rightarrow> cpulist \<Rightarrow> string \<Rightarrow> rc \<times> cpulist" where
  "set_cpus ok dst v = (if v \<noteq> [] then parse_cpulist ok v else (None, cpulist_free dst))"

definition set_words :: "alloc \<Rightarrow> strlist \<Rightarrow> string \<Rightarrow> rc \<times> strlist" where
  "set_words ok dst v = (if v \<noteq> [] then parse_strlist ok v else (None, strlist_free dst))"

definition config_set :: "alloc \<Rightarrow> kmorph_config \<Rightarrow> string \<Rightarrow> string \<Rightarrow> rc \<times> kmorph_config" where
  "config_set ok c key v =
     (if key = ''name'' then
        if v \<noteq> [] then (let (r, x) = set_string ok v in (r, c\<lparr>cf_name := x\<rparr>)) else (Some EINVAL, c)
      else if key = ''cpus'' then let (r, x) = set_cpus ok (cf_cpus c) v in (r, c\<lparr>cf_cpus := x\<rparr>)
      else if key = ''memory'' then let (r, x) = set_size (cf_memory c) (parse_size v) in (r, c\<lparr>cf_memory := x\<rparr>)
      else if key = ''kernel'' then let (r, x) = set_string ok v in (r, c\<lparr>cf_kernel := x\<rparr>)
      else if key = ''initrd'' then let (r, x) = set_string ok v in (r, c\<lparr>cf_initrd := x\<rparr>)
      else if key = ''cmdline'' then let (r, x) = set_string ok v in (r, c\<lparr>cf_cmdline := x\<rparr>)
      else if key = ''machine_cpus'' then
        let (r, x) = set_cpus ok (cf_machine_cpus c) v in (r, c\<lparr>cf_machine_cpus := x\<rparr>)
      else if key = ''devices'' then let (r, x) = set_words ok (cf_devices c) v in (r, c\<lparr>cf_devices := x\<rparr>)
      else if key = ''modules'' then let (r, x) = set_words ok (cf_modules c) v in (r, c\<lparr>cf_modules := x\<rparr>)
      else if key = ''standby'' then let (r, x) = set_words ok (cf_standby c) v in (r, c\<lparr>cf_standby := x\<rparr>)
      else if key = ''standby_files'' then
        let (r, x) = set_words ok (cf_standby_files c) v in (r, c\<lparr>cf_standby_files := x\<rparr>)
      else if key = ''probe_interval'' then
        let (r, x) = set_size (cf_probe_interval_ms c) (parse_duration_ms v) in (r, c\<lparr>cf_probe_interval_ms := x\<rparr>)
      else if key = ''probe_timeouts'' then
        let (r, x) = set_uint (cf_probe_timeouts c) v 1 in (r, c\<lparr>cf_probe_timeouts := x\<rparr>)
      else if key = ''fence_retries'' then
        let (r, x) = set_uint (cf_fence_retries c) v 0 in (r, c\<lparr>cf_fence_retries := x\<rparr>)
      else if key = ''dump'' then let (r, x) = set_string ok v in (r, c\<lparr>cf_dump := x\<rparr>)
      else if key = ''reset_devices'' then
        let (r, x) = set_bool (cf_reset_devices c) v in (r, c\<lparr>cf_reset_devices := x\<rparr>)
      else if key = ''console'' then let (r, x) = set_string ok v in (r, c\<lparr>cf_console := x\<rparr>)
      else if key = ''console_baud'' then
        let (r, x) = set_uint (cf_console_baud c) v 1 in (r, c\<lparr>cf_console_baud := x\<rparr>)
      else if key = ''console_login'' then let (r, x) = set_string ok v in (r, c\<lparr>cf_console_login := x\<rparr>)
      else (Some ENOENT, c))"

definition trim :: "string \<Rightarrow> string" where
  "trim s = rstrip (dropWhile isspace s)"

definition config_parse_line ::
    "alloc \<Rightarrow> (errno \<Rightarrow> string) \<Rightarrow> nat \<Rightarrow> string \<Rightarrow> nat \<Rightarrow> kmorph_config \<times> string \<Rightarrow> rc \<times> kmorph_config \<times> string" where
  "config_parse_line ok strerror errlen line lineno = (\<lambda>(c, err).
     let line = trim line in
     if line = [] \<or> hd line = CHR ''#'' then (None, c, err)
     else if CHR ''='' \<notin> set line then
       (Some EINVAL, c, snd (snprintf errlen (''line '' @ dec lineno @ '': expected key = value'')))
     else
       let key = trim (takeWhile (\<lambda>x. x \<noteq> CHR ''='') line);
           val = trim (tl (dropWhile (\<lambda>x. x \<noteq> CHR ''='') line));
           (r, c) = config_set ok c key val
       in case r of
            None \<Rightarrow> (None, c, err)
          | Some e \<Rightarrow>
              (Some e, c, snd (snprintf errlen
                 (if e = ENOENT then ''line '' @ dec lineno @ '': unknown key '' @ [CHR 0x27] @ key @ [CHR 0x27]
                  else ''line '' @ dec lineno @ '': bad value for '' @ [CHR 0x27] @ key @ [CHR 0x27] @ '': '' @ strerror e))))"

fun config_lines ::
    "alloc \<Rightarrow> (errno \<Rightarrow> string) \<Rightarrow> nat \<Rightarrow> string list \<Rightarrow> nat \<Rightarrow> kmorph_config \<times> string \<Rightarrow> rc \<times> kmorph_config \<times> string" where
  "config_lines ok strerror errlen [] lineno st = (None, st)"
| "config_lines ok strerror errlen (l # ls) lineno st =
     (case config_parse_line ok strerror errlen l (Suc lineno) st of
        (None, st) \<Rightarrow> config_lines ok strerror errlen ls (Suc lineno) st
      | (Some e, st) \<Rightarrow> (Some e, st))"

definition config_free :: "kmorph_config \<Rightarrow> kmorph_config" where
  "config_free c = config_zero"

definition config_parse ::
    "alloc \<Rightarrow> (errno \<Rightarrow> string) \<Rightarrow> string \<Rightarrow> nat \<Rightarrow> string \<Rightarrow> rc \<times> kmorph_config \<times> string" where
  "config_parse ok strerror txt errlen err =
     (let c = config_defaults ok in
      if cf_name c = None then (Some ENOMEM, c, err)
      else
        let err = (if errlen \<noteq> 0 then [] else err) in
        case strdup ok txt of
          None \<Rightarrow> (Some ENOMEM, c, err)
        | Some copy \<Rightarrow>
            let (r, c, err) = config_lines ok strerror errlen (split_lines copy) 0 (c, err);
                (r, err) = (if r = None \<and> cf_console c \<noteq> None \<and> cf_console_login c = None
                            then (Some EINVAL, snd (snprintf errlen ''console needs console_login'')) else (r, err));
                (r, c) = (if r = None then
                            (case strdup ok txt of None \<Rightarrow> (Some ENOMEM, c\<lparr>cf_text := None\<rparr>)
                             | Some t \<Rightarrow> (None, c\<lparr>cf_text := Some t\<rparr>)) else (r, c))
            in (r, if r = None then c else config_free c, err))"

definition config_load ::
    "alloc \<Rightarrow> (errno \<Rightarrow> string) \<Rightarrow> (string \<Rightarrow> string res) \<Rightarrow> string \<Rightarrow> kmorph_config \<Rightarrow> nat \<Rightarrow> string \<Rightarrow> rc \<times> kmorph_config \<times> string" where
  "config_load ok strerror read_string path c errlen err =
     (case read_string path of
        Inl e \<Rightarrow> (Some e, c, snd (snprintf errlen (path @ '': '' @ strerror e)))
      | Inr txt \<Rightarrow> config_parse ok strerror txt errlen err)"

section \<open>What an accepted configuration satisfies\<close>

definition config_ok :: "kmorph_config \<Rightarrow> bool" where
  "config_ok c =
     (1 \<le> cf_probe_timeouts c \<and> 1 \<le> cf_console_baud c \<and> cf_name c \<noteq> None \<and> cf_name c \<noteq> Some [] \<and>
      sorted (cl_ids (cf_cpus c)) \<and> distinct (cl_ids (cf_cpus c)) \<and>
      sorted (cl_ids (cf_machine_cpus c)) \<and> distinct (cl_ids (cf_machine_cpus c)))"

lemma parse_cpulist_sorted:
  "parse_cpulist ok s = (r, l) \<Longrightarrow> sorted (cl_ids l) \<and> distinct (cl_ids l)"
  by (auto simp: parse_cpulist_def cpulist_free_def cpulist_normalize_set split: if_splits prod.splits option.splits)

lemma set_cpus_sorted: "set_cpus ok dst v = (r, l) \<Longrightarrow> sorted (cl_ids l) \<and> distinct (cl_ids l)"
  by (auto simp: set_cpus_def cpulist_free_def split: if_splits dest: parse_cpulist_sorted)

lemma set_uint_ge:
  assumes "set_uint dst value m = (r, x)" and "m \<le> dst"
  shows "m \<le> x"
proof -
  have "m \<le> ucast v" if "\<not> v < ucast m" "\<not> 0xFFFFFFFF < v" for v :: u64
  proof -
    have "unat v < 2 ^ 32" using that(2) by (simp add: not_less word_le_nat_alt)
    then have "unat (ucast v :: u32) = unat v" by (simp add: unat_ucast_down)
    moreover have "unat (ucast m :: u64) = unat m" by (simp add: unat_ucast_up)
    ultimately show ?thesis using that(1) by (simp add: not_less word_le_nat_alt)
  qed
  then show ?thesis
    using assms by (auto simp: set_uint_def Let_def split: if_splits prod.splits)
qed

lemma set_string_name: "set_string ok v = (r, x) \<Longrightarrow> v \<noteq> [] \<Longrightarrow> r = None \<Longrightarrow> x \<noteq> None \<and> x \<noteq> Some []"
  by (auto simp: set_string_def strdup_def split: if_splits option.splits)

lemma config_set_ok:
  assumes "config_ok c" and "config_set ok c key v = (None, c')"
  shows "config_ok c'"
  using assms
  by (auto simp: config_set_def config_ok_def split: if_splits prod.splits
      dest: set_cpus_sorted set_uint_ge set_string_name)

lemma config_parse_line_ok:
  assumes "config_ok c" and "config_parse_line ok se n line k (c, err) = (None, c', err')"
  shows "config_ok c'"
  using assms by (auto simp: config_parse_line_def Let_def split: if_splits prod.splits option.splits dest: config_set_ok)

lemma config_lines_ok:
  "config_ok c \<Longrightarrow> config_lines ok se n ls k (c, err) = (None, c', err') \<Longrightarrow> config_ok c'"
proof (induction ls arbitrary: k c err)
  case (Cons l ls)
  obtain r1 c1 err1 where l: "config_parse_line ok se n l (Suc k) (c, err) = (r1, c1, err1)" by (metis prod_cases3)
  then have "r1 = None" using Cons.prems(2) by (cases r1) auto
  then show ?case
    using Cons.IH [of c1 "Suc k" err1] Cons.prems l config_parse_line_ok [OF Cons.prems(1), of ok se n l "Suc k" err c1 err1]
    by simp
qed simp

section \<open>What a configuration text means\<close>

text \<open>
  The lines of a configuration as they are written: blank, a comment, or an
  assignment with any white space around the key and the value.
\<close>

datatype config_line =
    Blank string
  | Comment string string
  | Assign string string string string string string

fun line_text :: "config_line \<Rightarrow> string" where
  "line_text (Blank p) = p"
| "line_text (Comment p t) = p @ ''#'' @ t"
| "line_text (Assign p k q r v s) = p @ k @ q @ ''='' @ r @ v @ s"

definition stripped :: "string \<Rightarrow> bool" where
  "stripped w = (w = [] \<or> \<not> isspace (hd w) \<and> \<not> isspace (last w))"

fun line_ok :: "config_line \<Rightarrow> bool" where
  "line_ok (Blank p) = all_space p"
| "line_ok (Comment p t) = all_space p"
| "line_ok (Assign p k q r v s) =
     (all_space p \<and> all_space q \<and> all_space r \<and> all_space s \<and> stripped k \<and> stripped v \<and>
      k \<noteq> [] \<and> CHR ''='' \<notin> set k \<and> hd k \<noteq> CHR ''#'')"

fun line_assign :: "config_line \<Rightarrow> (string \<times> string) list" where
  "line_assign (Assign p k q r v s) = [(k, v)]"
| "line_assign _ = []"

lemma trim_spaces:
  assumes "all_space p" and "stripped w" and "all_space q"
  shows "trim (p @ w @ q) = w"
proof (cases "w = []")
  case True
  have "dropWhile isspace (p @ q) = []" using assms(1,3) by (auto simp: all_space_def list_all_iff)
  then show ?thesis using True by (simp add: trim_def rstrip_def del: dropWhile_eq_Nil_conv)
next
  case False
  then have "dropWhile isspace (p @ w @ q) = w @ q"
    using assms by (intro dropWhile_all_append) (auto simp: all_space_def stripped_def list_all_iff)
  moreover have "rstrip (w @ q) = w"
    using assms False by (intro rstrip_spaces) (auto simp: all_space_def stripped_def list_all_iff)
  ultimately show ?thesis by (simp add: trim_def)
qed

lemma all_space_append [simp]: "all_space (p @ q) \<longleftrightarrow> all_space p \<and> all_space q" "all_space []"
  by (auto simp: all_space_def)

lemma all_space_no_eq: "all_space q \<Longrightarrow> CHR ''='' \<notin> set q"
  by (auto simp: all_space_def list_all_iff isspace_def)

lemma trim_comment: "all_space p \<Longrightarrow> trim (p @ CHR ''#'' # t) \<noteq> [] \<and> hd (trim (p @ CHR ''#'' # t)) = CHR ''#''"
proof -
  assume p: "all_space p"
  have "dropWhile isspace (p @ [CHR ''#''] @ t) = [CHR ''#''] @ t"
    using p by (intro dropWhile_all_append) (auto simp: all_space_def list_all_iff isspace_lit)
  moreover have "rstrip (CHR ''#'' # t) = CHR ''#'' # rstrip t"
    by (auto simp: rstrip_def dropWhile_append isspace_lit)
  ultimately show ?thesis by (simp add: trim_def)
qed

lemma config_parse_line_assign:
  assumes "trim txt = key @ q @ CHR ''='' # t" and "trim (key @ q) = key" and "trim t = v"
    and "key \<noteq> []" and "hd key \<noteq> CHR ''#''" and no_eq: "\<forall>x \<in> set (key @ q). x \<noteq> CHR ''=''"
  shows "\<exists>err'. config_parse_line ok se n txt k (c, err) = (let (r, c') = config_set ok c key v in (r, c', err'))"
proof -
  have "takeWhile (\<lambda>x. x \<noteq> CHR ''='') (trim txt) = key @ q" "dropWhile (\<lambda>x. x \<noteq> CHR ''='') (trim txt) = CHR ''='' # t"
    using takeWhile_digits_append [OF no_eq, of "CHR ''='' # t"] assms(1) by simp_all
  moreover have "trim txt \<noteq> []" "hd (trim txt) \<noteq> CHR ''#''" "CHR ''='' \<in> set (trim txt)"
    using assms(1,4,5) by auto
  ultimately show ?thesis
    using assms(2,3) by (auto simp: config_parse_line_def Let_def split: prod.split option.split)
qed

lemma config_parse_line_meaning:
  assumes "line_ok l"
  shows "\<exists>err'. config_parse_line ok se n (line_text l) k (c, err) =
    (let (r, c') = fold_rc (\<lambda>(k, v) c. config_set ok c k v) (line_assign l) c in (r, c', err'))"
proof (cases l)
  case (Blank p)
  then show ?thesis using assms trim_spaces [of p "[]" "[]"] by (simp add: config_parse_line_def stripped_def)
next
  case (Comment p t)
  then show ?thesis using assms trim_comment [of p t] by (auto simp: config_parse_line_def Let_def)
next
  case (Assign p key q r v s)
  define t where "t = (if v = [] then [] else r @ v)"
  define e where "e = (if v = [] then r @ s else s)"
  have ok: "all_space p" "all_space q" "all_space r" "all_space s" "stripped key" "stripped v" "key \<noteq> []"
      "CHR ''='' \<notin> set key" "hd key \<noteq> CHR ''#''"
    using assms Assign by auto
  have "line_text l = p @ (key @ q @ CHR ''='' # t) @ e" using Assign by (simp add: t_def e_def)
  moreover have "stripped (key @ q @ CHR ''='' # t)" using ok by (auto simp: stripped_def isspace_lit t_def)
  ultimately have "trim (line_text l) = key @ q @ CHR ''='' # t"
    using ok trim_spaces [of p "key @ q @ CHR ''='' # t" e] by (simp add: e_def)
  moreover have "trim (key @ q) = key" "trim t = v"
    using ok trim_spaces [of "[]" key q] trim_spaces [of r v "[]"] trim_spaces [of "[]" "[]" "[]"]
    by (auto simp: t_def stripped_def)
  ultimately have "\<exists>err'. config_parse_line ok se n (line_text l) k (c, err) =
      (let (r, c') = config_set ok c key v in (r, c', err'))"
    using ok all_space_no_eq by (intro config_parse_line_assign) auto
  then show ?thesis using Assign by (auto split: prod.splits option.splits)
qed

lemma config_lines_meaning:
  assumes "\<forall>l \<in> set ls. line_ok l"
  shows "\<exists>err'. config_lines ok se n (map line_text ls) k (c, err) =
    (let (r, c') = fold_rc (\<lambda>(k, v) c. config_set ok c k v) (concat (map line_assign ls)) c in (r, c', err'))"
  using assms
proof (induction ls arbitrary: k c err)
  case (Cons l ls)
  obtain r1 c1 where f: "fold_rc (\<lambda>(k, v) c. config_set ok c k v) (line_assign l) c = (r1, c1)" by fastforce
  obtain err1 where l: "config_parse_line ok se n (line_text l) (Suc k) (c, err) = (r1, c1, err1)"
    using config_parse_line_meaning [of l ok se n "Suc k" c err] Cons.prems f by auto
  show ?case
    using Cons.IH [of "Suc k" c1 err1] Cons.prems l f by (cases r1) (simp_all add: fold_rc_append)
qed simp

lemma config_parse_after:
  assumes "\<forall>n. ok n"
    and "config_lines ok se errlen (split_lines txt) 0 (config_defaults ok, if errlen \<noteq> 0 then [] else err) = (r0, c0, e0)"
  shows "\<exists>e. config_parse ok se txt errlen err =
    (if r0 \<noteq> None then (r0, config_zero, e)
     else if cf_console c0 \<noteq> None \<and> cf_console_login c0 = None then (Some EINVAL, config_zero, e)
     else (None, c0\<lparr>cf_text := Some txt\<rparr>, e))"
proof -
  have "cf_name (config_defaults ok) \<noteq> None" using assms(1) by (simp add: config_defaults_def strdup_def)
  then show ?thesis
    using assms by (cases r0) (auto simp add: config_parse_def Let_def strdup_def config_free_def)
qed

section \<open>The properties of the configuration\<close>

text \<open>C20: a configuration that \<open>config_parse\<close> accepts is one the daemon can run on: at least one silence
  before a takeover, a positive baud rate, a name, sorted CPU lists without duplicates, a login program
  wherever there is a console, and the text kept verbatim for the successor.\<close>

theorem config_parse_accepted:
  assumes "config_parse ok strerror txt errlen err = (None, c, err')"
  shows "1 \<le> cf_probe_timeouts c \<and> 1 \<le> cf_console_baud c \<and> cf_name c \<noteq> None \<and> cf_name c \<noteq> Some [] \<and>
    (cf_console c \<noteq> None \<longrightarrow> cf_console_login c \<noteq> None) \<and> cf_text c = Some txt \<and>
    sorted (cl_ids (cf_cpus c)) \<and> distinct (cl_ids (cf_cpus c)) \<and>
    sorted (cl_ids (cf_machine_cpus c)) \<and> distinct (cl_ids (cf_machine_cpus c))"
proof -
  have name: "cf_name (config_defaults ok) \<noteq> None"
    using assms by (auto simp: config_parse_def Let_def split: if_splits)
  then have "config_ok (config_defaults ok)"
    by (auto simp: config_ok_def config_defaults_def config_zero_def strdup_def split: if_splits)
  moreover obtain c1 err1 err0 where l: "config_lines ok strerror errlen (split_lines txt) 0 (config_defaults ok, err0) = (None, c1, err1)"
      and c: "c = c1\<lparr>cf_text := Some txt\<rparr>" "cf_console c1 \<noteq> None \<longrightarrow> cf_console_login c1 \<noteq> None"
    using assms name
    by (auto simp: config_parse_def Let_def strdup_def split: if_splits option.splits prod.splits)
  ultimately have "config_ok c1" using config_lines_ok by blast
  then show ?thesis using c by (auto simp: config_ok_def)
qed

theorem config_parse_accepted_witness:
  "\<exists>c. config_parse always (\<lambda>e. []) ''console = ttyS0'' 0 [] = (Some EINVAL, c, []) \<and>
     (\<exists>d. config_parse always (\<lambda>e. []) '''' 0 [] = (None, d, []) \<and> 1 \<le> cf_probe_timeouts d)"
proof -
  have "config_parse always (\<lambda>e. []) ''console = ttyS0'' 0 [] = (Some EINVAL, config_zero, [])" by code_simp
  moreover have "config_parse always (\<lambda>e. []) '''' 0 [] = (None, config_defaults always\<lparr>cf_text := Some []\<rparr>, [])"
    by code_simp
  ultimately show ?thesis using config_parse_accepted [of always "\<lambda>e. []" "''''" 0 "[]"] by blast
qed

text \<open>C21: a configuration text means its assignments in order, whatever comments, blank lines and white
  space it has: \<open>config_parse\<close> applies them one by one to the defaults, stops at the first that fails and
  then leaves an all-zero configuration, and rejects a console without a login.\<close>

theorem config_parse_meaning:
  assumes "\<forall>n. ok n" and "ls \<noteq> []" and "\<forall>l \<in> set ls. line_ok l \<and> CHR 0x0A \<notin> set (line_text l)"
    and "config_parse ok strerror (join [CHR 0x0A] (map line_text ls)) errlen err = (r, c, err')"
  shows "case fold_rc (\<lambda>(k, v) c. config_set ok c k v) (concat (map line_assign ls)) (config_defaults ok) of
      (Some e, _) \<Rightarrow> r = Some e \<and> c = config_zero
    | (None, c') \<Rightarrow>
        if cf_console c' \<noteq> None \<and> cf_console_login c' = None then r = Some EINVAL \<and> c = config_zero
        else r = None \<and> c = c'\<lparr>cf_text := Some (join [CHR 0x0A] (map line_text ls))\<rparr>"
proof -
  have s: "split_lines (join [CHR 0x0A] (map line_text ls)) = map line_text ls"
    using assms(2,3) by (intro split_lines_join) auto
  obtain r0 c0 where f: "fold_rc (\<lambda>(k, v) c. config_set ok c k v) (concat (map line_assign ls)) (config_defaults ok) = (r0, c0)"
    by fastforce
  obtain err1 where "config_lines ok strerror errlen (map line_text ls) 0 (config_defaults ok, if errlen \<noteq> 0 then [] else err) = (r0, c0, err1)"
    using config_lines_meaning [of ls ok strerror errlen 0 "config_defaults ok"] assms(3) f by fastforce
  then show ?thesis
    using config_parse_after [OF assms(1), of strerror errlen "join [CHR 0x0A] (map line_text ls)" err r0 c0 err1] assms(4)
    by (auto simp: s f split: option.splits if_splits)
qed

theorem config_parse_meaning_witness:
  "\<exists>c err'. config_parse always (\<lambda>e. []) (join [CHR 0x0A] (map line_text
      [Comment [] '' two'', Assign '' '' ''dump'' '' '' '' '' ''/x'' []])) 64 [] = (None, c, err') \<and> cf_dump c = Some ''/x''"
proof -
  let ?ls = "[Comment [] '' two'', Assign '' '' ''dump'' '' '' '' '' ''/x'' []]"
  obtain r c err' where p: "config_parse always (\<lambda>e. []) (join [CHR 0x0A] (map line_text ?ls)) 64 [] = (r, c, err')"
    by (metis prod_cases3)
  have "config_set always (config_defaults always) ''dump'' ''/x'' = (None, config_defaults always\<lparr>cf_dump := Some ''/x''\<rparr>)"
    by (simp add: config_set_def set_string_def strdup_def)
  then have "r = None \<and> cf_dump c = Some ''/x''"
    using config_parse_meaning [OF _ _ _ p]
    by (simp add: all_space_def isspace_lit stripped_def config_defaults_def config_zero_def)
  then show ?thesis using p by auto
qed

end
