(* ===== verification/Host.thy ===== *)
theory Host
  imports Sysio Takeover
begin

text \<open>
  What the programs use of the system beside files: sockets, clocks, timers,
  signals, terminals and the multikernel system calls, as a record of calls on a
  world \<open>'w\<close> that may answer anything.  On it the probe (lib/probe.c,
  lib/vsock.c), the login console (kmorphd/console.c) and the wrappers of the
  system calls (lib/mksys.c).
\<close>

unbundle bit_operations_syntax

section \<open>The calls\<close>

text \<open>
  A descriptor is a number.  \<open>hs_zombies\<close> tells how many children wait to be
  reaped; \<open>hs_so_error\<close> is the pending error of a socket, or the failure to ask
  for it; \<open>hs_serial\<close> is the interrupt line of a terminal; \<open>hs_fork\<close> names what
  the child goes on to do.
\<close>

datatype child = Child_supervises string u32 string

record 'w host =
  hs_clock :: "'w \<Rightarrow> (u64 \<times> u64) \<times> 'w"
  hs_socket :: "nat \<Rightarrow> 'w \<Rightarrow> nat res \<times> 'w"
  hs_transport :: "nat \<Rightarrow> nat \<Rightarrow> 'w \<Rightarrow> rc \<times> 'w"
  hs_connect :: "nat \<Rightarrow> u32 \<Rightarrow> u32 \<Rightarrow> 'w \<Rightarrow> rc \<times> 'w"
  hs_so_error :: "nat \<Rightarrow> 'w \<Rightarrow> rc res \<times> 'w"
  hs_bind :: "nat \<Rightarrow> u32 \<Rightarrow> u32 \<Rightarrow> 'w \<Rightarrow> rc \<times> 'w"
  hs_listen :: "nat \<Rightarrow> nat \<Rightarrow> 'w \<Rightarrow> rc \<times> 'w"
  hs_accept :: "nat \<Rightarrow> 'w \<Rightarrow> nat res \<times> 'w"
  hs_poll :: "nat \<Rightarrow> u64 \<Rightarrow> 'w \<Rightarrow> bool \<times> 'w"
  hs_recv :: "nat \<Rightarrow> nat \<Rightarrow> 'w \<Rightarrow> string res \<times> 'w"
  hs_send :: "nat \<Rightarrow> string \<Rightarrow> 'w \<Rightarrow> nat res \<times> 'w"
  hs_close :: "nat \<Rightarrow> 'w \<Rightarrow> 'w"
  hs_create :: "string \<Rightarrow> bool \<Rightarrow> 'w \<Rightarrow> nat res \<times> 'w"
  hs_write :: "nat \<Rightarrow> string \<Rightarrow> 'w \<Rightarrow> nat res \<times> 'w"
  hs_rename :: "string \<Rightarrow> string \<Rightarrow> 'w \<Rightarrow> 'w"
  hs_mkdir :: "string \<Rightarrow> 'w \<Rightarrow> rc \<times> 'w"
  hs_epoll_create :: "'w \<Rightarrow> nat res \<times> 'w"
  hs_epoll_add :: "nat \<Rightarrow> nat \<Rightarrow> 'w \<Rightarrow> rc \<times> 'w"
  hs_epoll_wait :: "nat \<Rightarrow> 'w \<Rightarrow> nat res \<times> 'w"
  hs_timer_create :: "'w \<Rightarrow> nat res \<times> 'w"
  hs_timer_set :: "nat \<Rightarrow> u64 \<Rightarrow> u64 \<Rightarrow> 'w \<Rightarrow> rc \<times> 'w"
  hs_timer_read :: "nat \<Rightarrow> 'w \<Rightarrow> bool \<times> 'w"
  hs_block_signals :: "bool \<Rightarrow> 'w \<Rightarrow> rc \<times> 'w"
  hs_signalfd :: "bool \<Rightarrow> 'w \<Rightarrow> nat res \<times> 'w"
  hs_signal_read :: "nat \<Rightarrow> 'w \<Rightarrow> nat option \<times> 'w"
  hs_zombies :: "'w \<Rightarrow> nat"
  hs_reap :: "'w \<Rightarrow> 'w"
  hs_open_tty :: "string \<Rightarrow> 'w \<Rightarrow> nat res \<times> 'w"
  hs_serial :: "nat \<Rightarrow> 'w \<Rightarrow> int res \<times> 'w"
  hs_set_serial :: "nat \<Rightarrow> int \<Rightarrow> 'w \<Rightarrow> rc \<times> 'w"
  hs_mount :: "string \<Rightarrow> string \<Rightarrow> string option \<Rightarrow> nat \<Rightarrow> string option \<Rightarrow> 'w \<Rightarrow> rc \<times> 'w"
  hs_reboot :: "u32 \<Rightarrow> int \<Rightarrow> 'w \<Rightarrow> rc \<times> 'w"
  hs_kexec_file_load :: "nat option \<Rightarrow> nat option \<Rightarrow> string option \<Rightarrow> u64 \<Rightarrow> 'w \<Rightarrow> rc \<times> 'w"
  hs_fork :: "child \<Rightarrow> 'w \<Rightarrow> nat res \<times> 'w"

definition now_ms :: "'w host \<Rightarrow> 'w \<Rightarrow> u64 \<times> 'w" where
  "now_ms h w = (let ((sec, nsec), w) = hs_clock h w in (sec * 1000 + nsec div 1000000, w))"

section \<open>Sockets between the kernels\<close>

definition VSOCK_TRANSPORT_MULTIKERNEL :: nat where "VSOCK_TRANSPORT_MULTIKERNEL = 1"
definition SOCK_NONBLOCK :: nat where "SOCK_NONBLOCK = 2048"
definition VSOCK_CID_ANY :: u32 where "VSOCK_CID_ANY = - 1"
definition PROBE_CID_PREDECESSOR :: u32 where "PROBE_CID_PREDECESSOR = 0"
definition PROBE_PORT :: u32 where "PROBE_PORT = 1"

abbreviation EINPROGRESS :: errno where
  "EINPROGRESS \<equiv> Eother 115"

definition vsock_multikernel_socket :: "'w host \<Rightarrow> nat \<Rightarrow> 'w \<Rightarrow> nat res \<times> 'w" where
  "vsock_multikernel_socket h flags w =
     (case hs_socket h flags w of
        (Inl e, w) \<Rightarrow> (Inl e, w)
      | (Inr fd, w) \<Rightarrow>
          (case hs_transport h fd VSOCK_TRANSPORT_MULTIKERNEL w of
             (Some e, w) \<Rightarrow> (Inl e, hs_close h fd w)
           | (None, w) \<Rightarrow> (Inr fd, w)))"

definition probe_start :: "'w host \<Rightarrow> u32 \<Rightarrow> u32 \<Rightarrow> 'w \<Rightarrow> nat res \<times> 'w" where
  "probe_start h cid port w =
     (case vsock_multikernel_socket h SOCK_NONBLOCK w of
        (Inl e, w) \<Rightarrow> (Inl e, w)
      | (Inr fd, w) \<Rightarrow>
          (case hs_connect h fd cid port w of
             (Some e, w) \<Rightarrow> if e \<noteq> EINPROGRESS then (Inl e, hs_close h fd w) else (Inr fd, w)
           | (None, w) \<Rightarrow> (Inr fd, w)))"

definition probe_finish :: "'w host \<Rightarrow> nat \<Rightarrow> 'w \<Rightarrow> rc \<times> 'w" where
  "probe_finish h fd w =
     (let (r, w) = hs_so_error h fd w;
          err = (case r of Inl e \<Rightarrow> Some e | Inr err \<Rightarrow> err)
      in (err, hs_close h fd w))"

section \<open>The console\<close>

text \<open>
  The terminal's attributes; the speed stands beside the control flags, which
  \<open>cfsetispeed\<close> and \<open>cfsetospeed\<close> put it into.
\<close>

record termios =
  t_speed :: nat
  t_iflag :: nat
  t_oflag :: nat
  t_cflag :: nat
  t_lflag :: nat
  t_cc :: "nat list"

definition speeds :: "u32 list" where
  "speeds = [9600, 19200, 38400, 57600, 115200, 230400]"

definition console_line_attrs :: "u32 \<Rightarrow> termios res" where
  "console_line_attrs baud =
     (if baud \<notin> set speeds then Inl EINVAL
      else Inr \<lparr>t_speed = unat baud, t_iflag = 0x100, t_oflag = 0x1 + 0x4, t_cflag = 0x30 + 0x80 + 0x400 + 0x800,
        t_lflag = 0x1 + 0x2 + 0x8 + 0x10 + 0x20 + 0x8000,
        t_cc = (replicate 32 0)[0 := 3, 2 := 127, 3 := 21, 4 := 4, 6 := 1]\<rparr>)"

definition console_poll_mode :: "'w host \<Rightarrow> string \<Rightarrow> 'w \<Rightarrow> rc \<times> 'w" where
  "console_poll_mode h tty w =
     (case hs_open_tty h (snd (snprintf 64 (''/dev/'' @ tty))) w of
        (Inl e, w) \<Rightarrow> (Some e, w)
      | (Inr fd, w) \<Rightarrow>
          let (r, w) = (case hs_serial h fd w of
                (Inl e, w) \<Rightarrow> (Some e, w)
              | (Inr irq, w) \<Rightarrow> if irq \<noteq> 0 then hs_set_serial h fd 0 w else (None, w))
          in (r, hs_close h fd w))"

text \<open>
  The supervisor, in a process of its own, against what happens to the
  successive children: its exit status, or \<open>None\<close> while it goes on.
\<close>

datatype login_outcome = Login_no_fork | Login_lost | Login_exits nat | Login_killed

fun supervise :: "login_outcome list \<Rightarrow> nat option" where
  "supervise [] = None"
| "supervise (Login_no_fork # _) = Some 1"
| "supervise (Login_lost # _) = Some 1"
| "supervise (Login_exits n # os) = (if n = 127 then Some 127 else supervise os)"
| "supervise (Login_killed # os) = supervise os"

definition console_start_supervisor :: "'w host \<Rightarrow> string \<Rightarrow> u32 \<Rightarrow> string \<Rightarrow> 'w \<Rightarrow> nat res \<times> 'w" where
  "console_start_supervisor h tty baud login w = hs_fork h (Child_supervises tty baud login) w"

definition console_start :: "'w host \<Rightarrow> string \<Rightarrow> u32 \<Rightarrow> string \<Rightarrow> 'w \<Rightarrow> nat res \<times> 'w" where
  "console_start h tty baud login w =
     (let (r, w) = console_poll_mode h tty w in console_start_supervisor h tty baud login w)"

section \<open>Children of init\<close>

text \<open>\<open>waitpid\<close> finds a child as often as there are zombies.\<close>

fun init_reap_loop :: "'w host \<Rightarrow> nat \<Rightarrow> 'w \<Rightarrow> 'w" where
  "init_reap_loop h 0 w = w"
| "init_reap_loop h (Suc n) w = init_reap_loop h n (hs_reap h w)"

definition init_reap :: "'w host \<Rightarrow> 'w \<Rightarrow> 'w" where
  "init_reap h w = init_reap_loop h (hs_zombies h w) w"

section \<open>The multikernel system calls\<close>

definition MK_REBOOT_CMD_EXEC :: u32 where "MK_REBOOT_CMD_EXEC = 0x4D4B4C49"
definition MK_REBOOT_CMD_HALT :: u32 where "MK_REBOOT_CMD_HALT = 0x4D4B4C48"
definition MK_REBOOT_CMD_HALT_FORCE :: u32 where "MK_REBOOT_CMD_HALT_FORCE = 0x4D4B4C46"

definition MK_KEXEC_FILE_UNLOAD :: u64 where "MK_KEXEC_FILE_UNLOAD = 0x00000001"
definition MK_KEXEC_FILE_NO_INITRAMFS :: u64 where "MK_KEXEC_FILE_NO_INITRAMFS = 0x00000004"
definition MK_KEXEC_FILE_MK_ID_MASK :: u64 where "MK_KEXEC_FILE_MK_ID_MASK = 0x7fff0000"
definition MK_KEXEC_FILE_MK_ID_SHIFT :: nat where "MK_KEXEC_FILE_MK_ID_SHIFT = 16"
definition MK_KEXEC_FILE_MULTIKERNEL :: u64 where "MK_KEXEC_FILE_MULTIKERNEL = 0x80000000"

lemmas mksys_consts = MK_KEXEC_FILE_UNLOAD_def MK_KEXEC_FILE_NO_INITRAMFS_def MK_KEXEC_FILE_MK_ID_MASK_def
  MK_KEXEC_FILE_MK_ID_SHIFT_def MK_KEXEC_FILE_MULTIKERNEL_def

definition mksys_kexec_flags :: "int \<Rightarrow> bool \<Rightarrow> u64" where
  "mksys_kexec_flags mk_id has_initrd =
     (let flags = MK_KEXEC_FILE_MULTIKERNEL OR (push_bit MK_KEXEC_FILE_MK_ID_SHIFT (word_of_int mk_id) AND MK_KEXEC_FILE_MK_ID_MASK)
      in if has_initrd then flags else flags OR MK_KEXEC_FILE_NO_INITRAMFS)"

definition mksys_kexec_unload_flags :: "int \<Rightarrow> u64" where
  "mksys_kexec_unload_flags mk_id = mksys_kexec_flags mk_id True OR MK_KEXEC_FILE_UNLOAD"

definition mksys_kexec_load :: "'w host \<Rightarrow> nat \<Rightarrow> nat option \<Rightarrow> string \<Rightarrow> int \<Rightarrow> 'w \<Rightarrow> rc \<times> 'w" where
  "mksys_kexec_load h kernel_fd initrd_fd cmdline mk_id w =
     hs_kexec_file_load h (Some kernel_fd) initrd_fd (Some cmdline) (mksys_kexec_flags mk_id (initrd_fd \<noteq> None)) w"

definition mksys_kexec_unload :: "'w host \<Rightarrow> int \<Rightarrow> 'w \<Rightarrow> rc \<times> 'w" where
  "mksys_kexec_unload h mk_id w = hs_kexec_file_load h None None None (mksys_kexec_unload_flags mk_id) w"

definition mksys_exec :: "'w host \<Rightarrow> int \<Rightarrow> 'w \<Rightarrow> rc \<times> 'w" where
  "mksys_exec h mk_id w = hs_reboot h MK_REBOOT_CMD_EXEC mk_id w"

definition mksys_halt :: "'w host \<Rightarrow> int \<Rightarrow> 'w \<Rightarrow> rc \<times> 'w" where
  "mksys_halt h mk_id w = hs_reboot h MK_REBOOT_CMD_HALT mk_id w"

definition mksys_fence :: "'w host \<Rightarrow> int \<Rightarrow> 'w \<Rightarrow> rc \<times> 'w" where
  "mksys_fence h mk_id w = hs_reboot h MK_REBOOT_CMD_HALT_FORCE mk_id w"

text \<open>The fields of the flag word as the kernel reads them: every bit is in one of them.\<close>

record kexec_fields =
  kf_multikernel :: bool
  kf_id :: int
  kf_no_initramfs :: bool
  kf_unload :: bool
  kf_other :: u64

definition kexec_fields_of :: "u64 \<Rightarrow> kexec_fields" where
  "kexec_fields_of flags =
     \<lparr>kf_multikernel = (flags AND MK_KEXEC_FILE_MULTIKERNEL \<noteq> 0),
      kf_id = uint (drop_bit MK_KEXEC_FILE_MK_ID_SHIFT (flags AND MK_KEXEC_FILE_MK_ID_MASK)),
      kf_no_initramfs = (flags AND MK_KEXEC_FILE_NO_INITRAMFS \<noteq> 0),
      kf_unload = (flags AND MK_KEXEC_FILE_UNLOAD \<noteq> 0),
      kf_other = flags AND NOT (MK_KEXEC_FILE_MULTIKERNEL OR MK_KEXEC_FILE_MK_ID_MASK OR
        MK_KEXEC_FILE_NO_INITRAMFS OR MK_KEXEC_FILE_UNLOAD)\<rparr>"

lemma id_mask: "push_bit 16 x AND (0x7fff0000 :: u64) = push_bit 16 (take_bit 15 x)"
proof -
  have m: "(0x7fff0000 :: u64) = push_bit 16 (mask 15)" by (simp add: mask_eq_exp_minus_1 push_bit_eq_mult)
  show ?thesis
    unfolding m by (rule bit_word_eqI) (auto simp: bit_and_iff bit_push_bit_iff bit_mask_iff bit_take_bit_iff)
qed

lemma id_field:
  fixes x :: u64
  shows "drop_bit 16 (push_bit 16 (take_bit 15 x)) = take_bit 15 x"
    and "push_bit 16 (take_bit 15 x) AND 0x7fff0000 = push_bit 16 (take_bit 15 x)"
    and "push_bit 16 (take_bit 15 x) AND 0x80000000 = 0"
    and "push_bit 16 (take_bit 15 x) AND 4 = 0" and "push_bit 16 (take_bit 15 x) AND 1 = 0"
proof -
  let ?y = "push_bit 16 (take_bit 15 x)"
  show "drop_bit 16 ?y = take_bit 15 x"
    by (rule bit_word_eqI) (auto simp: bit_drop_bit_eq bit_push_bit_iff bit_take_bit_iff)
  show "?y AND 0x7fff0000 = ?y" using id_mask [of "take_bit 15 x"] by simp
  have pow: "?y AND push_bit n 1 = 0" if "n < 16 \<or> 31 \<le> n" for n
    using that by (intro bit_word_eqI) (auto simp: bit_and_iff bit_push_bit_iff bit_take_bit_iff bit_1_iff bit_exp_iff)
  show "?y AND 0x80000000 = 0" "?y AND 4 = 0" "?y AND 1 = 0"
    using pow [of 31] pow [of 2] pow [of 0] by (simp_all add: push_bit_eq_mult)
qed

text \<open>C31: The kernel reads the flags of a load and of an unload field by field as they were meant: the
  multikernel bit is set, the id is the instance's (its low 15 bits, all the field has room for), the
  initramfs flag is set exactly when a load has none, the unload flag exactly for an unload, and
  no other bit is set.\<close>

theorem kexec_flags_decode:
  "kexec_fields_of (mksys_kexec_flags mk_id has_initrd) =
     \<lparr>kf_multikernel = True, kf_id = mk_id mod 2 ^ 15, kf_no_initramfs = (\<not> has_initrd), kf_unload = False, kf_other = 0\<rparr> \<and>
   kexec_fields_of (mksys_kexec_unload_flags mk_id) =
     \<lparr>kf_multikernel = True, kf_id = mk_id mod 2 ^ 15, kf_no_initramfs = False, kf_unload = True, kf_other = 0\<rparr>"
proof -
  let ?x = "word_of_int mk_id :: u64" and ?y = "push_bit 16 (take_bit 15 (word_of_int mk_id :: u64))"
  have id: "uint (take_bit 15 ?x) = mk_id mod 2 ^ 15"
  proof -
    have "uint (take_bit 15 ?x) = take_bit 15 (take_bit 64 mk_id)" by (simp add: unsigned_take_bit_eq unsigned_of_int)
    also have "\<dots> = mk_id mod 2 ^ 15" unfolding take_bit_take_bit by (simp add: take_bit_eq_mod)
    finally show ?thesis .
  qed
  have other: "?y AND NOT (0x80000000 OR 0x7fff0000 OR 4 OR 1) = 0"
    by (subst id_field(2) [symmetric]) (simp add: and.assoc)
  note flags = mksys_kexec_flags_def mksys_kexec_unload_flags_def mksys_consts kexec_fields_of_def Let_def
    bit.conj_disj_distrib2 id_mask id_field id other [simplified]
  show ?thesis by (cases has_initrd) (simp_all add: flags)
qed

end
