(* ===== verification/Daemon.thy ===== *)
theory Daemon
  imports Ops Netsnap_Text Request Config Host
begin

text \<open>
  The daemon (kmorphd/main.c): it probes the predecessor on a timer, answers
  requests, and drives the takeover machine with the operations of
  kmorphd/ops.c.  The daemon's state is a record; the takeover's context in it
  is the state of the operations and the world, so every function maps a daemon
  to a daemon.
\<close>

section \<open>The daemon's state\<close>

definition STATE_DIR :: string where "STATE_DIR = ''/run/kmorph''"
definition STATE_PATH :: string where "STATE_PATH = ''/run/kmorph/state''"
definition STATE_TMP :: string where "STATE_TMP = ''/run/kmorph/state.tmp''"
definition TAKEN_OVER_PATH :: string where "TAKEN_OVER_PATH = ''/run/kmorph/taken-over''"
definition STANDBY_NETWORK :: string where "STANDBY_NETWORK = ''/run/kmorph/network''"
definition NETSNAP_PATH :: string where "NETSNAP_PATH = ''/etc/kmorph/network''"
definition KMORPH_VSOCK_PORT :: u32 where "KMORPH_VSOCK_PORT = 27501"

text \<open>
  A descriptor that may be \<open>-1\<close> is an option.  \<open>dm_ready_fd\<close> is the pipe to the
  process that waits for the takeover.
\<close>

record 'w daemon =
  dm_init :: bool
  dm_cfg :: kmorph_config
  dm_tk :: "('w ops \<times> 'w) takeover"
  dm_epfd :: nat
  dm_timer_fd :: nat
  dm_signal_fd :: nat
  dm_listen_fd :: "nat option"
  dm_probe_fd :: "nat option"
  dm_last_result :: probe_result
  dm_last_probe_err :: rc
  dm_last_probe_ms :: u64
  dm_probe_reported :: bool
  dm_handed_over :: bool
  dm_ready_fd :: "nat option"

abbreviation dm_ops :: "'w daemon \<Rightarrow> 'w ops" where
  "dm_ops d \<equiv> fst (tk_ctx (dm_tk d))"

abbreviation dm_world :: "'w daemon \<Rightarrow> 'w" where
  "dm_world d \<equiv> snd (tk_ctx (dm_tk d))"

abbreviation dm_state :: "'w daemon \<Rightarrow> takeover_state" where
  "dm_state d \<equiv> tk_state (dm_tk d)"

text \<open>A call on the world, and a new state of the operations.\<close>

definition on_world :: "('w \<Rightarrow> 'a \<times> 'w) \<Rightarrow> 'w daemon \<Rightarrow> 'a \<times> 'w daemon" where
  "on_world f d =
     (let (x, w) = f (dm_world d) in (x, d\<lparr>dm_tk := (dm_tk d)\<lparr>tk_ctx := (dm_ops d, w)\<rparr>\<rparr>))"

definition set_env :: "('w ops_env \<Rightarrow> 'w ops_env) \<Rightarrow> 'w daemon \<Rightarrow> 'w daemon" where
  "set_env f d =
     d\<lparr>dm_tk := (dm_tk d)\<lparr>tk_ctx := ((dm_ops d)\<lparr>o_env := f (o_env (dm_ops d))\<rparr>, dm_world d)\<rparr>\<rparr>"

section \<open>The state file\<close>

text \<open>The daemon as the callback of the takeover sees it: \<open>t\<close> is its takeover.\<close>

definition fill_status :: "'w host \<Rightarrow> 'w daemon \<Rightarrow> ('w ops \<times> 'w) takeover \<Rightarrow> 'w \<Rightarrow> status_reply \<times> 'w" where
  "fill_status h d t w =
     (let (ms, w) = (if dm_last_probe_ms d \<noteq> 0 then let (now, w) = now_ms h w in (now - dm_last_probe_ms d, w) else (0, w))
      in (\<lparr>sr_state = snd (snprintf 16 (takeover_state_name (tk_state t))),
           sr_predecessor = snd (snprintf 16 (if dm_handed_over d then ''handed-over'' else probe_result_name (dm_last_result d))),
           sr_last_probe_ms = ms, sr_last_error = rc_val (tk_last_error t)\<rparr>, w))"

definition write_state_file :: "'w host \<Rightarrow> 'w daemon \<Rightarrow> ('w ops \<times> 'w) takeover \<Rightarrow> 'w \<Rightarrow> 'w" where
  "write_state_file h d t w =
     (let (r, w) = fill_status h d t w in
      case request_format_status r 128 of
        (Inl e, line) \<Rightarrow> w
      | (Inr n, line) \<Rightarrow>
          let (r, w) = hs_mkdir h STATE_DIR w in
          case hs_create h STATE_TMP True w of
            (Inl e, w) \<Rightarrow> w
          | (Inr fd, w) \<Rightarrow>
              let (m, w) = hs_write h fd (drop 3 line) w;
                  w = (if m = Inr (n - 3) then hs_rename h STATE_TMP STATE_PATH w else w)
              in hs_close h fd w)"

definition mark_taken_over :: "'w host \<Rightarrow> 'w \<Rightarrow> 'w" where
  "mark_taken_over h w =
     (case hs_create h TAKEN_OVER_PATH False w of (Inl e, w) \<Rightarrow> w | (Inr fd, w) \<Rightarrow> hs_close h fd w)"

definition report_taken_over :: "'w host \<Rightarrow> nat option \<Rightarrow> 'w \<Rightarrow> 'w" where
  "report_taken_over h ready w =
     (case ready of None \<Rightarrow> w | Some fd \<Rightarrow> let (n, w) = hs_write h fd [CHR 0x00] w in hs_close h fd w)"

definition on_state :: "'w host \<Rightarrow> 'w daemon \<Rightarrow> ('w ops \<times> 'w) takeover \<Rightarrow> takeover_state \<Rightarrow> 'w ops \<times> 'w" where
  "on_state h d t s =
     (let (o', w) = tk_ctx t; w = write_state_file h d t w in
      if s \<noteq> TK_TAKEN_OVER then (o', w)
      else
        let w = report_taken_over h (dm_ready_fd d) w;
            w = (case cf_console (dm_cfg d) of
                   None \<Rightarrow> w
                 | Some tty \<Rightarrow> snd (console_start h tty (cf_console_baud (dm_cfg d))
                     (case cf_console_login (dm_cfg d) of None \<Rightarrow> [] | Some l \<Rightarrow> l) w))
        in (o', mark_taken_over h w))"

text \<open>
  The takeover machine with the daemon's callback.  The callback closes the pipe
  to the waiting process when the machine is taken over, which happens once.
\<close>

definition handle_event :: "'w host \<Rightarrow> 'w kern \<Rightarrow> takeover_event \<Rightarrow> 'w daemon \<Rightarrow> 'w daemon" where
  "handle_event h k ev d =
     (let t = takeover_handle (ops_takeover_base k (on_state h d)) (dm_tk d) ev
      in d\<lparr>dm_tk := t, dm_ready_fd := if tk_state t = TK_TAKEN_OVER then None else dm_ready_fd d\<rparr>)"

abbreviation save_state :: "'w host \<Rightarrow> 'w daemon \<Rightarrow> 'w daemon" where
  "save_state h d \<equiv> snd (on_world (\<lambda>w. ((), write_state_file h d (dm_tk d) w)) d)"

section \<open>Probing\<close>

text \<open>What the daemon remembers of a result, and what it makes of it.\<close>

definition note_probe :: "'w host \<Rightarrow> rc \<Rightarrow> 'w daemon \<Rightarrow> 'w daemon" where
  "note_probe h err d =
     (let r = probe_classify err;
          d = (if r \<noteq> dm_last_result d \<or> \<not> dm_probe_reported d \<or> r = PROBE_ERROR \<and> err \<noteq> dm_last_probe_err d
               then save_state h (d\<lparr>dm_last_result := r, dm_probe_reported := True\<rparr>) else d);
          (now, d) = on_world (now_ms h) (d\<lparr>dm_last_probe_err := err\<rparr>)
      in d\<lparr>dm_last_probe_ms := now\<rparr>)"

definition deliver_probe :: "'w host \<Rightarrow> 'w kern \<Rightarrow> rc \<Rightarrow> 'w daemon \<Rightarrow> 'w daemon" where
  "deliver_probe h k err d =
     (let d = note_probe h err d in
      case probe_classify err of
        PROBE_ALIVE \<Rightarrow> handle_event h k TK_EV_PROBE_ALIVE d
      | PROBE_SILENT \<Rightarrow> handle_event h k TK_EV_PROBE_SILENT d
      | PROBE_ERROR \<Rightarrow> d)"

text \<open>A new probe, once the last one is out of the way.\<close>

definition start_probe :: "'w host \<Rightarrow> 'w kern \<Rightarrow> 'w daemon \<Rightarrow> 'w daemon" where
  "start_probe h k d =
     (case on_world (probe_start h PROBE_CID_PREDECESSOR PROBE_PORT) d of
        (Inl e, d) \<Rightarrow> deliver_probe h k (Some e) d
      | (Inr fd, d) \<Rightarrow>
          (case on_world (hs_epoll_add h (dm_epfd d) fd) d of
             (Some e, d) \<Rightarrow> deliver_probe h k (Some EIO) (snd (on_world (\<lambda>w. ((), hs_close h fd w)) d))
           | (None, d) \<Rightarrow> d\<lparr>dm_probe_fd := Some fd\<rparr>))"

definition on_tick :: "'w host \<Rightarrow> 'w kern \<Rightarrow> 'w daemon \<Rightarrow> 'w daemon" where
  "on_tick h k d =
     (let (ok, d) = on_world (hs_timer_read h (dm_timer_fd d)) d in
      if \<not> ok then d
      else if dm_state d \<ge> TK_FENCING then d
      else
        let d = (case dm_probe_fd d of
                   None \<Rightarrow> d
                 | Some fd \<Rightarrow> deliver_probe h k (Some ETIMEDOUT) ((snd (on_world (\<lambda>w. ((), hs_close h fd w)) d))\<lparr>dm_probe_fd := None\<rparr>))
        in start_probe h k d)"

definition on_probe_ready :: "'w host \<Rightarrow> 'w kern \<Rightarrow> nat \<Rightarrow> 'w daemon \<Rightarrow> 'w daemon" where
  "on_probe_ready h k fd d =
     (let (err, d) = on_world (probe_finish h fd) d in deliver_probe h k err (d\<lparr>dm_probe_fd := None\<rparr>))"

section \<open>Requests\<close>

text \<open>Whether the handover is accepted, and the reply.\<close>

definition answer_handover :: "'w daemon \<Rightarrow> nat \<Rightarrow> bool \<times> nat res \<times> string" where
  "answer_handover d len =
     (let accepted = (dm_state d = TK_ARMED \<and> dm_last_result d = PROBE_ALIVE);
          reason = snd (snprintf 64 (''state='' @ takeover_state_name (dm_state d) @
            '' predecessor='' @ probe_result_name (dm_last_result d)))
      in (accepted, request_format_handover (if accepted then None else Some reason) len))"

definition answer_network :: "'w kern \<Rightarrow> string \<Rightarrow> nat \<Rightarrow> 'w daemon \<Rightarrow> (nat res \<times> string) \<times> 'w daemon" where
  "answer_network k txt len d =
     (if dm_state d \<ge> TK_FENCING
      then (request_format_network_reply (Some (snd (snprintf 64 (''state='' @ takeover_state_name (dm_state d))))) len, d)
      else
        let (r, snap) = netsnap_parse txt in
        if r \<noteq> None then (request_format_network_reply (Some ''malformed'') len, d)
        else
          let d = set_env (\<lambda>e. e\<lparr>oe_network := Some snap\<rparr>) d;
              (r, d) = on_world (sys_write (k_sys k) STANDBY_NETWORK txt) d
          in (request_format_network_reply None len, d))"

definition REQUEST_WAIT_MS :: u64 where "REQUEST_WAIT_MS = 500"
definition REQUEST_LINE_MAX :: nat where "REQUEST_LINE_MAX = 64"

text \<open>
  What the buffer of \<open>cap\<close> bytes says after more data arrived, when the line was
  not known before: still nothing, an error, or the line's length with the
  request.
\<close>

definition request_head :: "nat \<Rightarrow> string \<Rightarrow> (nat \<times> request_kind \<times> nat) option res" where
  "request_head cap buf =
     (if CHR 0x0A \<notin> set buf then Inr None
      else
        let line = length (takeWhile (\<lambda>c. c \<noteq> CHR 0x0A) buf) + 1 in
        if line > REQUEST_LINE_MAX then Inl EINVAL
        else case request_parse (cstr (take line buf)) of
               Inl e \<Rightarrow> Inl EINVAL
             | Inr (kind, payload) \<Rightarrow> if line + unat payload \<ge> cap then Inl E2BIG else Inr (Some (line, kind, unat payload)))"

text \<open>
  The loop: \<open>buf\<close> is what was received, \<open>head\<close> the line once it is known.  The
  result is the request and its payload as the C string behind the line.
\<close>

function read_loop :: "'w host \<Rightarrow> nat \<Rightarrow> nat \<Rightarrow> u64 \<Rightarrow> string \<Rightarrow> (nat \<times> request_kind \<times> nat) option \<Rightarrow> 'w \<Rightarrow> (request_kind \<times> string) res \<times> 'w" where
  "read_loop h fd cap deadline buf head w =
     (let (now, w) = now_ms h w in
      if now \<ge> deadline then (Inl ETIMEDOUT, w)
      else
        let (ready, w) = hs_poll h fd (deadline - now) w in
        if \<not> ready then (Inl ETIMEDOUT, w)
        else
          case hs_recv h fd (cap - 1 - length buf) w of
            (Inl e, w) \<Rightarrow> (Inl e, w)
          | (Inr data, w) \<Rightarrow>
              let data = take (cap - 1 - length buf) data in
              if data = [] then (Inl ECONNRESET, w)
              else
                case (if head = None then request_head cap (buf @ data) else Inr head) of
                  Inl e \<Rightarrow> (Inl e, w)
                | Inr None \<Rightarrow> read_loop h fd cap deadline (buf @ data) None w
                | Inr (Some (line, kind, payload)) \<Rightarrow>
                    if length (buf @ data) \<ge> line + payload
                    then (Inr (kind, cstr (take payload (drop line (buf @ data)))), w)
                    else read_loop h fd cap deadline (buf @ data) (Some (line, kind, payload)) w)"
  by pat_completeness auto
termination
  by (relation "measure (\<lambda>(h, fd, cap, deadline, buf, head, w). cap - 1 - length buf)") (auto simp flip: length_greater_0_conv)

declare read_loop.simps [simp del]

definition read_request :: "'w host \<Rightarrow> nat \<Rightarrow> nat \<Rightarrow> 'w \<Rightarrow> (request_kind \<times> string) res \<times> 'w" where
  "read_request h fd cap w =
     (let (now, w) = now_ms h w in read_loop h fd cap (now + REQUEST_WAIT_MS) [] None w)"

abbreviation request_cap :: nat where
  "request_cap \<equiv> REQUEST_LINE_MAX + NETSNAP_TEXT_MAX"

definition answer_request :: "'w host \<Rightarrow> 'w kern \<Rightarrow> nat \<Rightarrow> 'w daemon \<Rightarrow> bool \<times> 'w daemon" where
  "answer_request h k fd d =
     (let (req, d) = on_world (read_request h fd request_cap) d in
      if req = Inl ETIMEDOUT \<or> req = Inl ECONNRESET then (False, d)
      else
        let (accepted, (len, reply), d) =
              (case req of
                 Inl e \<Rightarrow> (False, (Inr (length (''err unsupported request'' @ [CHR 0x0A])), ''err unsupported request'' @ [CHR 0x0A]), d)
               | Inr (REQUEST_HANDOVER, _) \<Rightarrow> let (a, r) = answer_handover d 128 in (a, r, d)
               | Inr (REQUEST_NETWORK, txt) \<Rightarrow> let (r, d) = answer_network k txt 128 d in (False, r, d)
               | Inr (REQUEST_STATUS, _) \<Rightarrow>
                   let (r, d) = on_world (fill_status h d (dm_tk d)) d in (False, request_format_status r 128, d));
            d = (case len of Inr n \<Rightarrow> snd (on_world (hs_send h fd reply) d) | Inl e \<Rightarrow> d)
        in (accepted, d))"

definition take_handover :: "'w host \<Rightarrow> 'w kern \<Rightarrow> 'w daemon \<Rightarrow> 'w daemon" where
  "take_handover h k d =
     handle_event h k TK_EV_REQUEST (set_env (\<lambda>e. e\<lparr>oe_dump_path := None\<rparr>) (d\<lparr>dm_handed_over := True\<rparr>))"

definition on_connection :: "'w host \<Rightarrow> 'w kern \<Rightarrow> nat \<Rightarrow> 'w daemon \<Rightarrow> 'w daemon" where
  "on_connection h k listen_fd d =
     (case on_world (hs_accept h listen_fd) d of
        (Inl e, d) \<Rightarrow> d
      | (Inr fd, d) \<Rightarrow>
          let (handover, d) = answer_request h k fd d;
              d = snd (on_world (\<lambda>w. ((), hs_close h fd w)) d)
          in if handover then take_handover h k d else d)"

section \<open>Setting up and running\<close>

definition open_listener :: "'w host \<Rightarrow> 'w \<Rightarrow> nat res \<times> 'w" where
  "open_listener h w =
     (case vsock_multikernel_socket h SOCK_NONBLOCK w of
        (Inl e, w) \<Rightarrow> (Inl e, w)
      | (Inr fd, w) \<Rightarrow>
          (case hs_bind h fd VSOCK_CID_ANY KMORPH_VSOCK_PORT w of
             (Some e, w) \<Rightarrow> (Inl e, hs_close h fd w)
           | (None, w) \<Rightarrow>
               (case hs_listen h fd 4 w of
                  (Some e, w) \<Rightarrow> (Inl e, hs_close h fd w)
                | (None, w) \<Rightarrow> (Inr fd, w))))"

text \<open>The interval and the first expiration are the same; seconds and nanoseconds.\<close>

definition open_timer :: "'w host \<Rightarrow> u64 \<Rightarrow> 'w \<Rightarrow> nat res \<times> 'w" where
  "open_timer h interval_ms w =
     (case hs_timer_create h w of
        (Inl e, w) \<Rightarrow> (Inl e, w)
      | (Inr fd, w) \<Rightarrow>
          (case hs_timer_set h fd (interval_ms div 1000) ((interval_ms mod 1000) * 1000000) w of
             (Some e, w) \<Rightarrow> (Inl e, hs_close h fd w)
           | (None, w) \<Rightarrow> (Inr fd, w)))"

definition open_signals :: "'w host \<Rightarrow> bool \<Rightarrow> 'w \<Rightarrow> nat res \<times> 'w" where
  "open_signals h init w =
     (case hs_block_signals h init w of
        (Some e, w) \<Rightarrow> (Inl e, w)
      | (None, w) \<Rightarrow> hs_signalfd h init w)"

definition load_network :: "'w sys \<Rightarrow> 'w \<Rightarrow> netsnap option" where
  "load_network sys w =
     (case filter (\<lambda>p. \<not> isl (read_string sys w p)) [STANDBY_NETWORK, NETSNAP_PATH] of
        [] \<Rightarrow> None
      | p # _ \<Rightarrow>
          (case read_string sys w p of
             Inl e \<Rightarrow> None
           | Inr txt \<Rightarrow>
               let (r, snap) = netsnap_parse txt
               in if r \<noteq> None \<or> ns_links snap = [] then None else Some snap))"

definition daemon_env :: "'w host \<Rightarrow> 'w kern \<Rightarrow> 'w netsnap_env \<Rightarrow> kmorph_config \<Rightarrow> 'w \<Rightarrow> 'w ops_env" where
  "daemon_env h k net cfg w =
     \<lparr>oe_devtree_root = ''/proc/device-tree'', oe_sysfs_root = ''/sys/fs/multikernel'', oe_iomem_path = ''/proc/iomem'',
      oe_mem_path = ''/dev/mem'', oe_block_size_path = ''/sys/devices/system/memory/block_size_bytes'',
      oe_dump_path = cf_dump cfg, oe_pci_bus = ''/sys/bus/pci'', oe_reset_devices = cf_reset_devices cfg,
      oe_fence_fn = mksys_fence h, oe_network = load_network (k_sys k) w, oe_net_env = Some net,
      oe_net_restored_path = Some (STATE_DIR @ ''/network-restored''), oe_next_memory = cf_memory cfg,
      oe_pool_claim_path = Some ''/run/kmorph/pool-memory''\<rparr>"

text \<open>
  The daemon of \<open>main\<close>: a configuration, whether it is init and the pipe to a
  waiting process; everything else is zero.
\<close>

definition daemon_zero :: "bool \<Rightarrow> kmorph_config \<Rightarrow> nat option \<Rightarrow> 'w ops \<Rightarrow> 'w \<Rightarrow> 'w daemon" where
  "daemon_zero init cfg ready o' w =
     \<lparr>dm_init = init, dm_cfg = cfg, dm_tk = takeover_init (o', w) (cf_probe_timeouts cfg) (cf_fence_retries cfg),
      dm_epfd = 0, dm_timer_fd = 0, dm_signal_fd = 0, dm_listen_fd = None, dm_probe_fd = None,
      dm_last_result = PROBE_ERROR, dm_last_probe_err = None, dm_last_probe_ms = 0, dm_probe_reported = False,
      dm_handed_over = False, dm_ready_fd = ready\<rparr>"

abbreviation mount_multikernel :: "'w host \<Rightarrow> 'w \<Rightarrow> rc \<times> 'w" where
  "mount_multikernel h w \<equiv>
     (let (r, w) = hs_mkdir h ''/sys/fs/multikernel'' w
      in hs_mount h ''none'' ''/sys/fs/multikernel'' (Some ''multikernel'') 0 None w)"

text \<open>
  The descriptors, and their registration.  When one of the first three is
  missing the error is the last one that a call left in \<open>errno\<close>.
\<close>

definition open_descriptors :: "'w host \<Rightarrow> 'w daemon \<Rightarrow> rc \<times> 'w daemon" where
  "open_descriptors h d =
     (let (ep, d) = on_world (hs_epoll_create h) d;
          (tm, d) = on_world (open_timer h (cf_probe_interval_ms (dm_cfg d))) d;
          (sg, d) = on_world (open_signals h (dm_init d)) d;
          (ls, d) = on_world (open_listener h) d
      in case (ep, tm, sg) of
           (Inr ep, Inr tm, Inr sg) \<Rightarrow>
             let d = d\<lparr>dm_epfd := ep, dm_timer_fd := tm, dm_signal_fd := sg,
                       dm_listen_fd := (case ls of Inl e \<Rightarrow> None | Inr fd \<Rightarrow> Some fd)\<rparr>
             in try_all
                  [\<lambda>d. on_world (hs_epoll_add h (dm_epfd d) (dm_timer_fd d)) d,
                   \<lambda>d. on_world (hs_epoll_add h (dm_epfd d) (dm_signal_fd d)) d,
                   \<lambda>d. case dm_listen_fd d of None \<Rightarrow> (None, d) | Some fd \<Rightarrow> on_world (hs_epoll_add h (dm_epfd d) fd) d] d
         | _ \<Rightarrow> (map_option projl (find isl [ls, sg, tm, ep]), d))"

definition daemon_setup ::
    "'w host \<Rightarrow> 'w kern \<Rightarrow> 'w netsnap_env \<Rightarrow> bool \<Rightarrow> kmorph_config \<Rightarrow> nat option \<Rightarrow> 'w \<Rightarrow> rc \<times> 'w daemon" where
  "daemon_setup h k net init cfg ready w =
     (let env = daemon_env h k net cfg w; d = daemon_zero init cfg ready (ops_zero env) w in
      if \<not> devtree_has_host_tree (k_sys k) w ''/proc/device-tree'' then (Some ENOENT, d)
      else
        let (r, w) = mkfs_mount (mount_multikernel h) (k_sys k) ''/sys/fs/multikernel'' w;
            d = daemon_zero init cfg ready (ops_zero env) w
        in if r \<noteq> None then (r, d)
           else
             let (r, o') = ops_init k env w; d = daemon_zero init cfg ready o' w
             in if r \<noteq> None then (r, d) else open_descriptors h d)"

definition SIGCHLD :: nat where "SIGCHLD = 17"

text \<open>One turn of the loop of \<open>daemon_run\<close>: whether it goes on.\<close>

definition daemon_step :: "'w host \<Rightarrow> 'w kern \<Rightarrow> 'w daemon \<Rightarrow> bool \<times> 'w daemon" where
  "daemon_step h k d =
     (case on_world (hs_epoll_wait h (dm_epfd d)) d of
        (Inl e, d) \<Rightarrow> (e = EINTR, d)
      | (Inr fd, d) \<Rightarrow>
          if fd = dm_timer_fd d then (True, on_tick h k d)
          else if Some fd = dm_probe_fd d then (True, on_probe_ready h k fd d)
          else if Some fd = dm_listen_fd d then (True, on_connection h k fd d)
          else if fd = dm_signal_fd d then
            (case on_world (hs_signal_read h fd) d of
               (None, d) \<Rightarrow> (True, d)
             | (Some signo, d) \<Rightarrow>
                 if signo = SIGCHLD then (True, snd (on_world (\<lambda>w. ((), init_reap h w)) d))
                 else (dm_init d, d))
          else (True, d))"

text \<open>The loop itself may run forever: the result is there when it returns.\<close>

partial_function (option) daemon_loop :: "'w host \<Rightarrow> 'w kern \<Rightarrow> 'w daemon \<Rightarrow> 'w daemon option" where
  "daemon_loop h k d = (case daemon_step h k d of (go, d') \<Rightarrow> if go then daemon_loop h k d' else Some d')"

definition daemon_run :: "'w host \<Rightarrow> 'w kern \<Rightarrow> 'w daemon \<Rightarrow> 'w daemon option" where
  "daemon_run h k d = daemon_loop h k (save_state h d)"

text \<open>The states the daemon passes through.\<close>

inductive daemon_reaches :: "'w host \<Rightarrow> 'w kern \<Rightarrow> 'w daemon \<Rightarrow> 'w daemon \<Rightarrow> bool" for h k d where
  reach_start: "daemon_reaches h k d (save_state h d)"
| reach_step: "daemon_reaches h k d d' \<Longrightarrow> daemon_step h k d' = (True, d'') \<Longrightarrow> daemon_reaches h k d d''"

section \<open>What calls on the world leave alone\<close>

lemma on_world_fields:
  assumes "on_world f d = (x, d')"
  shows "dm_probe_fd d' = dm_probe_fd d" "dm_state d' = dm_state d" "tk_fence_attempts (dm_tk d') = tk_fence_attempts (dm_tk d)"
    "dm_last_result d' = dm_last_result d" "dm_ops d' = dm_ops d" "dm_handed_over d' = dm_handed_over d"
    "dm_cfg d' = dm_cfg d" "dm_init d' = dm_init d" "f (dm_world d) = (x, dm_world d')"
    "tk_silent (dm_tk d') = tk_silent (dm_tk d)"
  using assms by (auto simp: on_world_def split: prod.splits)

lemma on_world_snd [simp]:
  "dm_probe_fd (snd (on_world f d)) = dm_probe_fd d" "dm_state (snd (on_world f d)) = dm_state d"
  "tk_fence_attempts (dm_tk (snd (on_world f d))) = tk_fence_attempts (dm_tk d)"
  "dm_last_result (snd (on_world f d)) = dm_last_result d" "dm_ops (snd (on_world f d)) = dm_ops d"
  "dm_handed_over (snd (on_world f d)) = dm_handed_over d"
  "dm_world (snd (on_world f d)) = snd (f (dm_world d))"
  by (simp_all add: on_world_def split: prod.splits)

lemma set_env_fields [simp]:
  "dm_probe_fd (set_env f d) = dm_probe_fd d" "dm_state (set_env f d) = dm_state d"
  "tk_fence_attempts (dm_tk (set_env f d)) = tk_fence_attempts (dm_tk d)"
  "dm_last_result (set_env f d) = dm_last_result d" "dm_handed_over (set_env f d) = dm_handed_over d"
  "dm_world (set_env f d) = dm_world d" "dm_ops (set_env f d) = (dm_ops d)\<lparr>o_env := f (o_env (dm_ops d))\<rparr>"
  by (simp_all add: set_env_def)

lemma handle_event_fields [simp]:
  "dm_probe_fd (handle_event h k ev d) = dm_probe_fd d" "dm_last_result (handle_event h k ev d) = dm_last_result d"
  "dm_handed_over (handle_event h k ev d) = dm_handed_over d"
  "dm_tk (handle_event h k ev d) = takeover_handle (ops_takeover_base k (on_state h d)) (dm_tk d) ev"
  by (simp_all add: handle_event_def Let_def)

section \<open>How often the fence is tried\<close>

lemma tk_step_fields:
  "tk_step op t = (r, t') \<Longrightarrow> tk_fence_attempts t' = tk_fence_attempts t \<and> tk_state t' = tk_state t"
  "tk_fence_attempts (snd (tk_step op t)) = tk_fence_attempts t \<and> tk_state (snd (tk_step op t)) = tk_state t"
  by (auto simp: tk_step_eq) (simp_all add: tk_step_def split: prod.splits)

lemma continue_attempts:
  "tk_fence_attempts (continue_takeover ops t) = tk_fence_attempts t"
  "tk_state (continue_takeover ops t) = tk_state t \<or> tk_state (continue_takeover ops t) = TK_TAKEN_OVER"
  by (auto simp: continue_takeover_def tk_step_fields(2) dest!: tk_step_fields(1) split: prod.splits option.splits)

lemma begin_attempts:
  "tk_fence_attempts (begin_takeover ops t) = tk_fence_attempts t + 1 \<and>
   tk_state (begin_takeover ops t) \<in> {TK_FENCE_FAILED, TK_FENCED, TK_TAKEN_OVER}"
proof -
  let ?t = "(set_state ops t TK_FENCING)\<lparr>tk_fence_attempts := tk_fence_attempts t + 1\<rparr>"
  obtain r t1 where 1: "tk_step (op_fence ops) ?t = (r, t1)" by fastforce
  then show ?thesis
    using tk_step_fields(1) [OF 1] continue_attempts [of ops "set_state ops t1 TK_FENCED"]
    by (auto simp: begin_takeover_def Let_def split: option.split)
qed

text \<open>An event starts at most one more attempt, and none while the daemon goes on watching.\<close>

lemma handle_attempts:
  fixes t ops ev
  defines "t' \<equiv> takeover_handle ops t ev"
  shows "tk_fence_attempts t' = tk_fence_attempts t \<or> tk_fence_attempts t' = tk_fence_attempts t + 1"
    and "tk_state t' < TK_FENCING \<Longrightarrow> tk_state t < TK_FENCING \<and> tk_fence_attempts t' = tk_fence_attempts t"
  using begin_attempts [of ops t] begin_attempts [of ops "t\<lparr>tk_silent := tk_silent t + 1\<rparr>"] continue_attempts [of ops t] unfolding t'_def
  by (cases "tk_state t"; cases ev; auto simp: takeover_handle_def handle_watching_def Let_def less_takeover_state_def split: if_splits)+

lemma note_probe_fields [simp]:
  "dm_probe_fd (note_probe h err d) = dm_probe_fd d" "dm_state (note_probe h err d) = dm_state d"
  "tk_fence_attempts (dm_tk (note_probe h err d)) = tk_fence_attempts (dm_tk d)"
  "dm_handed_over (note_probe h err d) = dm_handed_over d" "dm_ops (note_probe h err d) = dm_ops d"
  by (auto simp: note_probe_def Let_def on_world_fields split: prod.splits)

lemma deliver_probe_keeps:
  fixes h :: "'w host" and k :: "'w kern" and d :: "'w daemon" and err :: rc
  defines "d' \<equiv> deliver_probe h k err d"
  shows "dm_probe_fd d' = dm_probe_fd d" "dm_handed_over d' = dm_handed_over d"
    and "tk_fence_attempts (dm_tk d') = tk_fence_attempts (dm_tk d) \<or> tk_fence_attempts (dm_tk d') = tk_fence_attempts (dm_tk d) + 1"
    and "dm_state d' < TK_FENCING \<Longrightarrow> dm_state d < TK_FENCING \<and> tk_fence_attempts (dm_tk d') = tk_fence_attempts (dm_tk d)"
proof -
  note handle = handle_attempts [of "ops_takeover_base k (on_state h (note_probe h err d))" "dm_tk (note_probe h err d)"]
  show "dm_probe_fd d' = dm_probe_fd d" "dm_handed_over d' = dm_handed_over d"
    by (simp_all add: d'_def deliver_probe_def Let_def split: probe_result.split)
  show "tk_fence_attempts (dm_tk d') = tk_fence_attempts (dm_tk d) \<or> tk_fence_attempts (dm_tk d') = tk_fence_attempts (dm_tk d) + 1"
    using handle(1) by (simp add: d'_def deliver_probe_def Let_def split: probe_result.split)
  show "dm_state d' < TK_FENCING \<Longrightarrow> dm_state d < TK_FENCING \<and> tk_fence_attempts (dm_tk d') = tk_fence_attempts (dm_tk d)"
    using handle(2) by (simp add: d'_def deliver_probe_def Let_def split: probe_result.splits)
qed

text \<open>While the predecessor is watched no fence was tried, afterwards at most \<open>n\<close>.\<close>

definition tried :: "nat \<Rightarrow> 'w daemon \<Rightarrow> bool" where
  "tried n d = (if dm_state d < TK_FENCING then tk_fence_attempts (dm_tk d) = 0 else unat (tk_fence_attempts (dm_tk d)) \<le> n)"

text \<open>A pending probe may lead to one more attempt.\<close>

definition retry_inv :: "'w daemon \<Rightarrow> bool" where
  "retry_inv d = tried (if dm_probe_fd d = None then 2 else 1) d"

lemma tried_cong:
  "dm_state d' = dm_state d \<Longrightarrow> tk_fence_attempts (dm_tk d') = tk_fence_attempts (dm_tk d) \<Longrightarrow> tried n d' = tried n d"
  by (simp add: tried_def)

lemma retry_cong:
  "dm_probe_fd d' = dm_probe_fd d \<Longrightarrow> dm_state d' = dm_state d \<Longrightarrow>
   tk_fence_attempts (dm_tk d') = tk_fence_attempts (dm_tk d) \<Longrightarrow> retry_inv d' = retry_inv d"
  by (simp add: retry_inv_def tried_def)

lemma tried_mono: "tried m d \<Longrightarrow> m \<le> n \<Longrightarrow> tried n d"
  by (auto simp: tried_def split: if_splits)

lemma tried_bound: "tried n d \<Longrightarrow> unat (tk_fence_attempts (dm_tk d)) \<le> n"
  by (auto simp: tried_def split: if_splits)

lemma tried_watching: "tried n d \<Longrightarrow> dm_state d < TK_FENCING \<Longrightarrow> tried 0 d"
  by (simp add: tried_def)

lemma unat_small_Suc: "unat (x :: u32) \<le> 2 \<Longrightarrow> unat (x + 1) = unat x + 1"
  by (subst unat_add_lem [THEN iffD1]) simp_all

lemma tried_deliver:
  assumes "tried n d" and "n \<le> 1"
  shows "tried (Suc n) (deliver_probe h k err d)"
proof -
  have "unat (tk_fence_attempts (dm_tk d)) \<le> n" using assms(1) by (rule tried_bound)
  then show ?thesis
    using deliver_probe_keeps(3,4) [of h k err d] assms unat_small_Suc [of "tk_fence_attempts (dm_tk d)"]
    by (auto simp: tried_def split: if_splits)
qed

lemma retry_start_probe:
  assumes "tried 1 d" and "dm_probe_fd d = None"
  shows "retry_inv (start_probe h k d)"
proof -
  obtain r d1 where 1: "on_world (probe_start h PROBE_CID_PREDECESSOR PROBE_PORT) d = (r, d1)" by (rule prod.exhaust)
  have d1: "tried 1 d1" "dm_probe_fd d1 = None" using assms on_world_fields(1-3) [OF 1] by (simp_all cong: tried_cong)
  show ?thesis
  proof (cases r)
    case (Inl e)
    then show ?thesis using tried_deliver [OF d1(1)] d1(2) by (simp add: start_probe_def 1 retry_inv_def deliver_probe_keeps numeral_2_eq_2)
  next
    case (Inr fd)
    obtain r2 d2 where 2: "on_world (hs_epoll_add h (dm_epfd d1) fd) d1 = (r2, d2)" by (rule prod.exhaust)
    have d2: "tried 1 d2" "dm_probe_fd d2 = None" using d1 on_world_fields(1-3) [OF 2] by (simp_all cong: tried_cong)
    let ?d = "snd (on_world (\<lambda>w. ((), hs_close h fd w)) d2)"
    have "tried 1 ?d" using d2(1) by (simp cong: tried_cong)
    from tried_deliver [OF this, of h k "Some EIO"] have "retry_inv (deliver_probe h k (Some EIO) ?d)"
      using d2(2) by (simp add: retry_inv_def deliver_probe_keeps numeral_2_eq_2)
    moreover have "retry_inv (d2\<lparr>dm_probe_fd := Some fd\<rparr>)" using d2(1) by (simp add: retry_inv_def tried_def)
    ultimately show ?thesis by (simp add: start_probe_def 1 2 Inr split: option.split)
  qed
qed

lemma retry_tick:
  assumes "retry_inv d"
  shows "retry_inv (on_tick h k d)"
proof -
  obtain ok d1 where 1: "on_world (hs_timer_read h (dm_timer_fd d)) d = (ok, d1)" by (rule prod.exhaust)
  have d1: "retry_inv d1" using assms retry_cong [OF on_world_fields(1-3) [OF 1]] by simp
  show ?thesis
  proof (cases "ok \<and> dm_state d1 < TK_FENCING")
    case True
    then have t: "tried 0 d1" using d1 tried_watching by (auto simp: retry_inv_def)
    let ?d = "\<lambda>fd. (snd (on_world (\<lambda>w. ((), hs_close h fd w)) d1))\<lparr>dm_probe_fd := None\<rparr>"
    have "tried 0 (?d fd)" for fd using t tried_cong [of "?d fd" d1 0] by simp
    from tried_deliver [OF this] have "retry_inv (start_probe h k (deliver_probe h k (Some ETIMEDOUT) (?d fd)))" for fd
      by (intro retry_start_probe) (simp_all add: deliver_probe_keeps)
    then show ?thesis
      using True d1 retry_start_probe [OF tried_mono [OF t], of h k] by (simp add: on_tick_def 1 split: option.split)
  qed (use d1 in \<open>auto simp: on_tick_def 1 not_less\<close>)
qed

lemma retry_probe_ready:
  assumes "retry_inv d" and "dm_probe_fd d = Some fd"
  shows "retry_inv (on_probe_ready h k fd d)"
proof -
  obtain err d1 where 1: "on_world (probe_finish h fd) d = (err, d1)" by (rule prod.exhaust)
  have "tried 1 (d1\<lparr>dm_probe_fd := None\<rparr>)" using assms on_world_fields(2,3) [OF 1] by (simp add: retry_inv_def tried_def)
  from tried_deliver [OF this] show ?thesis
    by (simp add: on_probe_ready_def 1 retry_inv_def deliver_probe_keeps numeral_2_eq_2)
qed

lemma answer_request_keeps:
  assumes "answer_request h k fd d = (acc, d')"
  shows "dm_probe_fd d' = dm_probe_fd d" "dm_state d' = dm_state d" "tk_fence_attempts (dm_tk d') = tk_fence_attempts (dm_tk d)"
    "dm_last_result d' = dm_last_result d" "dm_handed_over d' = dm_handed_over d"
    "acc \<Longrightarrow> dm_state d = TK_ARMED \<and> dm_last_result d = PROBE_ALIVE"
  using assms
  by (auto simp: answer_request_def answer_network_def answer_handover_def Let_def on_world_fields
    split: prod.splits if_splits sum.splits request_kind.splits)

lemma tried_request:
  assumes "dm_state d < TK_FENCING" and "tried 1 d"
  shows "tried 1 (handle_event h k TK_EV_REQUEST d)"
proof -
  let ?ops = "ops_takeover_base k (on_state h d)"
  have "tk_fence_attempts (dm_tk d) = 0" using assms by (simp add: tried_def)
  then show ?thesis
    using handle_attempts [of ?ops "dm_tk d" TK_EV_REQUEST] by (auto simp: tried_def split: if_splits)
qed

lemma retry_connection:
  assumes "retry_inv d"
  shows "retry_inv (on_connection h k listen_fd d)"
proof -
  obtain r d1 where 1: "on_world (hs_accept h listen_fd) d = (r, d1)" by (rule prod.exhaust)
  have d1: "retry_inv d1" using assms retry_cong [OF on_world_fields(1-3) [OF 1]] by simp
  show ?thesis
  proof (cases r)
    case (Inr fd)
    obtain acc d2 where 2: "answer_request h k fd d1 = (acc, d2)" by (rule prod.exhaust)
    let ?d = "snd (on_world (\<lambda>w. ((), hs_close h fd w)) d2)"
    let ?h = "set_env (\<lambda>e. e\<lparr>oe_dump_path := None\<rparr>) (?d\<lparr>dm_handed_over := True\<rparr>)"
    note f = answer_request_keeps [OF 2]
    have d2: "retry_inv ?d" using d1 retry_cong [of d1 ?d] f(1-3) by simp
    have "retry_inv (take_handover h k ?d)" if acc
    proof -
      have "dm_state ?h < TK_FENCING" using f(2,6) that by (simp add: less_takeover_state_def)
      moreover from this have "tried 1 ?h" using d2 by (auto simp: retry_inv_def tried_def split: if_splits)
      ultimately have "tried 1 (take_handover h k ?d)" unfolding take_handover_def by (rule tried_request)
      then show ?thesis by (auto simp: retry_inv_def intro: tried_mono)
    qed
    then show ?thesis using d2 by (simp add: on_connection_def 1 2 Inr Let_def)
  qed (use d1 in \<open>simp add: on_connection_def 1\<close>)
qed

lemma retry_step:
  assumes "retry_inv d" and "daemon_step h k d = (go, d')"
  shows "retry_inv d'"
proof -
  obtain r d1 where 1: "on_world (hs_epoll_wait h (dm_epfd d)) d = (r, d1)" by (rule prod.exhaust)
  have d1: "retry_inv d1" using assms retry_cong [OF on_world_fields(1-3) [OF 1]] by simp
  have "retry_inv d2" if "on_world f d1 = (x, d2)" for f :: "'a \<Rightarrow> nat option \<times> 'a" and x d2
    using d1 retry_cong [OF on_world_fields(1-3) [OF that]] by simp
  moreover have "retry_inv (snd (on_world f d2)) = retry_inv d2" for f :: "'a \<Rightarrow> unit \<times> 'a" and d2 by (rule retry_cong) simp_all
  ultimately show ?thesis
    using d1 assms(2) retry_tick [OF d1] retry_probe_ready [OF d1] retry_connection [OF d1]
    by (auto simp: daemon_step_def 1 split: sum.splits if_splits prod.splits option.splits)
qed

text \<open>A daemon that has only just started, and the pieces of the setup that keep it so.\<close>

definition fresh :: "'w daemon \<Rightarrow> bool" where
  "fresh d = (dm_state d = TK_ARMED \<and> tk_fence_attempts (dm_tk d) = 0 \<and> dm_probe_fd d = None \<and> \<not> dm_handed_over d)"

lemma on_world_fresh: "on_world f d = (x, d') \<Longrightarrow> fresh d' = fresh d"
  by (simp add: fresh_def on_world_fields)

lemma open_descriptors_keeps:
  assumes "open_descriptors h d = (r, d')"
  shows "fresh d' = fresh d" "dm_ops d' = dm_ops d"
proof -
  obtain ep d1 where 1: "on_world (hs_epoll_create h) d = (ep, d1)" by (rule prod.exhaust)
  obtain tm d2 where 2: "on_world (open_timer h (cf_probe_interval_ms (dm_cfg d1))) d1 = (tm, d2)" by (rule prod.exhaust)
  obtain sg d3 where 3: "on_world (open_signals h (dm_init d2)) d2 = (sg, d3)" by (rule prod.exhaust)
  obtain ls d4 where 4: "on_world (open_listener h) d3 = (ls, d4)" by (rule prod.exhaust)
  have d4: "fresh d4 = fresh d" "dm_ops d4 = dm_ops d"
    using on_world_fresh [OF 1] on_world_fresh [OF 2] on_world_fresh [OF 3] on_world_fresh [OF 4]
      on_world_fields(5) [OF 1] on_world_fields(5) [OF 2] on_world_fields(5) [OF 3] on_world_fields(5) [OF 4] by simp_all
  have "fresh (d4\<lparr>dm_epfd := a, dm_timer_fd := b, dm_signal_fd := c, dm_listen_fd := e\<rparr>) = fresh d4" for a b c e by (simp add: fresh_def)
  then show "fresh d' = fresh d" "dm_ops d' = dm_ops d"
    using assms d4 unfolding open_descriptors_def
    by (auto simp: 1 2 3 4 Let_def on_world_fields(5) on_world_fresh split: sum.splits prod.splits option.splits)
qed

lemma daemon_setup_fresh:
  assumes "daemon_setup h k net init cfg ready w = (r, d)"
  shows "fresh d" "\<exists>w'. o_env (dm_ops d) = daemon_env h k net cfg w'"
proof -
  have z: "fresh (daemon_zero init cfg ready o' v)" "dm_ops (daemon_zero init cfg ready o' v) = o'" for o' and v :: 'a
    by (simp_all add: fresh_def daemon_zero_def takeover_init_def)
  have e: "o_env (ops_zero env) = env" for env :: "'a ops_env" by (simp add: ops_zero_def)
  show "fresh d"
    using assms z(1) by (auto simp: daemon_setup_def Let_def dest!: open_descriptors_keeps(1) split: prod.splits if_splits)
  show "\<exists>w'. o_env (dm_ops d) = daemon_env h k net cfg w'"
    using assms
    by (auto simp: daemon_setup_def Let_def z(2) e intro!: exI [of _ w] dest!: open_descriptors_keeps(2) ops_init_env split: prod.splits if_splits)
qed

lemma retry_reaches:
  assumes "daemon_reaches h k d0 d" and "fresh d0"
  shows "retry_inv d"
  using assms(1)
proof induction
  case reach_start
  have "retry_inv d0" using assms(2) by (simp add: fresh_def retry_inv_def tried_def less_takeover_state_def)
  then show ?case using retry_cong [of "save_state h d0" d0] by simp
qed (rule retry_step)

lemma no_retry_step:
  assumes "dm_state d = TK_FENCE_FAILED" and "dm_probe_fd d = None" and "daemon_step h k d = (go, d')"
  shows "dm_state d' = TK_FENCE_FAILED \<and> dm_probe_fd d' = None"
proof -
  have tick: "dm_state (on_tick h k d1) = TK_FENCE_FAILED \<and> dm_probe_fd (on_tick h k d1) = None"
    if "dm_state d1 = TK_FENCE_FAILED" and "dm_probe_fd d1 = None" for d1 :: "'a daemon"
    using that by (auto simp: on_tick_def less_eq_takeover_state_def on_world_fields(1,2) split: prod.splits)
  have conn: "dm_state (on_connection h k fd d1) = TK_FENCE_FAILED \<and> dm_probe_fd (on_connection h k fd d1) = None"
    if "dm_state d1 = TK_FENCE_FAILED" and "dm_probe_fd d1 = None" for d1 :: "'a daemon" and fd
    using that answer_request_keeps(6) [OF _ TrueI]
    by (fastforce simp: on_connection_def Let_def on_world_fields(1,2) answer_request_keeps(1,2) split: prod.splits sum.splits)
  show ?thesis
    using assms tick conn
    by (auto simp: daemon_step_def on_world_fields(1,2) split: sum.splits if_splits prod.splits option.splits)
qed

lemma no_retry_reaches:
  assumes "daemon_reaches h k d0 d" and "dm_state d0 = TK_FENCE_FAILED" and "dm_probe_fd d0 = None"
  shows "dm_state d = TK_FENCE_FAILED \<and> dm_probe_fd d = None"
  using assms(1)
proof induction
  case (reach_step d' d'')
  then show ?case using no_retry_step [OF _ _ reach_step.hyps(2)] by blast
qed (use assms(2,3) in simp)

text \<open>C12: The daemon tries the fence at most twice, whatever \<open>fence_retries\<close> says, and once a
  fence failed with no probe on its way the daemon stays in \<open>FENCE_FAILED\<close> for ever: the timer
  starts no further probes, so no event reaches the machine again.\<close>

theorem fence_tried_at_most_twice:
  assumes "daemon_reaches h k (snd (daemon_setup h k net init cfg ready w)) d"
  shows "unat (tk_fence_attempts (dm_tk d)) \<le> 2 \<and>
    (dm_state d = TK_FENCE_FAILED \<and> dm_probe_fd d = None \<longrightarrow>
      (\<forall>d'. daemon_reaches h k d d' \<longrightarrow> dm_state d' = TK_FENCE_FAILED))"
proof -
  have "retry_inv d" using retry_reaches [OF assms] daemon_setup_fresh(1) by (metis prod.collapse)
  then have "unat (tk_fence_attempts (dm_tk d)) \<le> 2"
    unfolding retry_inv_def by (rule order_trans [OF tried_bound]) simp
  then show ?thesis using no_retry_reaches by blast
qed

text \<open>A host whose predecessor is down and whose fence fails; every wait ends with the timer.\<close>

definition silent_host :: "unit host" where
  "silent_host =
     \<lparr>hs_clock = (\<lambda>w. ((1, 0), w)), hs_socket = (\<lambda>f w. (Inl EHOSTDOWN, w)), hs_transport = (\<lambda>fd t w. (None, w)),
      hs_connect = (\<lambda>fd c p w. (None, w)), hs_so_error = (\<lambda>fd w. (Inr None, w)), hs_bind = (\<lambda>fd c p w. (None, w)),
      hs_listen = (\<lambda>fd n w. (None, w)), hs_accept = (\<lambda>fd w. (Inl EIO, w)), hs_poll = (\<lambda>fd t w. (False, w)),
      hs_recv = (\<lambda>fd n w. (Inl EIO, w)), hs_send = (\<lambda>fd s w. (Inl EIO, w)), hs_close = (\<lambda>fd w. w),
      hs_create = (\<lambda>p t w. (Inl EIO, w)), hs_write = (\<lambda>fd s w. (Inl EIO, w)), hs_rename = (\<lambda>a b w. w),
      hs_mkdir = (\<lambda>p w. (None, w)), hs_epoll_create = (\<lambda>w. (Inr 3, w)), hs_epoll_add = (\<lambda>e fd w. (None, w)),
      hs_epoll_wait = (\<lambda>e w. (Inr 0, w)), hs_timer_create = (\<lambda>w. (Inr 0, w)), hs_timer_set = (\<lambda>fd a b w. (None, w)),
      hs_timer_read = (\<lambda>fd w. (True, w)), hs_block_signals = (\<lambda>i w. (None, w)), hs_signalfd = (\<lambda>i w. (Inr 5, w)),
      hs_signal_read = (\<lambda>fd w. (None, w)), hs_zombies = (\<lambda>w. 0), hs_reap = (\<lambda>w. w), hs_open_tty = (\<lambda>p w. (Inl EIO, w)),
      hs_serial = (\<lambda>fd w. (Inl EIO, w)), hs_set_serial = (\<lambda>fd i w. (None, w)), hs_mount = (\<lambda>s t ty f x w. (None, w)),
      hs_reboot = (\<lambda>c i w. (Some EBUSY, w)), hs_kexec_file_load = (\<lambda>a b c f w. (Some EIO, w)), hs_fork = (\<lambda>c w. (Inl EIO, w))\<rparr>"

definition no_net :: "unit netsnap_env" where
  "no_net = \<lparr>ne_find = (\<lambda>p w. (Inl ETIMEDOUT, w)), ne_talk = (\<lambda>m w. (Some EIO, w)), ne_now = (\<lambda>w. 0)\<rparr>"

definition bare_kern :: "unit kern" where
  "bare_kern = (files_kern (\<lambda>_. None))\<lparr>k_sys := (one_file [])\<lparr>sys_isdir := (\<lambda>w p. False)\<rparr>\<rparr>"

definition silent_start :: "unit daemon" where
  "silent_start = snd (daemon_setup silent_host bare_kern no_net False (config_defaults always\<lparr>cf_probe_timeouts := 1\<rparr>) None ())"

definition silent_failed :: "unit daemon" where
  "silent_failed = snd (daemon_step silent_host bare_kern (save_state silent_host silent_start))"

lemma silent_host_calls:
  "hs_epoll_wait silent_host = (\<lambda>e w. (Inr 0, w))" "hs_timer_read silent_host = (\<lambda>fd w. (True, w))"
  "hs_socket silent_host = (\<lambda>f w. (Inl EHOSTDOWN, w))" "hs_clock silent_host = (\<lambda>w. ((1, 0), w))"
  "hs_reboot silent_host = (\<lambda>c i w. (Some EBUSY, w))"
  "write_state_file silent_host d t w = w"
  by (simp_all add: silent_host_def)

lemma silent_start_eq:
  "silent_start = daemon_zero False (config_defaults always\<lparr>cf_probe_timeouts := 1\<rparr>) None
     (ops_zero (daemon_env silent_host bare_kern no_net (config_defaults always\<lparr>cf_probe_timeouts := 1\<rparr>) ())) ()"
  by (simp add: silent_start_def daemon_setup_def devtree_has_host_tree_def bare_kern_def Let_def)

lemma silent_fails:
  "fst (daemon_step silent_host bare_kern (save_state silent_host silent_start)) \<and>
   dm_state silent_failed = TK_FENCE_FAILED \<and> dm_probe_fd silent_failed = None \<and>
   tk_fence_attempts (dm_tk silent_failed) = 1 \<and> tk_fence_retries (dm_tk silent_failed) = 3"
proof -
  have o: "oe_fence_fn (o_env (ops_zero (daemon_env silent_host bare_kern no_net cfg ()))) = mksys_fence silent_host" for cfg
    by (simp add: ops_zero_def daemon_env_def)
  note defs = daemon_step_def on_tick_def start_probe_def deliver_probe_def note_probe_def on_world_def probe_start_def now_ms_def
    vsock_multikernel_socket_def probe_classify_def handle_event_def takeover_handle_def handle_watching_def begin_takeover_def
    set_state_def tk_step_def ops_takeover_base_def ops_fence_def mksys_fence_def on_state_def less_eq_takeover_state_def
  show ?thesis
    unfolding silent_failed_def silent_start_eq
    by (simp add: defs silent_host_calls daemon_zero_def takeover_init_def config_defaults_def config_zero_def Let_def o)
qed

theorem fence_tried_at_most_twice_witness:
  "dm_state silent_failed = TK_FENCE_FAILED \<and> tk_fence_attempts (dm_tk silent_failed) = 1 \<and> tk_fence_retries (dm_tk silent_failed) = 3 \<and>
   {d'. daemon_reaches silent_host bare_kern silent_failed d'} \<subseteq> {d'. dm_state d' = TK_FENCE_FAILED}"
proof -
  have "daemon_step silent_host bare_kern (save_state silent_host silent_start) = (True, silent_failed)"
    using silent_fails by (simp add: silent_failed_def prod_eq_iff)
  from fence_tried_at_most_twice [OF reach_step [OF reach_start this, unfolded silent_start_def]]
  show ?thesis using silent_fails by blast
qed

text \<open>One round of reading a request that brought data.\<close>

lemma read_loop_more:
  assumes "now_ms h w = (now, w1)" and "now < deadline" and "hs_poll h fd (deadline - now) w1 = (True, w2)"
    and "hs_recv h fd n w2 = (Inr s, w3)" and "n = cap - 1 - length buf" and "take n s \<noteq> []"
  shows "read_loop h fd cap deadline buf head w =
    (case (if head = None then request_head cap (buf @ take n s) else Inr head) of
       Inl e \<Rightarrow> (Inl e, w3)
     | Inr None \<Rightarrow> read_loop h fd cap deadline (buf @ take n s) None w3
     | Inr (Some (line, kind, payload)) \<Rightarrow>
         if length (buf @ take n s) \<ge> line + payload then (Inr (kind, cstr (take payload (drop line (buf @ take n s)))), w3)
         else read_loop h fd cap deadline (buf @ take n s) (Some (line, kind, payload)) w3)"
  using assms(2,6)
  by (subst read_loop.simps) (simp only: assms(5) [symmetric] assms(1,3,4) Let_def prod.case sum.case not_less [symmetric] if_False not_True_eq_False simp_thms)

end
