(* ===== verification/Daemon_Trace.thy ===== *)
theory Daemon_Trace
  imports Daemon
begin

text \<open>
  The daemon on a host and a kernel that log what it does to the machine.  Every
  step of the daemon keeps the log in order: before a fence of the predecessor
  succeeded there is nothing in it but what is harmless.
\<close>

section \<open>Watching the daemon\<close>

text \<open>
  The host with the log of the kernel: the files the daemon creates or replaces,
  its replies, the console it opens, what it mounts, and every fence.
\<close>

definition unlogged :: "('w \<Rightarrow> 'a \<times> 'w) \<Rightarrow> 'w \<times> io list \<Rightarrow> 'a \<times> 'w \<times> io list" where
  "unlogged f = (\<lambda>(w, l). let (x, w) = f w in (x, w, l))"

definition log_host :: "'w host \<Rightarrow> ('w \<times> io list) host" where
  "log_host h =
     \<lparr>hs_clock = unlogged (hs_clock h), hs_socket = (\<lambda>f. unlogged (hs_socket h f)),
      hs_transport = (\<lambda>fd t. unlogged (hs_transport h fd t)), hs_connect = (\<lambda>fd c p. unlogged (hs_connect h fd c p)),
      hs_so_error = (\<lambda>fd. unlogged (hs_so_error h fd)), hs_bind = (\<lambda>fd c p. unlogged (hs_bind h fd c p)),
      hs_listen = (\<lambda>fd n. unlogged (hs_listen h fd n)), hs_accept = (\<lambda>fd. unlogged (hs_accept h fd)),
      hs_poll = (\<lambda>fd t. unlogged (hs_poll h fd t)), hs_recv = (\<lambda>fd n. unlogged (hs_recv h fd n)),
      hs_send = (\<lambda>fd s. log_io (hs_send h fd s) (\<lambda>_. Io_send s)), hs_close = (\<lambda>fd (w, l). (hs_close h fd w, l)),
      hs_create = (\<lambda>p t. log_io (hs_create h p t) (\<lambda>_. Io_file p)), hs_write = (\<lambda>fd s. unlogged (hs_write h fd s)),
      hs_rename = (\<lambda>a b (w, l). (hs_rename h a b w, l @ [Io_file b])), hs_mkdir = (\<lambda>p. unlogged (hs_mkdir h p)),
      hs_epoll_create = unlogged (hs_epoll_create h), hs_epoll_add = (\<lambda>e fd. unlogged (hs_epoll_add h e fd)),
      hs_epoll_wait = (\<lambda>e. unlogged (hs_epoll_wait h e)), hs_timer_create = unlogged (hs_timer_create h),
      hs_timer_set = (\<lambda>fd a b. unlogged (hs_timer_set h fd a b)), hs_timer_read = (\<lambda>fd. unlogged (hs_timer_read h fd)),
      hs_block_signals = (\<lambda>i. unlogged (hs_block_signals h i)), hs_signalfd = (\<lambda>i. unlogged (hs_signalfd h i)),
      hs_signal_read = (\<lambda>fd. unlogged (hs_signal_read h fd)), hs_zombies = (\<lambda>(w, l). hs_zombies h w),
      hs_reap = (\<lambda>(w, l). (hs_reap h w, l)), hs_open_tty = (\<lambda>p. log_io (hs_open_tty h p) (\<lambda>_. Io_console p)),
      hs_serial = (\<lambda>fd. unlogged (hs_serial h fd)), hs_set_serial = (\<lambda>fd i. unlogged (hs_set_serial h fd i)),
      hs_mount = (\<lambda>s t ty f x. log_io (hs_mount h s t ty f x) (\<lambda>_. Io_file t)),
      hs_reboot = (\<lambda>c i. log_io (hs_reboot h c i) (if c = MK_REBOOT_CMD_HALT_FORCE then Io_fence i else Io_reboot c i)),
      hs_kexec_file_load = (\<lambda>a b c f. unlogged (hs_kexec_file_load h a b c f)), hs_fork = (\<lambda>c. unlogged (hs_fork h c))\<rparr>"

text \<open>What a log gains satisfies \<open>P\<close>.\<close>

definition extends :: "(io \<Rightarrow> bool) \<Rightarrow> 'w \<times> io list \<Rightarrow> 'w \<times> io list \<Rightarrow> bool" where
  "extends P a b = (\<exists>m. snd b = snd a @ m \<and> list_all P m)"

lemma extends_refl [simp]: "extends P a a"
  by (simp add: extends_def)

lemma extends_trans: "extends P a b \<Longrightarrow> extends P b c \<Longrightarrow> extends P a c"
  by (auto simp: extends_def)

lemma extends_mono: "extends P a b \<Longrightarrow> (\<And>x. P x \<Longrightarrow> Q x) \<Longrightarrow> extends Q a b"
  by (auto simp: extends_def list_all_iff)

lemma unlogged_extends: "unlogged f w = (x, w') \<Longrightarrow> extends P w w'"
  by (auto simp: unlogged_def extends_def split: prod.splits)

lemma log_io_extends: "log_io f ev w = (x, w') \<Longrightarrow> P (ev x) \<Longrightarrow> extends P w w'"
  by (auto simp: log_io_def extends_def split: prod.splits)

text \<open>Harmless before the fence: the state file, the identity kept for a restart, replies, and the mount of the multikernel filesystem.\<close>

fun harmless :: "io \<Rightarrow> bool" where
  "harmless (Io_file p) = (p \<in> {STATE_TMP, STATE_PATH, ''/sys/fs/multikernel''})"
| "harmless (Io_write p c r) = (p = STANDBY_NETWORK)"
| "harmless (Io_send s) = True"
| "harmless _ = False"

named_theorems quiet

lemma log_host_calls [quiet]:
  "now_ms (log_host h) w = (x1, w') \<Longrightarrow> extends P w w'"
  "hs_write (log_host h) fd s w = (x2, w') \<Longrightarrow> extends P w w'"
  "hs_mkdir (log_host h) p w = (x3, w') \<Longrightarrow> extends P w w'"
  by (auto simp: log_host_def now_ms_def split: prod.splits dest: unlogged_extends)

lemma log_close [simp]: "extends P a (hs_close (log_host h) fd b) = extends P a b"
  by (auto simp: log_host_def extends_def split: prod.split)

lemma write_state_file_extends: "extends harmless w (write_state_file (log_host h) d t w)"
proof -
  obtain r w1 where 1: "fill_status (log_host h) d t w = (r, w1)" by (rule prod.exhaust)
  have e1: "extends harmless w w1"
    using 1 by (auto simp: fill_status_def split: prod.splits if_splits dest: log_host_calls)
  obtain n line where 2: "request_format_status r 128 = (n, line)" by (rule prod.exhaust)
  obtain x w2 where 3: "hs_mkdir (log_host h) STATE_DIR w1 = (x, w2)" by (rule prod.exhaust)
  have e2: "extends harmless w w2" using extends_trans [OF e1 log_host_calls(3) [OF 3]] .
  obtain c w3 where 4: "hs_create (log_host h) STATE_TMP True w2 = (c, w3)" by (rule prod.exhaust)
  have "extends harmless w2 w3" using 4 by (auto simp: log_host_def intro: log_io_extends)
  with e2 have e3: "extends harmless w w3" by (rule extends_trans)
  have e4: "extends harmless w w4" if "hs_write (log_host h) fd s w3 = (m, w4)" for fd s m w4
    using extends_trans [OF e3 log_host_calls(2) [OF that]] .
  have e5: "extends harmless w (hs_rename (log_host h) STATE_TMP STATE_PATH w4)" if "extends harmless w w4" for w4
    using that by (auto simp: log_host_def extends_def split: prod.split)
  show ?thesis
    using e1 e3 e4 e5 by (auto simp: write_state_file_def 1 2 3 4 Let_def split: sum.split prod.split)
qed

lemma harmless_fence_first: "list_all harmless m \<Longrightarrow> fence_first harmless m"
  by (induction m) (auto split: io.split option.split)

lemma extends_fence_first:
  "extends harmless (w, l) (w', l') \<Longrightarrow> \<exists>m. l' = l @ m \<and> fence_first harmless m"
  by (auto simp: extends_def dest: harmless_fence_first)

lemma log_host_grows:
  "hs_create (log_host h) p b w = (x1, w') \<Longrightarrow> grows w w'"
  "hs_write (log_host h) fd s w = (x2, w') \<Longrightarrow> grows w w'"
  "hs_open_tty (log_host h) p w = (x3, w') \<Longrightarrow> grows w w'"
  "hs_serial (log_host h) fd w = (x4, w') \<Longrightarrow> grows w w'"
  "hs_set_serial (log_host h) fd i w = (x5, w') \<Longrightarrow> grows w w'"
  "hs_fork (log_host h) c w = (x6, w') \<Longrightarrow> grows w w'"
  by (auto simp: log_host_def grows_def unlogged_def log_io_def split: prod.splits)

lemma grows_close [simp]: "grows a (hs_close (log_host h) fd b) = grows a b"
  by (auto simp: log_host_def grows_def split: prod.split)

lemma mark_taken_over_grows: "grows w (mark_taken_over (log_host h) w)"
  by (auto simp: mark_taken_over_def split: prod.split sum.split dest: log_host_grows)

lemma report_taken_over_grows: "grows w (report_taken_over (log_host h) ready w)"
  by (auto simp: report_taken_over_def split: prod.split option.split dest: log_host_grows)

lemma console_poll_mode_grows:
  assumes "console_poll_mode (log_host h) tty w = (r, w')"
  shows "grows w w'"
proof -
  obtain o1 w1 where 1: "hs_open_tty (log_host h) (snd (snprintf 64 (''/dev/'' @ tty))) w = (o1, w1)" by (rule prod.exhaust)
  show ?thesis
  proof (cases o1)
    case (Inr fd)
    obtain i w2 where 2: "hs_serial (log_host h) fd w1 = (i, w2)" by (rule prod.exhaust)
    obtain r3 w3 where 3: "hs_set_serial (log_host h) fd 0 w2 = (r3, w3)" by (rule prod.exhaust)
    have "grows w w2" "grows w w3"
      using grows_trans [OF log_host_grows(3) [OF 1] log_host_grows(4) [OF 2]]
        grows_trans [OF _ log_host_grows(5) [OF 3]] by simp_all
    then show ?thesis using assms 1 unfolding console_poll_mode_def by (auto simp: 2 3 Inr split: sum.splits if_splits)
  qed (use assms 1 log_host_grows(3) [OF 1] in \<open>simp add: console_poll_mode_def\<close>)
qed

lemma console_start_grows: "grows w (snd (console_start (log_host h) tty baud login w))"
proof -
  obtain r w1 where 1: "console_poll_mode (log_host h) tty w = (r, w1)" by (rule prod.exhaust)
  obtain p w2 where 2: "hs_fork (log_host h) (Child_supervises tty baud login) w1 = (p, w2)" by (rule prod.exhaust)
  show ?thesis
    using grows_trans [OF console_poll_mode_grows [OF 1] log_host_grows(6) [OF 2]]
    by (simp add: console_start_def console_start_supervisor_def 1 2)
qed

lemma extends_grows: "extends P a b \<Longrightarrow> grows a b"
  by (auto simp: extends_def grows_def)

lemma on_state_log:
  assumes "tk_ctx t = (o1, w1)" and "on_state (log_host h) d t s = (o2, w2)"
  shows "o2 = o1" and "grows w1 w2" and "s \<noteq> TK_TAKEN_OVER \<Longrightarrow> extends harmless w1 w2"
proof -
  let ?w = "write_state_file (log_host h) d t w1"
  let ?w2 = "report_taken_over (log_host h) (dm_ready_fd d) ?w"
  let ?w3 = "case cf_console (dm_cfg d) of None \<Rightarrow> ?w2
     | Some tty \<Rightarrow> snd (console_start (log_host h) tty (cf_console_baud (dm_cfg d))
         (case cf_console_login (dm_cfg d) of None \<Rightarrow> [] | Some l \<Rightarrow> l) ?w2)"
  have g: "grows w1 ?w" by (rule extends_grows [OF write_state_file_extends])
  have "grows ?w2 ?w3" by (cases "cf_console (dm_cfg d)") (simp_all only: option.case grows_refl console_start_grows)
  from grows_trans [OF g grows_trans [OF report_taken_over_grows grows_trans [OF this mark_taken_over_grows]]]
  have "grows w1 (mark_taken_over (log_host h) ?w3)" .
  then show "grows w1 w2" using assms g by (auto simp: on_state_def Let_def split: if_splits)
  show "o2 = o1" "s \<noteq> TK_TAKEN_OVER \<Longrightarrow> extends harmless w1 w2"
    using assms write_state_file_extends [of w1 h d t] by (auto simp: on_state_def Let_def split: if_splits)
qed

lemma daemon_actions:
  "takeover_actions (ops_takeover_base (log_kern k) (on_state (log_host h) d)) (log_good harmless) log_fenced"
proof (rule takeover_actions_ops)
  fix t :: "(('a \<times> io list) ops \<times> 'a \<times> io list) takeover" and s o1 w1 l1 o2 w2 l2
  assume t: "tk_ctx t = (o1, w1, l1)" "on_state (log_host h) d t s = (o2, w2, l2)"
  show "o_env o2 = o_env o1 \<and> (\<exists>m. l2 = l1 @ m \<and> (s \<in> {TK_FENCED, TK_TAKEN_OVER} \<or> fence_first harmless m))"
  proof (cases "s = TK_TAKEN_OVER")
    case True
    then show ?thesis using on_state_log(1,2) [OF t] by (auto simp: grows_def)
  next
    case False
    from extends_fence_first [OF on_state_log(3) [OF t this]] obtain m where "l2 = l1 @ m" "fence_first harmless m" by (elim exE conjE)
    then show ?thesis using on_state_log(1) [OF t] by (intro conjI exI [of _ m]) simp_all
  qed
qed

interpretation dmn: takeover_actions "ops_takeover_base (log_kern k) (on_state (log_host h) d)" "log_good harmless" log_fenced
  for k h d by (rule daemon_actions)

section \<open>Nothing is taken before the fence\<close>

lemma log_host_quiet [quiet]:
  "hs_socket (log_host h) a w = (x1, w') \<Longrightarrow> extends P w w'"
  "hs_transport (log_host h) fd b w = (x2, w') \<Longrightarrow> extends P w w'"
  "hs_connect (log_host h) fd c p w = (x3, w') \<Longrightarrow> extends P w w'"
  "hs_so_error (log_host h) fd w = (x4, w') \<Longrightarrow> extends P w w'"
  "hs_accept (log_host h) fd w = (x5, w') \<Longrightarrow> extends P w w'"
  "hs_poll (log_host h) fd t w = (x6, w') \<Longrightarrow> extends P w w'"
  "hs_recv (log_host h) fd n w = (x7, w') \<Longrightarrow> extends P w w'"
  "hs_epoll_add (log_host h) e fd w = (x8, w') \<Longrightarrow> extends P w w'"
  "hs_epoll_wait (log_host h) e w = (x9, w') \<Longrightarrow> extends P w w'"
  "hs_timer_read (log_host h) fd w = (x10, w') \<Longrightarrow> extends P w w'"
  "hs_signal_read (log_host h) fd w = (x11, w') \<Longrightarrow> extends P w w'"
  by (auto simp: log_host_def dest: unlogged_extends)

lemma log_host_send [quiet]: "hs_send (log_host h) fd s w = (x, w') \<Longrightarrow> extends harmless w w'"
  by (auto simp: log_host_def intro: log_io_extends)

lemma log_reap: "extends P w (init_reap (log_host h) w)"
proof -
  have "extends P w (init_reap_loop (log_host h) n w)" for n
  proof (induction n arbitrary: w)
    case (Suc n)
    have "extends P w (hs_reap (log_host h) w)" by (auto simp: log_host_def extends_def split: prod.split)
    then show ?case using extends_trans [OF _ Suc.IH] by simp
  qed simp
  then show ?thesis by (simp add: init_reap_def)
qed

lemma vsock_quiet [quiet]: "vsock_multikernel_socket (log_host h) flags w = (x, w') \<Longrightarrow> extends P w w'"
  by (auto simp: vsock_multikernel_socket_def split: prod.splits sum.splits option.splits dest!: log_host_quiet(1,2) [where P = P] intro: extends_trans)

lemma probe_quiet [quiet]:
  "probe_start (log_host h) cid port w = (x, w') \<Longrightarrow> extends P w w'"
  "probe_finish (log_host h) fd w = (y, w') \<Longrightarrow> extends P w w'"
  by (auto simp: probe_start_def probe_finish_def split: prod.splits sum.splits option.splits if_splits
    dest!: vsock_quiet [where P = P] log_host_quiet(3,4) [where P = P] intro: extends_trans)

lemma read_loop_quiet [quiet]:
  "read_loop (log_host h) fd cap deadline buf head w = (x, w') \<Longrightarrow> extends P w w'"
proof (induction "log_host h" fd cap deadline buf head w arbitrary: x w' rule: read_loop.induct)
  case (1 fd cap deadline buf head w)
  obtain now w1 where a: "now_ms (log_host h) w = (now, w1)" by (rule prod.exhaust)
  obtain ready w2 where b: "hs_poll (log_host h) fd (deadline - now) w1 = (ready, w2)" by (rule prod.exhaust)
  obtain data w3 where c: "hs_recv (log_host h) fd (cap - 1 - length buf) w2 = (data, w3)" by (rule prod.exhaust)
  have w1: "extends P w w1" by (rule log_host_calls(1) [OF a])
  have w2: "extends P w w2" by (rule extends_trans [OF w1 log_host_quiet(6) [OF b]])
  have w3: "extends P w w3" by (rule extends_trans [OF w2 log_host_quiet(7) [OF c]])
  show ?case
  proof (cases "now < deadline \<and> ready \<and> (\<exists>s. data = Inr s \<and> take (cap - 1 - length buf) s \<noteq> [])")
    case False
    with "1.prems" w1 w2 w3 show ?thesis
      by (subst (asm) read_loop.simps) (auto simp: a b c [simplified] split: sum.splits if_splits)
  next
    case True
    then obtain s where s: "data = Inr s" by blast
    let ?s = "take (cap - 1 - length buf) s" and ?head = "if head = None then request_head cap (buf @ take (cap - 1 - length buf) s) else Inr head"
    have go: "\<not> deadline \<le> now" "\<not> \<not> ready" "?s \<noteq> []" using True s by auto
    note IH = "1.hyps" [OF a [symmetric] refl go(1) b [symmetric] refl go(2) c [symmetric] s refl go(3)]
    have b': "hs_poll (log_host h) fd (deadline - now) w1 = (True, w2)" "now < deadline" using b go by simp_all
    note run = read_loop_more [OF a b'(2,1) c [unfolded s] refl go(3), where head = head]
    show ?thesis
    proof (cases ?head)
      case (Inl e)
      then show ?thesis using run "1.prems" w3 by simp
    next
      case (Inr r)
      show ?thesis
      proof (cases r)
        case None
        have "read_loop (log_host h) fd cap deadline (buf @ ?s) None w3 = (x, w')" using run Inr None "1.prems" by simp
        then show ?thesis by (rule extends_trans [OF w3 IH(1) [OF Inr None]])
      next
        case (Some t)
        obtain line kind payload where t: "t = (line, kind, payload)" by (rule prod_cases3)
        show ?thesis
        proof (cases "length (buf @ ?s) \<ge> line + payload")
          case True
          then show ?thesis using run Inr Some t "1.prems" w3 by simp
        next
          case False
          have r: "read_loop (log_host h) fd cap deadline (buf @ ?s) (Some (line, kind, payload)) w3 = (x, w')"
            using run Inr Some t False "1.prems" by simp
          show ?thesis by (rule extends_trans [OF w3], rule IH(2) [OF Inr Some t [symmetric] refl False r])
        qed
      qed
    qed
  qed
qed

lemma read_request_quiet [quiet]: "read_request (log_host h) fd cap w = (x, w') \<Longrightarrow> extends P w w'"
  by (auto simp: read_request_def split: prod.splits dest!: log_host_calls(1) [where P = P] read_loop_quiet [where P = P] intro: extends_trans)

lemma fill_status_quiet [quiet]: "fill_status (log_host h) d t w = (r, w') \<Longrightarrow> extends P w w'"
  by (auto simp: fill_status_def split: prod.splits if_splits dest: log_host_calls)

lemma keep_network_quiet [quiet]:
  "sys_write (k_sys (log_kern k)) STANDBY_NETWORK txt w = (r, w') \<Longrightarrow> extends harmless w w'"
  by (auto simp: log_kern_def log_sys_def intro: log_io_extends)

definition trace_ok :: "('w \<times> io list) daemon \<Rightarrow> bool" where
  "trace_ok d = (log_good harmless (tk_ctx (dm_tk d)) \<and> (dm_state d \<in> {TK_FENCED, TK_TAKEN_OVER} \<longrightarrow> log_fenced (tk_ctx (dm_tk d))))"

text \<open>Up to the fence the log holds nothing but what is harmless.\<close>

definition watch_ok :: "('w \<times> io list) daemon \<Rightarrow> bool" where
  "watch_ok d = (dm_state d < TK_FENCING \<longrightarrow> list_all harmless (snd (dm_world d)))"

definition daemon_safe :: "('w \<times> io list) daemon \<Rightarrow> bool" where
  "daemon_safe d = (trace_ok d \<and> watch_ok d)"

lemma trace_world:
  assumes "daemon_safe d" and "dm_ops d' = dm_ops d" and "dm_state d' = dm_state d" and "extends harmless (dm_world d) (dm_world d')"
  shows "daemon_safe d'"
proof -
  obtain m where m: "snd (dm_world d') = snd (dm_world d) @ m" "list_all harmless m" using assms(4) by (auto simp: extends_def)
  then show ?thesis
    using assms(1-3) harmless_fence_first [OF m(2)]
    by (auto simp: daemon_safe_def trace_ok_def watch_ok_def log_good_def log_fenced_def fence_first_append split_def)
qed

lemma trace_on_world:
  assumes "on_world f d = (x, d')" and "\<And>w x w'. f w = (x, w') \<Longrightarrow> extends harmless w w'" and "daemon_safe d"
  shows "daemon_safe d'"
  using trace_world [of d d'] assms on_world_fields(2,5,9) [OF assms(1)] by blast

lemma trace_save: "daemon_safe d \<Longrightarrow> daemon_safe (save_state (log_host h) d)"
  using trace_world [of d "save_state (log_host h) d"] write_state_file_extends [of "dm_world d" h d "dm_tk d"] by simp

lemma trace_close:
  "daemon_safe d \<Longrightarrow> daemon_safe (snd (on_world (\<lambda>w. ((), hs_close (log_host h) fd w)) d))"
  using trace_world [of d "snd (on_world (\<lambda>w. ((), hs_close (log_host h) fd w)) d)"] by simp

lemma watch_handle:
  assumes "list_all harmless (snd (snd (tk_ctx t)))" and "tk_state (takeover_handle (ops_takeover_base (log_kern k) (on_state (log_host h) d)) t ev) < TK_FENCING"
    and "tk_state t < TK_FENCING"
  shows "list_all harmless (snd (snd (tk_ctx (takeover_handle (ops_takeover_base (log_kern k) (on_state (log_host h) d)) t ev))))"
proof -
  let ?ops = "ops_takeover_base (log_kern k) (on_state (log_host h) d)"
  have set: "list_all harmless (snd (snd (tk_ctx (set_state ?ops t' s))))"
    if "s \<noteq> TK_TAKEN_OVER" "list_all harmless (snd (snd (tk_ctx t')))" for t' s
  proof -
    obtain o1 w1 where 1: "tk_ctx (t'\<lparr>tk_state := s\<rparr>) = (o1, w1)" by (rule prod.exhaust)
    obtain o2 w2 where 2: "on_state (log_host h) d (t'\<lparr>tk_state := s\<rparr>) s = (o2, w2)" by (rule prod.exhaust)
    show ?thesis
      using on_state_log(3) [OF 1 2 that(1)] that(2) 1 2 by (auto simp: set_state_def ops_takeover_base_def extends_def)
  qed
  have ge: "\<not> tk_state (begin_takeover ?ops t') < TK_FENCING" for t'
    using begin_attempts [of ?ops t'] by (auto simp: less_takeover_state_def)
  show ?thesis
    using assms set ge
    by (cases "tk_state t"; cases ev)
      (auto simp: takeover_handle_def handle_watching_def Let_def less_takeover_state_def split: if_splits)
qed

lemma trace_handle:
  assumes "daemon_safe d"
  shows "daemon_safe (handle_event (log_host h) (log_kern k) ev d)"
proof -
  let ?ops = "ops_takeover_base (log_kern k) (on_state (log_host h) d)"
  have "trace_ok (handle_event (log_host h) (log_kern k) ev d)"
    using assms dmn.handle_good [of "dm_tk d" k h d ev] by (simp add: daemon_safe_def trace_ok_def)
  moreover have "watch_ok (handle_event (log_host h) (log_kern k) ev d)"
    using assms handle_attempts(2) [of ?ops "dm_tk d" ev] watch_handle [of "dm_tk d" k h d ev] by (simp add: daemon_safe_def watch_ok_def)
  ultimately show ?thesis by (simp add: daemon_safe_def)
qed

lemma safe_update [simp]:
  "daemon_safe (d\<lparr>dm_probe_fd := a\<rparr>) = daemon_safe d" "daemon_safe (d\<lparr>dm_last_result := b\<rparr>) = daemon_safe d"
  "daemon_safe (d\<lparr>dm_probe_reported := c\<rparr>) = daemon_safe d" "daemon_safe (d\<lparr>dm_last_probe_err := e\<rparr>) = daemon_safe d"
  "daemon_safe (d\<lparr>dm_last_probe_ms := m\<rparr>) = daemon_safe d" "daemon_safe (d\<lparr>dm_handed_over := f\<rparr>) = daemon_safe d"
  by (simp_all add: daemon_safe_def trace_ok_def watch_ok_def)

lemma trace_note: "daemon_safe d \<Longrightarrow> daemon_safe (note_probe (log_host h) err d)"
proof -
  assume d: "daemon_safe d"
  let ?d = "if probe_classify err \<noteq> dm_last_result d \<or> \<not> dm_probe_reported d \<or> probe_classify err = PROBE_ERROR \<and> err \<noteq> dm_last_probe_err d
    then save_state (log_host h) (d\<lparr>dm_last_result := probe_classify err, dm_probe_reported := True\<rparr>) else d"
  have "daemon_safe ?d" using d trace_save [of "d\<lparr>dm_last_result := probe_classify err, dm_probe_reported := True\<rparr>" h] by simp
  then have e: "daemon_safe (?d\<lparr>dm_last_probe_err := err\<rparr>)" by simp
  obtain now d2 where 2: "on_world (now_ms (log_host h)) (?d\<lparr>dm_last_probe_err := err\<rparr>) = (now, d2)" by (rule prod.exhaust)
  have "daemon_safe d2" by (rule trace_on_world [OF 2 log_host_calls(1) e])
  then show ?thesis using 2 by (simp add: note_probe_def Let_def)
qed

lemma trace_deliver: "daemon_safe d \<Longrightarrow> daemon_safe (deliver_probe (log_host h) (log_kern k) err d)"
  by (simp add: deliver_probe_def Let_def trace_handle trace_note split: probe_result.split)

lemma trace_start_probe:
  assumes "daemon_safe d"
  shows "daemon_safe (start_probe (log_host h) (log_kern k) d)"
proof -
  obtain r d1 where 1: "on_world (probe_start (log_host h) PROBE_CID_PREDECESSOR PROBE_PORT) d = (r, d1)" by (rule prod.exhaust)
  have d1: "daemon_safe d1" by (rule trace_on_world [OF 1 probe_quiet(1) assms])
  show ?thesis
  proof (cases r)
    case (Inr fd)
    obtain r2 d2 where 2: "on_world (hs_epoll_add (log_host h) (dm_epfd d1) fd) d1 = (r2, d2)" by (rule prod.exhaust)
    have "daemon_safe d2" by (rule trace_on_world [OF 2 log_host_quiet(8) d1])
    then show ?thesis by (simp add: start_probe_def 1 2 Inr trace_deliver trace_close split: option.split)
  qed (use trace_deliver [OF d1] in \<open>simp add: start_probe_def 1\<close>)
qed

lemma trace_tick:
  assumes "daemon_safe d"
  shows "daemon_safe (on_tick (log_host h) (log_kern k) d)"
proof -
  obtain ok d1 where 1: "on_world (hs_timer_read (log_host h) (dm_timer_fd d)) d = (ok, d1)" by (rule prod.exhaust)
  have d1: "daemon_safe d1" by (rule trace_on_world [OF 1 log_host_quiet(10) assms])
  have "daemon_safe (deliver_probe (log_host h) (log_kern k) (Some ETIMEDOUT)
      ((snd (on_world (\<lambda>w. ((), hs_close (log_host h) fd w)) d1))\<lparr>dm_probe_fd := None\<rparr>))" for fd
    by (rule trace_deliver) (use trace_close [OF d1] in simp)
  then show ?thesis using d1 by (simp add: on_tick_def 1 trace_start_probe split: option.split)
qed

lemma trace_probe_ready:
  assumes "daemon_safe d"
  shows "daemon_safe (on_probe_ready (log_host h) (log_kern k) fd d)"
proof -
  obtain err d1 where 1: "on_world (probe_finish (log_host h) fd) d = (err, d1)" by (rule prod.exhaust)
  have "daemon_safe d1" by (rule trace_on_world [OF 1 probe_quiet(2) assms])
  then have "daemon_safe (d1\<lparr>dm_probe_fd := None\<rparr>)" by simp
  from trace_deliver [OF this] show ?thesis by (simp add: on_probe_ready_def 1)
qed

lemma trace_set_env:
  assumes "daemon_safe d" and "\<And>e. oe_fence_fn (f e) = oe_fence_fn e" and "\<And>e. oe_net_env (f e) = oe_net_env e"
  shows "daemon_safe (set_env f d)"
  using assms by (auto simp: daemon_safe_def trace_ok_def watch_ok_def set_env_def log_good_def log_fenced_def logs_env_def split_def)

lemma trace_answer_network:
  assumes "daemon_safe d" and "answer_network (log_kern k) txt len d = (r, d')"
  shows "daemon_safe d'"
proof -
  obtain e snap where 1: "netsnap_parse txt = (e, snap)" by (rule prod.exhaust)
  let ?d = "set_env (\<lambda>e. e\<lparr>oe_network := Some snap\<rparr>) d"
  obtain x d2 where 2: "on_world (sys_write (k_sys (log_kern k)) STANDBY_NETWORK txt) ?d = (x, d2)" by (rule prod.exhaust)
  have s: "daemon_safe ?d" by (rule trace_set_env [OF assms(1)]) simp_all
  have "daemon_safe d2" by (rule trace_on_world [OF 2 keep_network_quiet s])
  then show ?thesis using assms 2 by (auto simp: answer_network_def 1 Let_def split: if_splits)
qed

lemma trace_answer:
  assumes "daemon_safe d" and "answer_request (log_host h) (log_kern k) fd d = (acc, d')"
  shows "daemon_safe d'"
proof -
  obtain req d1 where 1: "on_world (read_request (log_host h) fd request_cap) d = (req, d1)" by (rule prod.exhaust)
  have d1: "daemon_safe d1" by (rule trace_on_world [OF 1 read_request_quiet assms(1)])
  obtain r2 d2 where 2: "on_world (fill_status (log_host h) d1 (dm_tk d1)) d1 = (r2, d2)" by (rule prod.exhaust)
  have d2: "daemon_safe d2" by (rule trace_on_world [OF 2 fill_status_quiet d1])
  have send: "daemon_safe (snd (on_world (hs_send (log_host h) fd reply) d3))" if "daemon_safe d3" for reply d3
  proof -
    obtain x d4 where 4: "on_world (hs_send (log_host h) fd reply) d3 = (x, d4)" by (rule prod.exhaust)
    show ?thesis using trace_on_world [OF 4 log_host_send that] by (simp add: 4)
  qed
  have net: "daemon_safe d3" if "answer_network (log_kern k) s 128 d1 = (r, d3)" for s r d3
    by (rule trace_answer_network [OF d1 that])
  show ?thesis
    using assms(2) d1 d2 send net unfolding answer_request_def 1
    by (auto simp: 2 Let_def split: prod.splits if_splits sum.splits request_kind.splits)
qed

lemma trace_connection:
  assumes "daemon_safe d"
  shows "daemon_safe (on_connection (log_host h) (log_kern k) listen_fd d)"
proof -
  obtain r d1 where 1: "on_world (hs_accept (log_host h) listen_fd) d = (r, d1)" by (rule prod.exhaust)
  have d1: "daemon_safe d1" by (rule trace_on_world [OF 1 log_host_quiet(5) assms])
  show ?thesis
  proof (cases r)
    case (Inr fd)
    obtain acc d2 where 2: "answer_request (log_host h) (log_kern k) fd d1 = (acc, d2)" by (rule prod.exhaust)
    have d2: "daemon_safe (snd (on_world (\<lambda>w. ((), hs_close (log_host h) fd w)) d2))" (is "daemon_safe ?d")
      by (rule trace_close [OF trace_answer [OF d1 2]])
    have "daemon_safe (take_handover (log_host h) (log_kern k) ?d)"
      unfolding take_handover_def by (rule trace_handle, rule trace_set_env) (use d2 in simp_all)
    then show ?thesis using d2 by (simp add: on_connection_def 1 2 Inr Let_def)
  qed (use d1 in \<open>simp add: on_connection_def 1\<close>)
qed

lemma trace_step:
  assumes "daemon_safe d" and "daemon_step (log_host h) (log_kern k) d = (go, d')"
  shows "daemon_safe d'"
proof -
  obtain r d1 where 1: "on_world (hs_epoll_wait (log_host h) (dm_epfd d)) d = (r, d1)" by (rule prod.exhaust)
  have d1: "daemon_safe d1" by (rule trace_on_world [OF 1 log_host_quiet(9) assms(1)])
  have sig: "daemon_safe d2" if "on_world (hs_signal_read (log_host h) fd) d1 = (x, d2)" for fd x d2
    by (rule trace_on_world [OF that log_host_quiet(11) d1])
  have reap: "daemon_safe (snd (on_world (\<lambda>w. ((), init_reap (log_host h) w)) d2))" if "daemon_safe d2" for d2
    using trace_world [OF that, of "snd (on_world (\<lambda>w. ((), init_reap (log_host h) w)) d2)"] log_reap [of harmless "dm_world d2" h] by simp
  show ?thesis
    using d1 assms(2) sig reap
    by (auto simp: daemon_step_def 1 trace_tick trace_probe_ready trace_connection split: sum.splits if_splits prod.splits option.splits)
qed

lemma trace_reaches:
  assumes "daemon_reaches (log_host h) (log_kern k) d0 d" and "daemon_safe d0"
  shows "daemon_safe d"
  using assms(1) by induction (use assms(2) trace_save in blast, rule trace_step)

lemma log_setup_quiet [quiet]:
  "hs_epoll_create (log_host h) w = (x1, w') \<Longrightarrow> extends P w w'"
  "open_timer (log_host h) ms w = (x2, w') \<Longrightarrow> extends P w w'"
  "open_signals (log_host h) i w = (x3, w') \<Longrightarrow> extends P w w'"
proof -
  have calls: "\<And>w x w'. hs_timer_create (log_host h) w = (x, w') \<Longrightarrow> extends P w w'"
    "\<And>fd a b w x w'. hs_timer_set (log_host h) fd a b w = (x, w') \<Longrightarrow> extends P w w'"
    "\<And>i w x w'. hs_block_signals (log_host h) i w = (x, w') \<Longrightarrow> extends P w w'"
    "\<And>i w x w'. hs_signalfd (log_host h) i w = (x, w') \<Longrightarrow> extends P w w'"
    by (auto simp: log_host_def dest: unlogged_extends)
  show "hs_epoll_create (log_host h) w = (x1, w') \<Longrightarrow> extends P w w'" by (auto simp: log_host_def dest: unlogged_extends)
  show "open_timer (log_host h) ms w = (x2, w') \<Longrightarrow> extends P w w'"
    by (auto simp: open_timer_def split: prod.splits sum.splits option.splits dest!: calls(1,2) intro: extends_trans)
  show "open_signals (log_host h) i w = (x3, w') \<Longrightarrow> extends P w w'"
    by (auto simp: open_signals_def split: prod.splits sum.splits option.splits dest!: calls(3,4) intro: extends_trans)
qed

lemma open_listener_quiet [quiet]: "open_listener (log_host h) w = (x, w') \<Longrightarrow> extends P w w'"
proof -
  have calls: "\<And>fd c p w x w'. hs_bind (log_host h) fd c p w = (x, w') \<Longrightarrow> extends P w w'"
    "\<And>fd n w x w'. hs_listen (log_host h) fd n w = (x, w') \<Longrightarrow> extends P w w'"
    by (auto simp: log_host_def dest: unlogged_extends)
  show "open_listener (log_host h) w = (x, w') \<Longrightarrow> extends P w w'"
    by (auto simp: open_listener_def split: prod.splits sum.splits option.splits dest!: calls vsock_quiet [where P = P] intro: extends_trans)
qed

lemma trace_register:
  assumes "on_world (hs_epoll_add (log_host h) e fd) d = (x, d')" and "daemon_safe d"
  shows "daemon_safe d'"
  by (rule trace_on_world [OF assms(1) log_host_quiet(8) assms(2)])

lemma trace_open_descriptors:
  assumes "daemon_safe d" and "open_descriptors (log_host h) d = (r, d')"
  shows "daemon_safe d'"
proof -
  obtain ep d1 where 1: "on_world (hs_epoll_create (log_host h)) d = (ep, d1)" by (rule prod.exhaust)
  have d1: "daemon_safe d1" by (rule trace_on_world [OF 1 log_setup_quiet(1) assms(1)])
  obtain tm d2 where 2: "on_world (open_timer (log_host h) (cf_probe_interval_ms (dm_cfg d1))) d1 = (tm, d2)" by (rule prod.exhaust)
  have d2: "daemon_safe d2" by (rule trace_on_world [OF 2 log_setup_quiet(2) d1])
  obtain sg d3 where 3: "on_world (open_signals (log_host h) (dm_init d2)) d2 = (sg, d3)" by (rule prod.exhaust)
  have d3: "daemon_safe d3" by (rule trace_on_world [OF 3 log_setup_quiet(3) d2])
  obtain ls d4 where 4: "on_world (open_listener (log_host h)) d3 = (ls, d4)" by (rule prod.exhaust)
  have d4: "daemon_safe d4" by (rule trace_on_world [OF 4 open_listener_quiet d3])
  have fds: "daemon_safe (d4\<lparr>dm_epfd := a, dm_timer_fd := b, dm_signal_fd := c, dm_listen_fd := e\<rparr>)" for a b c e
    using d4 by (simp add: daemon_safe_def trace_ok_def watch_ok_def)
  show ?thesis
    using assms(2) d4 fds unfolding open_descriptors_def
    by (auto simp: 1 2 3 4 Let_def split: sum.splits prod.splits option.splits dest!: trace_register)
qed

lemma trace_zero:
  assumes "log_good harmless (o', w)" and "list_all harmless (snd w)"
  shows "daemon_safe (daemon_zero init cfg ready o' w)"
  using assms by (simp add: daemon_safe_def trace_ok_def watch_ok_def daemon_zero_def takeover_init_def)

lemma trace_setup:
  assumes "daemon_setup (log_host h) (log_kern k) (log_net net) init cfg ready (w, []) = (r, d)"
  shows "daemon_safe d"
proof -
  let ?env = "daemon_env (log_host h) (log_kern k) (log_net net) cfg (w, [])"
  have env: "logs_env ?env"
    by (auto simp: logs_env_def daemon_env_def mksys_fence_def [abs_def] log_host_def intro: exI [of _ "hs_reboot h MK_REBOOT_CMD_HALT_FORCE"] exI [of _ "Some net"])
  obtain r1 w1 where 1: "mkfs_mount (mount_multikernel (log_host h)) (k_sys (log_kern k)) ''/sys/fs/multikernel'' (w, []) = (r1, w1)"
    by (rule prod.exhaust)
  obtain r2 o2 where 2: "ops_init (log_kern k) ?env w1 = (r2, o2)" by (rule prod.exhaust)
  obtain m w2 where 3: "hs_mkdir (log_host h) ''/sys/fs/multikernel'' (w, []) = (m, w2)" by (rule prod.exhaust)
  have "extends harmless w2 w3" if "hs_mount (log_host h) a ''/sys/fs/multikernel'' ty f x w2 = (y, w3)" for a ty f x y w3
    using that by (auto simp: log_host_def intro: log_io_extends)
  from extends_trans [OF log_host_calls(3) [OF 3] this] have "extends harmless (w, []) w1"
    using 1 3 by (auto simp: mkfs_mount_def split: if_splits)
  then have l1: "list_all harmless (snd w1)" by (auto simp: extends_def)
  have good: "log_good harmless (o', w')" if "o_env o' = ?env" "list_all harmless (snd w')" for o' w'
    using that env harmless_fence_first by (simp add: log_good_def split_def)
  have z: "daemon_safe (daemon_zero init cfg ready (ops_zero ?env) (w, []))" "daemon_safe (daemon_zero init cfg ready (ops_zero ?env) w1)"
    "daemon_safe (daemon_zero init cfg ready o2 w1)"
    using l1 ops_init_env [OF 2] by (auto intro!: trace_zero good simp: ops_zero_def)
  then show ?thesis
    using assms trace_open_descriptors [OF z(3)] 1 2
    by (auto simp: daemon_setup_def Let_def split: if_splits prod.splits)
qed

text \<open>C1: Whatever the kernel answers and whatever reaches the daemon, it takes nothing of the machine before a
  fence of the predecessor succeeded: until then the trace holds only its state file, its replies, the network
  identity it keeps for a restart and the mount of its own filesystem.  While the predecessor is watched not even a fence is
  tried, and in the states after the fence a fence did succeed.\<close>

theorem daemon_takes_nothing_before_fence:
  assumes "daemon_reaches (log_host h) (log_kern k)
    (snd (daemon_setup (log_host h) (log_kern k) (log_net net) init cfg ready (w, []))) d"
  shows "fence_first harmless (snd (dm_world d)) \<and>
    (dm_state d < TK_FENCING \<longrightarrow> list_all harmless (snd (dm_world d))) \<and>
    (dm_state d \<in> {TK_FENCED, TK_TAKEN_OVER} \<longrightarrow> Io_fence MK_ID_PREDECESSOR None \<in> set (snd (dm_world d)))"
proof -
  have "daemon_safe d" using trace_reaches [OF assms] trace_setup by (metis prod.collapse)
  then show ?thesis
    by (auto simp: daemon_safe_def trace_ok_def watch_ok_def log_good_def log_fenced_def split_def)
qed

text \<open>A silent predecessor that the fence stops.\<close>

definition obeying_host :: "unit host" where
  "obeying_host = silent_host\<lparr>hs_reboot := (\<lambda>c i w. (None, w))\<rparr>"

definition obeying_start :: "(unit \<times> io list) daemon" where
  "obeying_start = snd (daemon_setup (log_host obeying_host) (log_kern bare_kern) (log_net no_net) False
     (config_defaults always\<lparr>cf_probe_timeouts := 1\<rparr>) None ((), []))"

definition obeyed :: "(unit \<times> io list) daemon" where
  "obeyed = snd (daemon_step (log_host obeying_host) (log_kern bare_kern) (save_state (log_host obeying_host) obeying_start))"

lemma obeying_calls:
  "hs_epoll_wait (log_host obeying_host) = (\<lambda>e w. (Inr 0, w))" "hs_timer_read (log_host obeying_host) = (\<lambda>fd w. (True, w))"
  "hs_socket (log_host obeying_host) = (\<lambda>f w. (Inl EHOSTDOWN, w))" "hs_clock (log_host obeying_host) = (\<lambda>w. ((1, 0), w))"
  "hs_reboot (log_host obeying_host) = (\<lambda>c i (w, l). (None, w, l @ [if c = MK_REBOOT_CMD_HALT_FORCE then Io_fence i None else Io_reboot c i None]))"
  by (auto simp: log_host_def obeying_host_def silent_host_def unlogged_def log_io_def split_def fun_eq_iff)

lemma obeying_start_eq:
  "obeying_start = daemon_zero False (config_defaults always\<lparr>cf_probe_timeouts := 1\<rparr>) None
     (ops_zero (daemon_env (log_host obeying_host) (log_kern bare_kern) (log_net no_net) (config_defaults always\<lparr>cf_probe_timeouts := 1\<rparr>) ((), []))) ((), [])"
  by (simp add: obeying_start_def daemon_setup_def devtree_has_host_tree_def bare_kern_def log_kern_def log_sys_def Let_def)

lemma obeyed_fenced:
  "fst (daemon_step (log_host obeying_host) (log_kern bare_kern) (save_state (log_host obeying_host) obeying_start)) \<and>
   dm_state obeyed \<in> {TK_FENCED, TK_TAKEN_OVER}"
proof -
  have o: "oe_fence_fn (o_env (ops_zero (daemon_env h k n cfg w))) = mksys_fence h" for h :: "(unit \<times> io list) host" and k n cfg w
    by (simp add: ops_zero_def daemon_env_def)
  have c: "tk_state (continue_takeover ops t) \<in> {TK_FENCED, TK_TAKEN_OVER}" if "tk_state t = TK_FENCED" for ops and t :: "((unit \<times> io list) ops \<times> unit \<times> io list) takeover"
    using continue_attempts(2) [of ops t] that by auto
  note defs = daemon_step_def on_tick_def start_probe_def deliver_probe_def note_probe_def on_world_def probe_start_def now_ms_def
    vsock_multikernel_socket_def probe_classify_def handle_event_def takeover_handle_def handle_watching_def begin_takeover_def
    set_state_def tk_step_def ops_takeover_base_def ops_fence_def mksys_fence_def on_state_def less_eq_takeover_state_def
  show ?thesis
    unfolding obeyed_def obeying_start_eq
    by (simp add: defs obeying_calls daemon_zero_def takeover_init_def config_defaults_def config_zero_def Let_def o split_def c del: insert_iff)
qed

theorem daemon_takes_nothing_before_fence_witness:
  "dm_state obeyed \<in> {TK_FENCED, TK_TAKEN_OVER} \<and> Io_fence MK_ID_PREDECESSOR None \<in> set (snd (dm_world obeyed)) \<and>
   fence_first harmless (snd (dm_world obeyed)) \<and>
   list_all harmless (snd (dm_world (save_state (log_host obeying_host) obeying_start)))"
proof -
  have "daemon_step (log_host obeying_host) (log_kern bare_kern) (save_state (log_host obeying_host) obeying_start) = (True, obeyed)"
    using obeyed_fenced by (simp add: obeyed_def prod_eq_iff)
  from daemon_takes_nothing_before_fence [OF reach_step [OF reach_start this, unfolded obeying_start_def]]
  have 1: "Io_fence MK_ID_PREDECESSOR None \<in> set (snd (dm_world obeyed)) \<and> fence_first harmless (snd (dm_world obeyed))"
    using obeyed_fenced by blast
  have "dm_state (save_state (log_host obeying_host) obeying_start) < TK_FENCING"
    by (simp add: obeying_start_eq daemon_zero_def takeover_init_def less_takeover_state_def)
  then have "list_all harmless (snd (dm_world (save_state (log_host obeying_host) obeying_start)))"
    unfolding obeying_start_def by (rule daemon_takes_nothing_before_fence [OF reach_start, THEN conjunct2, THEN conjunct1, THEN mp])
  then show ?thesis using 1 obeyed_fenced by blast
qed

end
