(* ===== verification/Handover.thy ===== *)
theory Handover
  imports Daemon
begin

text \<open>
  What a handover changes: nothing crashed, so the predecessor's memory is taken
  over without a dump.  The place of the dump is cleared when the handover is
  taken and every operation leaves it so.  With it cleared the daemon does what
  a daemon does whose configuration names no dump, and it does the same on
  kernels that differ in nothing but the memory device and the dump's place.
\<close>

section \<open>A handover leaves no dump\<close>

lemma ops_keep_env:
  "keep_for_pool k g o1 w = (r, o2, w') \<Longrightarrow> o_env o2 = o_env o1"
  "plan_adoption k o1 w = (r, o3, w') \<Longrightarrow> o_env o3 = o_env o1"
  "ops_adopt_devices k o1 w = (r, o4, w') \<Longrightarrow> o_env o4 = o_env o1"
  "ops_fence o1 w = (r, o5, w') \<Longrightarrow> o_env o5 = o_env o1"
  "ops_reap k o1 w = (r, o6, w') \<Longrightarrow> o_env o6 = o_env o1"
  "ops_preserve k o1 w = (r, o7, w') \<Longrightarrow> o_env o7 = o_env o1"
proof -
  show 1: "keep_for_pool k g o1 w = (r, o2, w') \<Longrightarrow> o_env o2 = o_env o1" for k g and o1 o2 :: "'a ops" and w r w'
    by (auto simp: keep_for_pool_def Let_def split: prod.splits if_splits option.splits sum.splits)
  show "plan_adoption k o1 w = (r, o3, w') \<Longrightarrow> o_env o3 = o_env o1"
    by (auto simp: plan_adoption_def Let_def split: prod.splits if_splits option.splits sum.splits dest!: 1)
  show "ops_adopt_devices k o1 w = (r, o4, w') \<Longrightarrow> o_env o4 = o_env o1"
    by (auto simp: ops_adopt_devices_def Let_def split: prod.splits if_splits)
qed (auto simp: ops_fence_def ops_reap_def ops_preserve_def Let_def split: prod.splits if_splits option.splits)

lemma ops_adopt_env: "ops_adopt k o1 w = (r, o2, w') \<Longrightarrow> o_env o2 = o_env o1"
  by (auto simp: ops_adopt_def try_devices_def Let_def split: prod.splits if_splits option.splits dest!: ops_keep_env(2,3))

lemma on_state_ops: "fst (on_state h d t s) = fst (tk_ctx t)"
  by (auto simp: on_state_def Let_def split: prod.splits)

text \<open>The operations and the callback leave the place of the dump as it is.\<close>

interpretation env: takeover_actions "ops_takeover_base k (on_state h d)" "\<lambda>(o', w). oe_dump_path (o_env o') = p" "\<lambda>_. True"
  for k h d p
proof
  fix c c' :: "'a ops \<times> 'a" and r assume c: "case c of (o', w) \<Rightarrow> oe_dump_path (o_env o') = p"
  show "op_fence (ops_takeover_base k (on_state h d)) c = (r, c') \<Longrightarrow>
      (case c' of (o', w) \<Rightarrow> oe_dump_path (o_env o') = p) \<and> (r = None \<longrightarrow> True)"
    using c by (cases c') (auto simp: ops_takeover_base_def dest: ops_keep_env(4))
  show "op_adopt (ops_takeover_base k (on_state h d)) c = (r, c') \<Longrightarrow> (case c' of (o', w) \<Rightarrow> oe_dump_path (o_env o') = p) \<and> True"
    using c by (cases c') (auto simp: ops_takeover_base_def dest: ops_adopt_env)
  show "op_preserve (ops_takeover_base k (on_state h d)) c = (r, c') \<Longrightarrow> (case c' of (o', w) \<Rightarrow> oe_dump_path (o_env o') = p) \<and> True"
    using c by (cases c') (auto simp: ops_takeover_base_def dest: ops_keep_env(6))
  show "op_reap (ops_takeover_base k (on_state h d)) c = (r, c') \<Longrightarrow> (case c' of (o', w) \<Rightarrow> oe_dump_path (o_env o') = p) \<and> True"
    using c by (cases c') (auto simp: ops_takeover_base_def dest: ops_keep_env(5))
next
  fix t :: "('a ops \<times> 'a) takeover" and s
  assume "case tk_ctx t of (o', w) \<Rightarrow> oe_dump_path (o_env o') = p"
  then show "(case op_on_state (ops_takeover_base k (on_state h d)) t s of (o', w) \<Rightarrow> oe_dump_path (o_env o') = p) \<and> (True \<longrightarrow> True)"
    using on_state_ops [of h d t s] by (auto simp: ops_takeover_base_def split_def)
qed

lemma handle_event_dump_path:
  "oe_dump_path (o_env (dm_ops (handle_event h k ev d))) = oe_dump_path (o_env (dm_ops d))"
  using env.handle_good [where t = "dm_tk d" and p = "oe_dump_path (o_env (dm_ops d))"] by (simp add: split_def)

definition handed_inv :: "'w daemon \<Rightarrow> bool" where
  "handed_inv d = (dm_handed_over d \<longrightarrow> oe_dump_path (o_env (dm_ops d)) = None)"

lemma handed_on_world: "on_world f d = (x, d') \<Longrightarrow> handed_inv d' = handed_inv d"
  by (simp add: handed_inv_def on_world_fields)

lemma handed_simps [simp]:
  "handed_inv (snd (on_world f d)) = handed_inv d" "handed_inv (d\<lparr>dm_probe_fd := a\<rparr>) = handed_inv d"
  "handed_inv (note_probe h err d) = handed_inv d" "handed_inv (handle_event h k ev d) = handed_inv d"
  by (simp_all add: handed_inv_def handle_event_dump_path del: handle_event_fields(4))

lemma handed_deliver [simp]: "handed_inv (deliver_probe h k err d) = handed_inv d"
  by (simp add: deliver_probe_def Let_def split: probe_result.split)

lemma handed_answer:
  assumes "answer_request h k fd d = (acc, d')"
  shows "handed_inv d' = handed_inv d"
proof -
  have net: "handed_inv d2 = handed_inv d1" if "answer_network k s len d1 = (r, d2)" for s len d1 d2 and r :: "nat res \<times> string"
    using that by (auto simp: answer_network_def Let_def handed_inv_def on_world_fields split: prod.splits if_splits)
  show ?thesis
    using assms
    by (auto simp: answer_request_def Let_def handed_on_world net split: prod.splits if_splits sum.splits request_kind.splits)
qed

lemma handed_step:
  assumes "handed_inv d" and "daemon_step h k d = (go, d')"
  shows "handed_inv d'"
proof -
  have start: "handed_inv (start_probe h k d1)" if "handed_inv d1" for d1 :: "'a daemon"
    using that by (auto simp: start_probe_def handed_on_world split: prod.split sum.split option.split)
  have tick: "handed_inv (on_tick h k d1)" if "handed_inv d1" for d1 :: "'a daemon"
    using that by (auto simp: on_tick_def handed_on_world Let_def intro!: start split: prod.split option.split)
  have hand: "handed_inv (take_handover h k d1)" for d1 :: "'a daemon"
    by (simp add: take_handover_def) (simp add: handed_inv_def)
  have conn: "handed_inv (on_connection h k fd d1)" if "handed_inv d1" for fd and d1 :: "'a daemon"
    using that by (auto simp: on_connection_def handed_on_world handed_answer hand Let_def split: prod.split sum.split)
  have ready: "handed_inv (on_probe_ready h k fd d1)" if "handed_inv d1" for fd and d1 :: "'a daemon"
    using that by (auto simp: on_probe_ready_def handed_on_world split: prod.split)
  show ?thesis
    using assms by (auto simp: daemon_step_def handed_on_world tick conn ready split: sum.splits if_splits prod.splits option.splits)
qed

lemma handed_reaches:
  assumes "daemon_reaches h k d0 d" and "fresh d0"
  shows "handed_inv d"
  using assms(1)
proof induction
  case reach_start
  then show ?case using assms(2) by (simp add: handed_inv_def fresh_def)
qed (rule handed_step)

text \<open>The same kernel with another memory device and another place for the dump.\<close>

definition with_dump :: "(('w \<Rightarrow> string \<Rightarrow> source_env) \<times> ('w \<Rightarrow> string \<Rightarrow> sink_env) \<times> (string \<Rightarrow> sink option \<Rightarrow> 'w \<Rightarrow> 'w)) \<Rightarrow> 'w kern \<Rightarrow> 'w kern" where
  "with_dump x k = (case x of (src, snk, st) \<Rightarrow> k\<lparr>k_source := src, k_sink := snk, k_store := st\<rparr>)"

lemma with_dump_fields [simp]:
  "k_sys (with_dump x k) = k_sys k" "k_alloc (with_dump x k) = k_alloc k" "k_forks (with_dump x k) = k_forks k"
  "k_order (with_dump x k) = k_order k"
  by (simp_all add: with_dump_def split: prod.split)

lemma with_dump_overlay [simp]: "apply_overlay (with_dump x k) o' = apply_overlay k o'"
  by (intro ext, unfold apply_overlay_def with_dump_fields, rule refl)

lemma with_dump_overlays [simp]:
  "apply_adopt (with_dump x k) o' = apply_adopt k o'" "adopt_device (with_dump x k) o' = adopt_device k o'"
  "claim_iommu (with_dump x k) o' = claim_iommu k o'"
  by (intro ext; simp add: apply_adopt_def adopt_device_def claim_iommu_def)+

lemma with_dump_devices [simp]:
  "claim_iommus (with_dump x k) o' = claim_iommus k o'" "reset_devices (with_dump x k) = reset_devices k"
  "hold_drivers (with_dump x k) o' = hold_drivers k o'"
  unfolding claim_iommus_def [abs_def] reset_devices_def [abs_def] hold_drivers_def [abs_def] with_dump_fields with_dump_overlays
  by (rule refl)+

lemma with_dump_pool [simp]: "keep_for_pool (with_dump x k) = keep_for_pool k"
  by (intro ext, unfold keep_for_pool_def with_dump_fields, rule refl)

lemma with_dump_plan [simp]: "plan_adoption (with_dump x k) = plan_adoption k"
  by (intro ext, unfold plan_adoption_def with_dump_fields with_dump_pool, rule refl)

lemma with_dump_network [simp]: "restore_network (with_dump x k) = restore_network k"
  by (intro ext, unfold restore_network_def with_dump_fields, rule refl)

lemma with_dump_loop [simp]: "adopt_loop (with_dump x k) o' ids r got w = adopt_loop k o' ids r got w"
  by (induction ids arbitrary: r got w) (simp_all split: prod.split)

lemma with_dump_adopt [simp]: "ops_adopt (with_dump x k) = ops_adopt k"
  by (intro ext, unfold ops_adopt_def try_devices_def ops_adopt_devices_def settle_devices_def with_dump_fields with_dump_loop
    with_dump_devices with_dump_overlays with_dump_plan with_dump_network, rule refl)

lemma with_dump_reap [simp]: "ops_reap (with_dump x k) = ops_reap k"
  by (intro ext) (simp add: ops_reap_def)

lemma continue_without_dump:
  assumes "oe_dump_path (o_env (fst (tk_ctx t))) = None"
  shows "continue_takeover (ops_takeover_base (with_dump x k) cb) t = continue_takeover (ops_takeover_base k cb) t"
proof -
  obtain o1 w1 where t: "tk_ctx t = (o1, w1)" by (rule prod.exhaust)
  obtain r o2 w2 where 1: "ops_adopt k o1 w1 = (r, o2, w2)" by (rule prod_cases3)
  have "oe_dump_path (o_env o2) = None" using assms ops_adopt_env [OF 1] by (simp add: t)
  then show ?thesis
    by (simp add: continue_takeover_def ops_takeover_base_def tk_step_def t 1 ops_preserve_def set_state_def split: option.split)
qed

lemma begin_without_dump:
  assumes "oe_dump_path (o_env (fst (tk_ctx t))) = None"
  shows "begin_takeover (ops_takeover_base (with_dump x k) (on_state h d)) t = begin_takeover (ops_takeover_base k (on_state h d)) t"
proof -
  have same: "tk_step (op_fence (ops_takeover_base (with_dump x k) cb)) t' = tk_step (op_fence (ops_takeover_base k cb)) t'"
    "set_state (ops_takeover_base (with_dump x k) cb) t' s = set_state (ops_takeover_base k cb) t' s" for cb t' s
    by (simp_all add: ops_takeover_base_def set_state_def)
  let ?ops = "ops_takeover_base k (on_state h d)" and ?t = "(set_state (ops_takeover_base k (on_state h d)) t TK_FENCING)\<lparr>tk_fence_attempts := tk_fence_attempts t + 1\<rparr>"
  obtain r t1 where 1: "tk_step (op_fence ?ops) ?t = (r, t1)" by (rule prod.exhaust)
  have set: "fst (tk_ctx (set_state ?ops t' s)) = fst (tk_ctx t')" for t' s
    using on_state_ops [of h d "t'\<lparr>tk_state := s\<rparr>" s] by (simp add: set_state_def ops_takeover_base_def Let_def)
  have "oe_dump_path (o_env (fst (tk_ctx (set_state ?ops t1 TK_FENCED)))) = None"
  proof -
    obtain o1 w1 where o1: "tk_ctx ?t = (o1, w1)" by (rule prod.exhaust)
    obtain r2 o2 w2 where o2: "ops_fence o1 w1 = (r2, o2, w2)" by (rule prod_cases3)
    have "oe_dump_path (o_env o1) = None" using o1 set [of t TK_FENCING] assms by simp
    moreover have "fst (tk_ctx t1) = o2" using 1 o1 o2 by (auto simp: tk_step_def ops_takeover_base_def)
    ultimately show ?thesis using ops_keep_env(4) [OF o2] by (simp add: set)
  qed
  from continue_without_dump [OF this] show ?thesis
    by (simp add: begin_takeover_def same Let_def 1 split: option.split)
qed

lemma handle_without_dump:
  assumes "oe_dump_path (o_env (dm_ops d)) = None"
  shows "handle_event h (with_dump x k) ev d = handle_event h k ev d"
proof -
  have same: "set_state (ops_takeover_base (with_dump x k) cb) t s = set_state (ops_takeover_base k cb) t s" for cb t s
    by (simp add: ops_takeover_base_def set_state_def)
  have "takeover_handle (ops_takeover_base (with_dump x k) (on_state h d)) (dm_tk d) ev = takeover_handle (ops_takeover_base k (on_state h d)) (dm_tk d) ev"
    using assms
    by (cases "tk_state (dm_tk d)"; cases ev)
      (simp_all add: takeover_handle_def handle_watching_def Let_def same begin_without_dump continue_without_dump)
  then show ?thesis by (simp add: handle_event_def)
qed

abbreviation dumpless :: "'w daemon \<Rightarrow> bool" where
  "dumpless d \<equiv> oe_dump_path (o_env (dm_ops d)) = None"

lemma deliver_without_dump:
  assumes "dumpless d"
  shows "deliver_probe h (with_dump x k) err d = deliver_probe h k err d" and "dumpless (deliver_probe h k err d)"
proof -
  have "dumpless (note_probe h err d)" using assms by simp
  then show "deliver_probe h (with_dump x k) err d = deliver_probe h k err d" "dumpless (deliver_probe h k err d)"
    by (simp_all add: deliver_probe_def Let_def handle_without_dump handle_event_dump_path del: handle_event_fields(4) split: probe_result.split)
qed

lemma probes_without_dump:
  assumes "dumpless d"
  shows "on_tick h (with_dump x k) d = on_tick h k d" and "on_probe_ready h (with_dump x k) fd d = on_probe_ready h k fd d"
proof -
  have start: "start_probe h (with_dump x k) d1 = start_probe h k d1" if "dumpless d1" for d1
    using that by (auto simp: start_probe_def deliver_without_dump(1) on_world_fields(5) split: prod.split sum.split option.split)
  show "on_tick h (with_dump x k) d = on_tick h k d"
    using assms by (auto simp: on_tick_def Let_def deliver_without_dump start on_world_fields(5) split: prod.split option.split)
  show "on_probe_ready h (with_dump x k) fd d = on_probe_ready h k fd d"
    using assms by (auto simp: on_probe_ready_def deliver_without_dump(1) on_world_fields(5) split: prod.split)
qed

lemma requests_without_dump: "on_connection h (with_dump x k) fd d = on_connection h k fd d"
proof -
  have net: "answer_network (with_dump x k) = answer_network k" by (intro ext, unfold answer_network_def with_dump_fields, rule refl)
  have request: "answer_request h (with_dump x k) = answer_request h k" by (intro ext, unfold answer_request_def net, rule refl)
  have handover: "take_handover h (with_dump x k) = take_handover h k"
    by (intro ext) (simp add: take_handover_def handle_without_dump)
  show ?thesis by (unfold on_connection_def request handover) (rule refl)
qed

section \<open>The daemon whose configuration names no dump\<close>

definition no_dump :: "'w daemon \<Rightarrow> 'w daemon" where
  "no_dump d = set_env (\<lambda>e. e\<lparr>oe_dump_path := None\<rparr>) (d\<lparr>dm_cfg := (dm_cfg d)\<lparr>cf_dump := None\<rparr>\<rparr>)"

lemma no_dump_fields [simp]:
  "dm_epfd (no_dump d) = dm_epfd d" "dm_timer_fd (no_dump d) = dm_timer_fd d" "dm_signal_fd (no_dump d) = dm_signal_fd d"
  "dm_listen_fd (no_dump d) = dm_listen_fd d" "dm_probe_fd (no_dump d) = dm_probe_fd d" "dm_init (no_dump d) = dm_init d"
  "dm_last_result (no_dump d) = dm_last_result d" "dm_probe_reported (no_dump d) = dm_probe_reported d"
  "dm_last_probe_err (no_dump d) = dm_last_probe_err d" "dm_state (no_dump d) = dm_state d"
  "dm_handed_over (no_dump d) = dm_handed_over d" "dm_world (no_dump d) = dm_world d"
  "dm_last_probe_ms (no_dump d) = dm_last_probe_ms d" "dm_ready_fd (no_dump d) = dm_ready_fd d"
  "cf_console (dm_cfg (no_dump d)) = cf_console (dm_cfg d)" "cf_console_baud (dm_cfg (no_dump d)) = cf_console_baud (dm_cfg d)"
  "cf_console_login (dm_cfg (no_dump d)) = cf_console_login (dm_cfg d)"
  "tk_last_error (dm_tk (no_dump d)) = tk_last_error (dm_tk d)"
  by (simp_all add: no_dump_def set_env_def)

lemma no_dump_updates [simp]:
  "(no_dump d)\<lparr>dm_probe_fd := a\<rparr> = no_dump (d\<lparr>dm_probe_fd := a\<rparr>)"
  "(no_dump d)\<lparr>dm_last_probe_err := e\<rparr> = no_dump (d\<lparr>dm_last_probe_err := e\<rparr>)"
  "(no_dump d)\<lparr>dm_last_probe_ms := m\<rparr> = no_dump (d\<lparr>dm_last_probe_ms := m\<rparr>)"
  "(no_dump d)\<lparr>dm_last_result := l, dm_probe_reported := True\<rparr> = no_dump (d\<lparr>dm_last_result := l, dm_probe_reported := True\<rparr>)"
  "set_env (\<lambda>e. e\<lparr>oe_network := n\<rparr>) (no_dump d) = no_dump (set_env (\<lambda>e. e\<lparr>oe_network := n\<rparr>) d)"
  by (simp_all add: no_dump_def set_env_def)

lemma no_dump_world [simp]: "on_world f (no_dump d) = apsnd no_dump (on_world f d)"
  by (simp add: on_world_def no_dump_def set_env_def split: prod.split)

lemma no_dump_status [simp]:
  "fill_status h (no_dump d) t = fill_status h d t" "fill_status h d (dm_tk (no_dump d)) = fill_status h d (dm_tk d)"
  by (intro ext; simp only: fill_status_def no_dump_fields)+

lemma no_dump_save [simp]:
  "write_state_file h (no_dump d) t = write_state_file h d t" "write_state_file h d (dm_tk (no_dump d)) = write_state_file h d (dm_tk d)"
  by (intro ext; simp only: write_state_file_def no_dump_status)+

lemma no_dump_callback [simp]: "on_state h (no_dump d) = on_state h d"
  by (intro ext; simp only: on_state_def no_dump_save no_dump_fields)

lemma no_dump_note [simp]: "note_probe h err (no_dump d) = no_dump (note_probe h err d)"
  by (simp add: note_probe_def Let_def split: prod.split)

lemma dumpless_cfg:
  assumes "dumpless d"
  shows "no_dump d = d\<lparr>dm_cfg := (dm_cfg d)\<lparr>cf_dump := None\<rparr>\<rparr>"
proof -
  have "(o_env (dm_ops d))\<lparr>oe_dump_path := None\<rparr> = o_env (dm_ops d)" using assms by (cases "o_env (dm_ops d)") simp
  then show ?thesis by (simp add: no_dump_def set_env_def)
qed

lemma no_dump_handle:
  assumes "dumpless d"
  shows "handle_event h k ev (no_dump d) = no_dump (handle_event h k ev d)"
proof -
  have "dm_tk (no_dump d) = dm_tk d" by (simp add: dumpless_cfg [OF assms])
  then have "handle_event h k ev (no_dump d) = (handle_event h k ev d)\<lparr>dm_cfg := (dm_cfg d)\<lparr>cf_dump := None\<rparr>\<rparr>"
    by (simp add: handle_event_def Let_def) (simp add: dumpless_cfg [OF assms])
  moreover have "dm_cfg (handle_event h k ev d) = dm_cfg d" by (simp add: handle_event_def Let_def)
  ultimately show ?thesis
    using dumpless_cfg [of "handle_event h k ev d"] assms by (simp add: handle_event_dump_path del: handle_event_fields(4))
qed

lemma no_dump_deliver: "dumpless d \<Longrightarrow> deliver_probe h k err (no_dump d) = no_dump (deliver_probe h k err d)"
  by (simp add: deliver_probe_def Let_def no_dump_handle split: probe_result.split)

lemma no_dump_probes:
  assumes "dumpless d"
  shows "on_tick h k (no_dump d) = no_dump (on_tick h k d)" and "on_probe_ready h k fd (no_dump d) = no_dump (on_probe_ready h k fd d)"
proof -
  have start: "start_probe h k (no_dump d1) = no_dump (start_probe h k d1)" if "dumpless d1" for d1
    using that by (auto simp: start_probe_def no_dump_deliver on_world_fields(5) split: prod.split sum.split option.split)
  show "on_tick h k (no_dump d) = no_dump (on_tick h k d)"
    using assms by (auto simp: on_tick_def Let_def no_dump_deliver deliver_without_dump start on_world_fields split: prod.split option.split)
  show "on_probe_ready h k fd (no_dump d) = no_dump (on_probe_ready h k fd d)"
    using assms by (auto simp: on_probe_ready_def no_dump_deliver on_world_fields(5) split: prod.split)
qed

lemma no_dump_requests: "on_connection h k fd (no_dump d) = no_dump (on_connection h k fd d)"
proof -
  have net: "answer_network k t len (no_dump d1) = apsnd no_dump (answer_network k t len d1)" for t len d1
    by (simp add: answer_network_def Let_def split: prod.split)
  have hand: "answer_handover (no_dump d1) len = answer_handover d1 len" for d1 :: "'a daemon" and len
    by (simp add: answer_handover_def)
  have request: "answer_request h k fd (no_dump d1) = apsnd no_dump (answer_request h k fd d1)" for fd d1
  proof -
    obtain req d2 where r: "on_world (read_request h fd request_cap) d1 = (req, d2)" by (rule prod.exhaust)
    show ?thesis
    proof (cases req)
      case (Inr x)
      then show ?thesis
        by (cases x; cases "fst x") (simp_all add: answer_request_def r net hand Let_def split_def split: sum.split)
    qed (simp add: answer_request_def r)
  qed
  have "take_handover h k (no_dump d1) = no_dump (take_handover h k d1)" for d1
  proof -
    let ?d = "set_env (\<lambda>e. e\<lparr>oe_dump_path := None\<rparr>) (d1\<lparr>dm_handed_over := True\<rparr>)"
    have "set_env (\<lambda>e. e\<lparr>oe_dump_path := None\<rparr>) ((no_dump d1)\<lparr>dm_handed_over := True\<rparr>) = no_dump ?d"
      by (simp add: no_dump_def set_env_def)
    then show ?thesis by (simp add: take_handover_def no_dump_handle)
  qed
  then show ?thesis
    by (auto simp: on_connection_def Let_def request split: prod.split sum.split)
qed

text \<open>Only a request hands over.\<close>

lemma probes_hand_nothing:
  "dm_handed_over (on_tick h k d) = dm_handed_over d" "dm_handed_over (on_probe_ready h k fd d) = dm_handed_over d"
proof -
  have deliver: "dm_handed_over (deliver_probe h k err d1) = dm_handed_over d1" for err d1
    by (simp add: deliver_probe_def note_probe_def Let_def on_world_fields(6) split: probe_result.split prod.split)
  have start: "dm_handed_over (start_probe h k d1) = dm_handed_over d1" for d1
    by (auto simp: start_probe_def deliver on_world_fields(6) split: prod.split sum.split option.split)
  show "dm_handed_over (on_tick h k d) = dm_handed_over d"
    by (auto simp: on_tick_def Let_def deliver start on_world_fields(6) split: prod.split option.split)
  show "dm_handed_over (on_probe_ready h k fd d) = dm_handed_over d"
    by (auto simp: on_probe_ready_def deliver on_world_fields(6) split: prod.split)
qed

text \<open>C11: A machine that is handed over is taken over as if no dump had been configured.  Take any state a daemon
  reaches from its start, and a step that takes a handover or comes after one.  A daemon in the same state whose
  configuration and operations name no place for a dump takes the same step: the same calls, with the same memory
  adopted, to the same state, on every kernel that differs in nothing but the predecessor's memory device and the
  place of dumps.\<close>

theorem handover_leaves_no_dump:
  assumes "fresh d0" and "daemon_reaches h k d0 d" and "daemon_step h k d = (go, d')" and "dm_handed_over d'"
  shows "daemon_step h (with_dump x k) (no_dump d) = (go, no_dump d')"
proof (cases "dm_handed_over d")
  case True
  then have "dumpless d" using handed_reaches [OF assms(2,1)] by (simp add: handed_inv_def)
  moreover from this have "dumpless (no_dump d)" by (simp add: no_dump_def)
  ultimately show ?thesis
    using assms(3)
    by (auto simp: daemon_step_def probes_without_dump requests_without_dump no_dump_probes no_dump_requests
      on_world_fields(5) split: prod.splits sum.splits if_splits option.splits)
next
  case False
  then show ?thesis
    using assms(3,4)
    by (auto simp: daemon_step_def requests_without_dump no_dump_requests probes_hand_nothing on_world_fields(6)
      split: prod.splits sum.splits if_splits option.splits)
qed

text \<open>A daemon configured to dump, whose live predecessor hands over.\<close>

definition asking_host :: "unit host" where
  "asking_host = silent_host\<lparr>hs_epoll_wait := (\<lambda>e w. (Inr 4, w)), hs_accept := (\<lambda>fd w. (Inr 9, w)), hs_poll := (\<lambda>fd t w. (True, w)),
     hs_recv := (\<lambda>fd n w. (Inr (''handover'' @ [CHR 0x0A]), w))\<rparr>"

definition asked_start :: "unit daemon" where
  "asked_start = (daemon_zero False (config_defaults always\<lparr>cf_dump := Some ''/dump''\<rparr>) None
     (ops_zero (daemon_env asking_host bare_kern no_net (config_defaults always\<lparr>cf_dump := Some ''/dump''\<rparr>) ())) ())
     \<lparr>dm_timer_fd := 3, dm_listen_fd := Some 4, dm_last_result := PROBE_ALIVE\<rparr>"

definition asked :: "unit daemon" where
  "asked = snd (daemon_step asking_host bare_kern (save_state asking_host asked_start))"

lemma asked_request: "read_request asking_host fd request_cap w = (Inr (REQUEST_HANDOVER, []), ())"
proof -
  have h: "now_ms asking_host w = (1000, ())" "hs_poll asking_host fd t w = (True, ())"
    "hs_recv asking_host fd n w = (Inr (''handover'' @ [CHR 0x0A]), ())" for w t n
    by (simp_all add: asking_host_def silent_host_def now_ms_def)
  have "request_head request_cap (''handover'' @ [CHR 0x0A]) = Inr (Some (9, REQUEST_HANDOVER, 0))"
    by (simp add: request_head_def request_parse_def line_len_def newline_def carriage_return_def cstr_def REQUEST_LINE_MAX_def NETSNAP_TEXT_MAX_def)
  then show ?thesis
    using read_loop_more [OF h(1) _ h(2) h(3) refl, where deadline = 1500 and cap = request_cap and buf = "[]" and head = None]
    by (simp add: read_request_def h(1) REQUEST_WAIT_MS_def REQUEST_LINE_MAX_def NETSNAP_TEXT_MAX_def cstr_def)
qed

lemma asked_hands_over: "fst (daemon_step asking_host bare_kern (save_state asking_host asked_start)) \<and> dm_handed_over asked"
proof -
  define d where "d = save_state asking_host asked_start"
  have d: "dm_timer_fd d = 3" "dm_probe_fd d = None" "dm_listen_fd d = Some 4" "dm_state d = TK_ARMED" "dm_last_result d = PROBE_ALIVE"
    by (simp_all add: d_def asked_start_def on_world_def daemon_zero_def takeover_init_def)
  have ctx: "(fst c, ()) = c" for c :: "unit ops \<times> unit" by (simp add: prod_eq_iff)
  have same: "on_world f e = (fst (f ()), e)" for f :: "unit \<Rightarrow> 'b \<times> unit" and e :: "unit daemon"
    by (simp add: on_world_def split_def ctx)
  have "fst (answer_request asking_host bare_kern 9 d)"
    using d by (simp add: answer_request_def same asked_request answer_handover_def Let_def split: prod.split)
  moreover have "on_world (hs_epoll_wait asking_host e) d = (Inr 4, d)" "on_world (hs_accept asking_host fd) d = (Inr 9, d)" for e fd
    unfolding same by (simp_all add: asking_host_def)
  moreover have "dm_handed_over (take_handover asking_host bare_kern e)" for e by (simp add: take_handover_def)
  ultimately show ?thesis
    using d unfolding asked_def d_def [symmetric]
    by (auto simp: daemon_step_def on_connection_def Let_def split: prod.split)
qed

theorem handover_leaves_no_dump_witness:
  "dm_handed_over asked \<and> cf_dump (dm_cfg asked_start) = Some ''/dump'' \<and>
   (\<forall>x. daemon_step asking_host (with_dump x bare_kern) (no_dump (save_state asking_host asked_start)) = (True, no_dump asked))"
proof -
  have "fresh asked_start" by (simp add: fresh_def asked_start_def daemon_zero_def takeover_init_def)
  moreover have "daemon_step asking_host bare_kern (save_state asking_host asked_start) = (True, asked)"
    using asked_hands_over by (simp add: asked_def prod_eq_iff)
  ultimately have "daemon_step asking_host (with_dump x bare_kern) (no_dump (save_state asking_host asked_start)) = (True, no_dump asked)" for x
    using handover_leaves_no_dump [OF _ reach_start] asked_hands_over by blast
  then show ?thesis using asked_hands_over by (simp add: asked_start_def daemon_zero_def)
qed

end
