(* ===== verification/Standby.thy ===== *)
theory Standby
  imports Daemon
begin

text \<open>
  How kmorphd starts: as the successor's init it mounts the pseudo filesystems
  (kmorphd/init.c) and, when the initramfs carries a standby image, makes that
  image the root and leaves init to it (kmorphd/standby.c); the main function
  (kmorphd/main.c) reads the options, does this, loads the configuration and
  detaches before the event loop.  The main theorem is the promise of
  kmorphd/standby.h: when the image did not become the root, everything mounted
  or moved is put back.
\<close>

section \<open>The first filesystems\<close>

record 'w init_env =
  in_mount :: "string \<Rightarrow> string \<Rightarrow> string option \<Rightarrow> nat \<Rightarrow> string option \<Rightarrow> 'w \<Rightarrow> rc \<times> 'w"
  in_mkdir :: "string \<Rightarrow> 'w \<Rightarrow> rc \<times> 'w"

definition sys_mkdir :: "'w host \<Rightarrow> string \<Rightarrow> 'w \<Rightarrow> rc \<times> 'w" where
  "sys_mkdir h path w =
     (case hs_mkdir h path w of (Some e, w) \<Rightarrow> (if e \<noteq> EEXIST then Some e else None, w) | (None, w) \<Rightarrow> (None, w))"

definition init_default_env :: "'w host \<Rightarrow> 'w init_env" where
  "init_default_env h = \<lparr>in_mount = hs_mount h, in_mkdir = sys_mkdir h\<rparr>"

definition MS_RDONLY :: nat where "MS_RDONLY = 1"
definition MS_NOSUID :: nat where "MS_NOSUID = 2"
definition MS_NODEV :: nat where "MS_NODEV = 4"
definition MS_NOEXEC :: nat where "MS_NOEXEC = 8"
definition MS_MOVE :: nat where "MS_MOVE = 8192"

definition init_fs :: "(string \<times> string \<times> string option \<times> nat) list" where
  "init_fs =
     [(''proc'', ''/proc'', None, MS_NOSUID OR MS_NODEV OR MS_NOEXEC),
      (''sysfs'', ''/sys'', None, MS_NOSUID OR MS_NODEV OR MS_NOEXEC),
      (''devtmpfs'', ''/dev'', None, MS_NOSUID),
      (''tmpfs'', ''/run'', Some ''mode=755'', MS_NOSUID OR MS_NODEV)]"

definition init_mount_filesystems :: "'w init_env \<Rightarrow> 'w \<Rightarrow> rc \<times> 'w" where
  "init_mount_filesystems env w =
     foldl (\<lambda>(first, w) (type, target, data, flags).
              let (r, w) = in_mkdir env target w;
                  (r, w) = (if r = None then in_mount env type target (Some type) flags data w else (r, w))
              in (if r \<noteq> None \<and> first = None then r else first, w))
       (None, w) init_fs"

section \<open>Entering the standby image\<close>

definition STANDBY_IMAGE :: string where "STANDBY_IMAGE = ''/standby.erofs''"
definition STANDBY_ROOT :: string where "STANDBY_ROOT = ''/standby''"
definition STANDBY_LAYERS :: string where "STANDBY_LAYERS = ''/run/kmorph/root''"
definition STANDBY_INIT :: string where "STANDBY_INIT = ''/sbin/init''"
definition STANDBY_CONFIG :: string where "STANDBY_CONFIG = ''/run/kmorph/kmorph.conf''"

text \<open>
  \<open>sb_exec\<close> and \<open>sb_idle\<close> may not return: \<open>None\<close> is the process replaced, or
  waiting for ever.
\<close>

record 'w standby_env =
  sb_mount :: "string \<Rightarrow> string \<Rightarrow> string option \<Rightarrow> nat \<Rightarrow> string option \<Rightarrow> 'w \<Rightarrow> rc \<times> 'w"
  sb_umount :: "string \<Rightarrow> 'w \<Rightarrow> rc \<times> 'w"
  sb_mkdir :: "string \<Rightarrow> 'w \<Rightarrow> rc \<times> 'w"
  sb_copy :: "string \<Rightarrow> string \<Rightarrow> 'w \<Rightarrow> rc \<times> 'w"
  sb_chdir :: "string \<Rightarrow> 'w \<Rightarrow> rc \<times> 'w"
  sb_chroot :: "string \<Rightarrow> 'w \<Rightarrow> rc \<times> 'w"
  sb_write :: "string \<Rightarrow> string \<Rightarrow> 'w \<Rightarrow> rc \<times> 'w"
  sb_fork :: "'w \<Rightarrow> nat res \<times> 'w"
  sb_exec :: "string \<Rightarrow> 'w \<Rightarrow> (errno \<times> 'w) option"
  sb_idle :: "'w \<Rightarrow> 'w option"

definition pseudo_fs :: "string list" where
  "pseudo_fs = [''/proc'', ''/sys'', ''/dev'', ''/run'']"

definition moved_path :: "string \<Rightarrow> string" where
  "moved_path fs = snd (snprintf 64 (STANDBY_ROOT @ fs))"

fun move_back :: "'w standby_env \<Rightarrow> nat \<Rightarrow> 'w \<Rightarrow> 'w" where
  "move_back env 0 w = w"
| "move_back env (Suc moved) w =
     move_back env moved (snd (sb_mount env (moved_path (pseudo_fs ! moved)) (pseudo_fs ! moved) None MS_MOVE None w))"

fun move_loop :: "'w standby_env \<Rightarrow> nat \<Rightarrow> string list \<Rightarrow> 'w \<Rightarrow> rc \<times> 'w" where
  "move_loop env i [] w = (None, w)"
| "move_loop env i (fs # rest) w =
     (case sb_mount env fs (moved_path fs) None MS_MOVE None w of
        (Some e, w) \<Rightarrow> (Some e, move_back env i w)
      | (None, w) \<Rightarrow> move_loop env (Suc i) rest w)"

definition move_pseudo_fs :: "'w standby_env \<Rightarrow> 'w \<Rightarrow> rc \<times> 'w" where
  "move_pseudo_fs env w = move_loop env 0 pseudo_fs w"

definition make_root :: "'w standby_env \<Rightarrow> 'w \<Rightarrow> rc \<times> 'w" where
  "make_root env w =
     (let (r, w) = sb_chdir env STANDBY_ROOT w;
          (r, w) = (if r = None then sb_mount env ''.'' ''/'' None MS_MOVE None w else (r, w))
      in if r \<noteq> None then (r, snd (sb_chdir env ''/'' w))
         else
           let (r, w) = sb_chroot env ''.'' w
           in if r = None then sb_chdir env ''/'' w else (r, w))"

definition layer_dirs :: "string list" where
  "layer_dirs =
     [''/run/kmorph'', STANDBY_LAYERS, STANDBY_LAYERS @ ''/image'', STANDBY_LAYERS @ ''/upper'',
      STANDBY_LAYERS @ ''/work'', STANDBY_ROOT]"

fun make_dirs :: "'w standby_env \<Rightarrow> string list \<Rightarrow> 'w \<Rightarrow> rc \<times> 'w" where
  "make_dirs env [] w = (None, w)"
| "make_dirs env (d # ds) w =
     (case sb_mkdir env d w of (Some e, w) \<Rightarrow> (Some e, w) | (None, w) \<Rightarrow> make_dirs env ds w)"

definition mount_root :: "'w standby_env \<Rightarrow> 'w \<Rightarrow> rc \<times> 'w" where
  "mount_root env w =
     (let (r, w) = make_dirs env layer_dirs w;
          (r, w) = (if r = None then sb_mount env STANDBY_IMAGE (STANDBY_LAYERS @ ''/image'') (Some ''erofs'') MS_RDONLY None w
                    else (r, w))
      in if r \<noteq> None then (r, w)
         else
           let (r, w) = sb_mount env ''overlay'' STANDBY_ROOT (Some ''overlay'') 0
                 (Some (''lowerdir='' @ STANDBY_LAYERS @ ''/image,upperdir='' @ STANDBY_LAYERS
                        @ ''/upper,workdir='' @ STANDBY_LAYERS @ ''/work'')) w
           in if r \<noteq> None then (r, snd (sb_umount env (STANDBY_LAYERS @ ''/image'') w)) else (r, w))"

definition allow_nonlocal_bind :: "'w standby_env \<Rightarrow> 'w \<Rightarrow> 'w" where
  "allow_nonlocal_bind env w =
     (let (r, w) = sb_write env ''/proc/sys/net/ipv4/ip_nonlocal_bind'' ''1'' w
      in snd (sb_write env ''/proc/sys/net/ipv6/ip_nonlocal_bind'' ''1'' w))"

text \<open>The steps behind the label \<open>unmount\<close> of \<open>standby_enter\<close>.\<close>

definition unmount_root :: "'w standby_env \<Rightarrow> 'w \<Rightarrow> 'w" where
  "unmount_root env w =
     (let (r, w) = sb_umount env STANDBY_ROOT w in snd (sb_umount env (STANDBY_LAYERS @ ''/image'') w))"

definition standby_enter :: "'w standby_env \<Rightarrow> string \<Rightarrow> 'w \<Rightarrow> (nat res \<times> 'w) option" where
  "standby_enter env config_path w =
     (case mount_root env w of
        (Some e, w) \<Rightarrow> Some (Inl e, w)
      | (None, w) \<Rightarrow>
     (case sb_copy env config_path STANDBY_CONFIG w of
        (Some e, w) \<Rightarrow> Some (Inl e, unmount_root env w)
      | (None, w) \<Rightarrow>
          let (r, w) = sb_copy env NETSNAP_PATH STANDBY_NETWORK w in
     (case move_pseudo_fs env w of
        (Some e, w) \<Rightarrow> Some (Inl e, unmount_root env w)
      | (None, w) \<Rightarrow>
     (case make_root env w of
        (Some e, w) \<Rightarrow> Some (Inl e, unmount_root env (move_back env (length pseudo_fs) w))
      | (None, w) \<Rightarrow>
          (case sb_fork env (allow_nonlocal_bind env w) of
             (Inl e, w) \<Rightarrow> Some (Inr 1, w)
           | (Inr pid, w) \<Rightarrow>
               if pid = 0 then Some (Inr 0, w)
               else case sb_exec env STANDBY_INIT w of
                      None \<Rightarrow> None
                    | Some (e, w) \<Rightarrow> map_option (\<lambda>w. (Inl e, w)) (sb_idle env w))))))"

section \<open>The main function\<close>

text \<open>
  What the main function uses of its process beside the host's calls.  A fork
  returns 0 in the child; \<open>None\<close> of \<open>pr_exec\<close> is the process replaced.
\<close>

record 'w proc =
  pr_pid :: "'w \<Rightarrow> nat"
  pr_umount :: "string \<Rightarrow> 'w \<Rightarrow> rc \<times> 'w"
  pr_chdir :: "string \<Rightarrow> 'w \<Rightarrow> rc \<times> 'w"
  pr_chroot :: "string \<Rightarrow> 'w \<Rightarrow> rc \<times> 'w"
  pr_fork :: "'w \<Rightarrow> nat res \<times> 'w"
  pr_exec :: "string \<Rightarrow> 'w \<Rightarrow> (errno \<times> 'w) option"
  pr_pipe :: "'w \<Rightarrow> (nat \<times> nat) res \<times> 'w"
  pr_read1 :: "nat \<Rightarrow> 'w \<Rightarrow> nat res \<times> 'w"
  pr_setsid :: "'w \<Rightarrow> 'w"
  pr_open_null :: "'w \<Rightarrow> nat option \<times> 'w"
  pr_dup2 :: "nat \<Rightarrow> nat \<Rightarrow> 'w \<Rightarrow> 'w"

definition sys_copy :: "'w sys \<Rightarrow> string \<Rightarrow> string \<Rightarrow> 'w \<Rightarrow> rc \<times> 'w" where
  "sys_copy s from to w = (case sys_read s w from of Inl e \<Rightarrow> (Some e, w) | Inr buf \<Rightarrow> sys_write s to buf w)"

definition standby_default_env :: "'w host \<Rightarrow> 'w sys \<Rightarrow> 'w proc \<Rightarrow> 'w standby_env" where
  "standby_default_env h s p =
     \<lparr>sb_mount = hs_mount h, sb_umount = pr_umount p, sb_mkdir = sys_mkdir h, sb_copy = sys_copy s,
      sb_chdir = pr_chdir p, sb_chroot = pr_chroot p, sb_write = sys_write s, sb_fork = pr_fork p,
      sb_exec = pr_exec p, sb_idle = (\<lambda>w. None)\<rparr>"

partial_function (option) wait_loop :: "'w proc \<Rightarrow> nat \<Rightarrow> 'w \<Rightarrow> (nat \<times> 'w) option" where
  "wait_loop p fd w =
     (case pr_read1 p fd w of
        (Inl e, w) \<Rightarrow> if e = EINTR then wait_loop p fd w else Some (1, w)
      | (Inr n, w) \<Rightarrow> Some (if n = 1 then 0 else 1, w))"

definition wait_for_takeover :: "'w host \<Rightarrow> 'w proc \<Rightarrow> nat \<times> nat \<Rightarrow> 'w \<Rightarrow> (nat \<times> 'w) option" where
  "wait_for_takeover h p pipefd w = wait_loop p (fst pipefd) (hs_close h (snd pipefd) w)"

text \<open>
  Detaching: \<open>Inl\<close> is the exit code of this process, \<open>Inr\<close> the descriptor the
  child reports the takeover to.
\<close>

definition daemonize :: "'w host \<Rightarrow> 'w proc \<Rightarrow> bool \<Rightarrow> 'w \<Rightarrow> ((nat + nat option) \<times> 'w) option" where
  "daemonize h p wait w =
     (case (if wait then let (r, w) = pr_pipe p w in (map_sum id Some r, w) else (Inr None, w)) of
        (Inl e, w) \<Rightarrow> Some (Inl 1, w)
      | (Inr pipefd, w) \<Rightarrow>
     (case pr_fork p w of
        (Inl e, w) \<Rightarrow> Some (Inl 1, w)
      | (Inr pid, w) \<Rightarrow>
          if pid > 0 then
            (case pipefd of
               None \<Rightarrow> Some (Inl 0, w)
             | Some fds \<Rightarrow> map_option (\<lambda>(c, w). (Inl c, w)) (wait_for_takeover h p fds w))
          else
            let w = (case pipefd of None \<Rightarrow> w | Some fds \<Rightarrow> hs_close h (fst fds) w);
                w = snd (pr_chdir p ''/'' (pr_setsid p w));
                (null, w) = pr_open_null p w;
                w = (case null of
                       None \<Rightarrow> w
                     | Some fd \<Rightarrow> hs_close h fd (pr_dup2 p fd 2 (pr_dup2 p fd 1 (pr_dup2 p fd 0 w))))
            in Some (Inr (map_option snd pipefd), w)))"

text \<open>What \<open>getopt_long\<close> returns, one option at a time.\<close>

datatype kmorphd_opt = Opt_config string | Opt_foreground | Opt_wait | Opt_unknown

record kmorphd_args =
  ka_config :: string
  ka_foreground :: bool
  ka_wait :: bool

fun kmorphd_options :: "kmorphd_opt list \<Rightarrow> kmorphd_args \<Rightarrow> kmorphd_args option" where
  "kmorphd_options [] a = Some a"
| "kmorphd_options (Opt_config p # os) a = kmorphd_options os (a\<lparr>ka_config := p\<rparr>)"
| "kmorphd_options (Opt_foreground # os) a = kmorphd_options os (a\<lparr>ka_foreground := True\<rparr>)"
| "kmorphd_options (Opt_wait # os) a = kmorphd_options os (a\<lparr>ka_wait := True\<rparr>)"
| "kmorphd_options (Opt_unknown # os) a = None"

definition KMORPH_CONFIG_PATH :: string where "KMORPH_CONFIG_PATH = ''/etc/kmorph/kmorph.conf''"

text \<open>
  As init: the filesystems, then the standby image.  The result is whether the
  process still is init, whether it stays in the foreground, and the path of
  the configuration; \<open>None\<close> when the process became the image's init.
\<close>

definition kmorphd_enter ::
    "'w host \<Rightarrow> 'w sys \<Rightarrow> 'w proc \<Rightarrow> kmorphd_args \<Rightarrow> 'w \<Rightarrow> ((bool \<times> kmorphd_args) \<times> 'w) option" where
  "kmorphd_enter h s p a w =
     (let init = pr_pid p w = 1;
          w = (if init then snd (init_mount_filesystems (init_default_env h) w) else w)
      in if \<not> (init \<and> sys_access s w STANDBY_IMAGE) then Some ((init, a), w)
         else
           case standby_enter (standby_default_env h s p) (ka_config a) w of
             None \<Rightarrow> None
           | Some (Inl e, w) \<Rightarrow> Some ((init, a), w)
           | Some (Inr r, w) \<Rightarrow>
               let a = a\<lparr>ka_config := STANDBY_CONFIG\<rparr>
               in Some (if r = 0 then ((False, a\<lparr>ka_foreground := True\<rparr>), w) else ((init, a), w)))"

definition kmorphd_config ::
    "alloc \<Rightarrow> (errno \<Rightarrow> string) \<Rightarrow> 'w sys \<Rightarrow> string \<Rightarrow> 'w \<Rightarrow> rc \<times> kmorph_config" where
  "kmorphd_config ok strerror s path w =
     (let (r, cfg, err) = config_load ok strerror (read_string s w) path config_zero 128 [];
          (r, cfg, err) = (if r = Some ENOENT then config_parse ok strerror [] 128 err else (r, cfg, err))
      in (r, cfg))"

text \<open>The whole program: its exit code, when it ends.  \<open>operands\<close>: arguments that are no options.\<close>

definition kmorphd_main ::
    "(errno \<Rightarrow> string) \<Rightarrow> 'w host \<Rightarrow> 'w kern \<Rightarrow> 'w netsnap_env \<Rightarrow> 'w proc \<Rightarrow> kmorphd_opt list \<Rightarrow> bool \<Rightarrow> 'w \<Rightarrow> (nat \<times> 'w) option" where
  "kmorphd_main strerror h k net p opts operands w =
     (case kmorphd_options opts \<lparr>ka_config = KMORPH_CONFIG_PATH, ka_foreground = False, ka_wait = False\<rparr> of
        None \<Rightarrow> Some (2, w)
      | Some a \<Rightarrow>
          if operands \<or> ka_foreground a \<and> ka_wait a then Some (2, w)
          else
     (case kmorphd_enter h (k_sys k) p a w of
        None \<Rightarrow> None
      | Some ((init, a), w) \<Rightarrow>
     (case kmorphd_config (k_alloc k) strerror (k_sys k) (ka_config a) w of
        (Some e, cfg) \<Rightarrow> Some (1, w)
      | (None, cfg) \<Rightarrow>
     (case (if \<not> ka_foreground a \<and> \<not> init then daemonize h p (ka_wait a) w else Some (Inr None, w)) of
        None \<Rightarrow> None
      | Some (Inl code, w) \<Rightarrow> Some (code, w)
      | Some (Inr ready, w) \<Rightarrow>
     (case daemon_setup h k net init cfg ready w of
        (Some e, d) \<Rightarrow> Some (1, dm_world d)
      | (None, d) \<Rightarrow> map_option (\<lambda>d. (0, dm_world d)) (daemon_run h k d))))))"

section \<open>What a failed entry leaves mounted\<close>

text \<open>
  The mount calls with their results, and what a mount table (paths to what is
  mounted there) is after them: a successful mount adds an entry, moving a mount
  takes along what is mounted below it, unmounting removes the entry.
\<close>

datatype mount_call = Mounts string string nat | Unmounts string

type_synonym mount_log = "(mount_call \<times> rc) list"
type_synonym mount_table = "string \<rightharpoonup> string"

definition log_mount :: "('w \<Rightarrow> rc \<times> 'w) \<Rightarrow> mount_call \<Rightarrow> 'w \<times> mount_log \<Rightarrow> rc \<times> 'w \<times> mount_log" where
  "log_mount f c = (\<lambda>(w, l). let (r, w) = f w in (r, w, l @ [(c, r)]))"

definition unlogged_mount :: "('w \<Rightarrow> 'a \<times> 'w) \<Rightarrow> 'w \<times> mount_log \<Rightarrow> 'a \<times> 'w \<times> mount_log" where
  "unlogged_mount f = (\<lambda>(w, l). let (r, w) = f w in (r, w, l))"

definition log_standby :: "'w standby_env \<Rightarrow> ('w \<times> mount_log) standby_env" where
  "log_standby env =
     \<lparr>sb_mount = (\<lambda>src target ty f x. log_mount (sb_mount env src target ty f x) (Mounts src target f)),
      sb_umount = (\<lambda>target. log_mount (sb_umount env target) (Unmounts target)),
      sb_mkdir = (\<lambda>p. unlogged_mount (sb_mkdir env p)), sb_copy = (\<lambda>a b. unlogged_mount (sb_copy env a b)),
      sb_chdir = (\<lambda>p. unlogged_mount (sb_chdir env p)), sb_chroot = (\<lambda>p. unlogged_mount (sb_chroot env p)),
      sb_write = (\<lambda>p s. unlogged_mount (sb_write env p s)), sb_fork = unlogged_mount (sb_fork env),
      sb_exec = (\<lambda>p (w, l). map_option (\<lambda>(e, w). (e, w, l)) (sb_exec env p w)),
      sb_idle = (\<lambda>(w, l). map_option (\<lambda>w. (w, l)) (sb_idle env w))\<rparr>"

definition below :: "string \<Rightarrow> string \<Rightarrow> bool" where
  "below d p = (p = d \<or> take (length d + 1) p = d @ ''/'')"

definition move_tree :: "string \<Rightarrow> string \<Rightarrow> mount_table \<Rightarrow> mount_table" where
  "move_tree src target m =
     (\<lambda>p. if below target p then m (src @ drop (length target) p) else if below src p then None else m p)"

fun mount_effect :: "mount_call \<times> rc \<Rightarrow> mount_table \<Rightarrow> mount_table" where
  "mount_effect (c, Some e) m = m"
| "mount_effect (Mounts src target f, None) m = (if f = MS_MOVE then move_tree src target m else m(target \<mapsto> src))"
| "mount_effect (Unmounts target, None) m = m(target := None)"

definition mounts_after :: "mount_log \<Rightarrow> mount_table \<Rightarrow> mount_table" where
  "mounts_after l m = fold mount_effect l m"

text \<open>
  The calls that put something back: unmounting, and moving a pseudo filesystem
  to where it was.
\<close>

fun puts_back :: "mount_call \<Rightarrow> bool" where
  "puts_back (Unmounts target) = True"
| "puts_back (Mounts src target f) = (f = MS_MOVE \<and> target \<in> set pseudo_fs)"

definition undone :: "mount_log \<Rightarrow> bool" where
  "undone l = list_all (\<lambda>(c, r). puts_back c \<longrightarrow> r = None) l"

definition no_image :: "mount_table \<Rightarrow> bool" where
  "no_image m = (\<forall>p. below STANDBY_ROOT p \<or> below STANDBY_LAYERS p \<longrightarrow> m p = None)"

lemma mounts_after_append [simp]: "mounts_after (l @ l') m = mounts_after l' (mounts_after l m)"
  by (simp add: mounts_after_def)

lemma mounts_after_Nil [simp]: "mounts_after [] m = m"
  by (simp add: mounts_after_def)

lemma mounts_after_Cons [simp]: "mounts_after (x # l) m = mounts_after l (mount_effect x m)"
  by (simp add: mounts_after_def)

lemma undone_append [simp]: "undone (l @ l') \<longleftrightarrow> undone l \<and> undone l'"
  by (simp add: undone_def)

lemma below_append: "below d p \<longleftrightarrow> p = d \<or> (\<exists>r. p = d @ ''/'' @ r)"
proof -
  have "take (length d + 1) p = d @ ''/'' \<longleftrightarrow> (\<exists>r. p = (d @ ''/'') @ r)" (is "?l \<longleftrightarrow> ?r")
  proof
    assume ?l
    then show ?r using append_take_drop_id [of "length d + 1" p, symmetric] by metis
  next
    assume ?r
    then show ?l by auto
  qed
  then show ?thesis by (simp add: below_def)
qed

lemma move_tree_back:
  assumes "\<And>p. below target p \<Longrightarrow> m p = None" and "\<And>p. below target p \<Longrightarrow> \<not> below src p"
  shows "move_tree target src (move_tree src target m) = m"
proof
  fix p
  show "move_tree target src (move_tree src target m) p = m p"
  proof (cases "below src p")
    case True
    then obtain r where p: "p = src @ r" and r: "below target (target @ r)" by (auto simp: below_append)
    then show ?thesis using True by (simp add: move_tree_def)
  next
    case False
    then show ?thesis using assms by (simp add: move_tree_def)
  qed
qed

lemma moved_paths [simp]:
  "moved_path ''/proc'' = ''/standby/proc''" "moved_path ''/sys'' = ''/standby/sys''"
  "moved_path ''/dev'' = ''/standby/dev''" "moved_path ''/run'' = ''/standby/run''"
  by (simp_all add: moved_path_def STANDBY_ROOT_def snprintf_def)

lemma log_standby_calls [simp]:
  "sb_mount (log_standby env) src target ty f x (w, l) = (let (r, w) = sb_mount env src target ty f x w in (r, w, l @ [(Mounts src target f, r)]))"
  "sb_umount (log_standby env) target (w, l) = (let (r, w) = sb_umount env target w in (r, w, l @ [(Unmounts target, r)]))"
  "sb_mkdir (log_standby env) p (w, l) = (let (r, w) = sb_mkdir env p w in (r, w, l))"
  "sb_copy (log_standby env) p s (w, l) = (let (r, w) = sb_copy env p s w in (r, w, l))"
  "sb_chdir (log_standby env) p (w, l) = (let (r, w) = sb_chdir env p w in (r, w, l))"
  "sb_chroot (log_standby env) p (w, l) = (let (r, w) = sb_chroot env p w in (r, w, l))"
  "sb_write (log_standby env) p s (w, l) = (let (r, w) = sb_write env p s w in (r, w, l))"
  "sb_fork (log_standby env) (w, l) = (let (r', w) = sb_fork env w in (r', w, l))"
  "sb_exec (log_standby env) p (w, l) = map_option (\<lambda>(e, w). (e, w, l)) (sb_exec env p w)"
  "sb_idle (log_standby env) (w, l) = map_option (\<lambda>w. (w, l)) (sb_idle env w)"
  by (simp_all add: log_standby_def log_mount_def unlogged_mount_def)

definition clear :: "string set \<Rightarrow> mount_table \<Rightarrow> bool" where
  "clear S m = (\<forall>fs\<in>S. \<forall>p. below (moved_path fs) p \<longrightarrow> m p = None)"

definition moved_tree :: "string list \<Rightarrow> mount_table \<Rightarrow> mount_table" where
  "moved_tree fss m = fold (\<lambda>fs. move_tree fs (moved_path fs)) fss m"

lemma pseudo_fs_apart:
  assumes "a \<in> set pseudo_fs" and "b \<in> set pseudo_fs" and "below (moved_path a) p"
  shows "\<not> below b p" and "a \<noteq> b \<Longrightarrow> \<not> below (moved_path b) p"
  using assms by (auto simp: pseudo_fs_def below_append)

lemma clear_move_tree:
  assumes "clear S m" and "S \<subseteq> set pseudo_fs" and "a \<in> set pseudo_fs" and "a \<notin> S"
  shows "clear S (move_tree a (moved_path a) m)"
  using assms pseudo_fs_apart(2) unfolding clear_def move_tree_def by (smt (verit) subsetD)

lemma clear_moved_tree:
  assumes "clear S m" and "S \<subseteq> set pseudo_fs" and "set fss \<subseteq> set pseudo_fs - S"
  shows "clear S (moved_tree fss m)"
  using assms by (induction fss arbitrary: m) (simp_all add: moved_tree_def clear_move_tree)

lemma pseudo_fs_nth: "i < length pseudo_fs \<Longrightarrow> pseudo_fs ! i \<in> set pseudo_fs - set (take i pseudo_fs)"
  by (auto simp: pseudo_fs_def less_Suc_eq)

lemma moved_tree_Suc:
  "i < length pseudo_fs \<Longrightarrow>
   moved_tree (take (Suc i) pseudo_fs) m = move_tree (pseudo_fs ! i) (moved_path (pseudo_fs ! i)) (moved_tree (take i pseudo_fs) m)"
  by (simp add: moved_tree_def take_Suc_conv_app_nth)

lemma move_back_undoes:
  assumes "clear (set pseudo_fs) m" and "i \<le> length pseudo_fs" and "move_back (log_standby env) i (w, l) = (w', l')"
  shows "\<exists>n. l' = l @ n \<and> (undone n \<longrightarrow> mounts_after n (moved_tree (take i pseudo_fs) m) = m)"
  using assms(2,3)
proof (induction i arbitrary: w l)
  case 0
  then show ?case by (simp add: moved_tree_def)
next
  case (Suc i)
  let ?fs = "pseudo_fs ! i"
  have fs: "?fs \<in> set pseudo_fs" "?fs \<notin> set (take i pseudo_fs)" using pseudo_fs_nth [of i] Suc.prems by auto
  obtain r w1 where 1: "sb_mount env (moved_path ?fs) ?fs None MS_MOVE None w = (r, w1)" by (rule prod.exhaust)
  let ?x = "(Mounts (moved_path ?fs) ?fs MS_MOVE, r)"
  obtain n where n: "l' = (l @ [?x]) @ n" "undone n \<longrightarrow> mounts_after n (moved_tree (take i pseudo_fs) m) = m"
    using Suc.IH [of w1 "l @ [?x]"] Suc.prems by (auto simp: 1)
  have "clear {?fs} (moved_tree (take i pseudo_fs) m)"
    using assms(1) fs by (intro clear_moved_tree) (auto simp: clear_def dest: in_set_takeD)
  then have "move_tree (moved_path ?fs) ?fs (moved_tree (take (Suc i) pseudo_fs) m) = moved_tree (take i pseudo_fs) m"
    unfolding moved_tree_Suc [OF Suc_le_lessD [OF Suc.prems(1)]]
    using fs pseudo_fs_apart(1) by (intro move_tree_back) (auto simp: clear_def)
  then show ?case using n fs(1) by (intro exI [of _ "?x # n"]) (auto simp: undone_def)
qed

lemma move_loop_result:
  assumes "clear (set pseudo_fs) m" and "i \<le> length pseudo_fs"
    and "move_loop (log_standby env) i (drop i pseudo_fs) (w, l) = (r, w', l')"
  shows "\<exists>n. l' = l @ n \<and> (undone n \<longrightarrow> mounts_after n (moved_tree (take i pseudo_fs) m) = (if r = None then moved_tree pseudo_fs m else m))"
  using assms(2,3)
proof (induction "length pseudo_fs - i" arbitrary: i w l)
  case 0
  then show ?case by auto
next
  case (Suc k)
  let ?fs = "pseudo_fs ! i"
  from Suc.hyps have i: "i < length pseudo_fs" by simp
  obtain r1 w1 where 1: "sb_mount env ?fs (moved_path ?fs) None MS_MOVE None w = (r1, w1)" by (rule prod.exhaust)
  let ?x = "(Mounts ?fs (moved_path ?fs) MS_MOVE, r1)"
  have drop: "drop i pseudo_fs = ?fs # drop (Suc i) pseudo_fs" using i by (simp add: Cons_nth_drop_Suc)
  show ?case
  proof (cases r1)
    case None
    then have "move_loop (log_standby env) (Suc i) (drop (Suc i) pseudo_fs) (w1, l @ [?x]) = (r, w', l')"
      using Suc.prems(2) by (simp add: drop 1)
    moreover have "k = length pseudo_fs - Suc i" using Suc.hyps(2) by simp
    ultimately obtain n where "l' = (l @ [?x]) @ n"
      "undone n \<longrightarrow> mounts_after n (moved_tree (take (Suc i) pseudo_fs) m) = (if r = None then moved_tree pseudo_fs m else m)"
      using Suc.hyps(1) [of "Suc i" w1 "l @ [?x]"] i by auto
    then show ?thesis using None i by (intro exI [of _ "?x # n"]) (auto simp: undone_def moved_tree_Suc)
  next
    case (Some e)
    then have "r = Some e" and b: "move_back (log_standby env) i (w1, l @ [?x]) = (w', l')"
      using Suc.prems(2) by (auto simp: drop 1)
    from move_back_undoes [OF assms(1) _ b] i obtain n where "l' = (l @ [?x]) @ n"
      "undone n \<longrightarrow> mounts_after n (moved_tree (take i pseudo_fs) m) = m" by auto
    then show ?thesis using Some \<open>r = Some e\<close> by (intro exI [of _ "?x # n"]) (auto simp: undone_def)
  qed
qed
definition with_image :: "mount_table \<Rightarrow> mount_table" where
  "with_image m = m(STANDBY_LAYERS @ ''/image'' \<mapsto> STANDBY_IMAGE, STANDBY_ROOT \<mapsto> ''overlay'')"

definition root_moved :: "mount_log \<Rightarrow> bool" where
  "root_moved l = ((Mounts ''.'' ''/'' MS_MOVE, None) \<in> set l)"

lemma flags_not_move [simp]: "MS_RDONLY \<noteq> MS_MOVE" "0 \<noteq> MS_MOVE"
  by (simp_all add: MS_RDONLY_def MS_MOVE_def)

lemma make_dirs_logs_nothing: "make_dirs (log_standby env) ds (w, l) = (r, w', l') \<Longrightarrow> l' = l"
  by (induction ds arbitrary: w) (auto split: prod.splits option.splits)

lemma moved_path_below:
  assumes "fs \<in> set pseudo_fs" and "below (moved_path fs) p"
  shows "below STANDBY_ROOT p" and "p \<noteq> STANDBY_ROOT" and "p \<noteq> STANDBY_LAYERS @ ''/image''"
  using assms by (auto simp: pseudo_fs_def below_append STANDBY_ROOT_def STANDBY_LAYERS_def)

lemma no_image_clear:
  assumes "no_image m"
  shows "clear (set pseudo_fs) (with_image m)" and "m (STANDBY_LAYERS @ ''/image'') = None" and "m STANDBY_ROOT = None"
proof -
  have none: "m p = None" if "below STANDBY_ROOT p \<or> below STANDBY_LAYERS p" for p
    using assms that by (simp only: no_image_def)
  show "clear (set pseudo_fs) (with_image m)"
    by (auto simp: clear_def with_image_def moved_path_below none)
  show "m (STANDBY_LAYERS @ ''/image'') = None" by (rule none) (simp add: below_def)
  show "m STANDBY_ROOT = None" by (rule none) (simp add: below_def)
qed

lemma mount_root_result:
  assumes "no_image m" and "mount_root (log_standby env) (w, l) = (r, w', l')"
  shows "\<exists>n. l' = l @ n \<and> (undone n \<longrightarrow> mounts_after n m = (if r = None then with_image m else m))"
proof -
  obtain r1 w1 l1 where 1: "make_dirs (log_standby env) layer_dirs (w, l) = (r1, w1, l1)" by (rule prod_cases3)
  have l1: "l1 = l" using make_dirs_logs_nothing [OF 1] .
  have "m(STANDBY_LAYERS @ ''/image'' \<mapsto> x, STANDBY_LAYERS @ ''/image'' := None) = m" for x
    using no_image_clear(2) [OF assms(1)] by auto
  then show ?thesis
    using assms(2) by (auto simp: mount_root_def 1 l1 Let_def undone_def with_image_def split: prod.splits if_splits option.splits)
qed

lemma unmount_root_result:
  assumes "no_image m" and "unmount_root (log_standby env) (w, l) = (w', l')"
  shows "\<exists>n. l' = l @ n \<and> (undone n \<longrightarrow> mounts_after n (with_image m) = m)"
proof -
  have "(with_image m)(STANDBY_ROOT := None, STANDBY_LAYERS @ ''/image'' := None) = m"
    using no_image_clear(2,3) [OF assms(1)] by (auto simp: with_image_def)
  then show ?thesis
    using assms(2) by (auto simp: unmount_root_def Let_def undone_def split: prod.splits)
qed

lemma make_root_result:
  assumes "make_root (log_standby env) (w, l) = (r, w', l')"
  shows "\<exists>n. l' = l @ n \<and> (root_moved n \<or> r \<noteq> None \<and> (\<forall>m. mounts_after n m = m))"
  using assms by (auto simp: make_root_def Let_def root_moved_def split: prod.splits if_splits)

lemma failed_entry_unmounts:
  assumes "no_image m" and "undone n1" and "mounts_after n1 m = with_image m"
    and "unmount_root (log_standby env) (w, n1) = (w', l')" and "undone l'"
  shows "mounts_after l' m = m"
  using unmount_root_result [OF assms(1,4)] assms(2,3,5) by auto

text \<open>C37: When \<open>standby_enter\<close> returns an error and the image was not moved over the
  root, the mount table is what it was before, provided that the calls that put
  mounts back succeed and that nothing was mounted at the image's places: for
  every environment, whichever of the calls failed.\<close>

theorem standby_enter_puts_back:
  assumes "standby_enter (log_standby env) config_path (w, []) = Some (Inl e, w', l)"
    and "undone l" and "no_image m" and "\<not> root_moved l"
  shows "mounts_after l m = m"
proof -
  obtain r1 w1 l1 where 1: "mount_root (log_standby env) (w, []) = (r1, w1, l1)" by (rule prod_cases3)
  obtain r2 w2 where 2: "sb_copy env config_path STANDBY_CONFIG w1 = (r2, w2)" by (rule prod.exhaust)
  obtain r3 w3 where 3: "sb_copy env NETSNAP_PATH STANDBY_NETWORK w2 = (r3, w3)" by (rule prod.exhaust)
  obtain r4 w4 l4 where 4: "move_pseudo_fs (log_standby env) (w3, l1) = (r4, w4, l4)" by (rule prod_cases3)
  obtain r5 w5 l5 where 5: "make_root (log_standby env) (w4, l4) = (r5, w5, l5)" by (rule prod_cases3)
  obtain w6 l6 where 6: "move_back (log_standby env) (length pseudo_fs) (w5, l5) = (w6, l6)" by (rule prod.exhaust)
  note clear = no_image_clear(1) [OF assms(3)]
  have m1: "undone l1 \<Longrightarrow> mounts_after l1 m = (if r1 = None then with_image m else m)"
    using mount_root_result [OF assms(3) 1] by auto
  obtain n4 where l4: "l4 = l1 @ n4"
    "undone n4 \<Longrightarrow> mounts_after n4 (with_image m) = (if r4 = None then moved_tree pseudo_fs (with_image m) else with_image m)"
    using move_loop_result [OF clear, of 0 env w3 l1 r4 w4 l4] 4 by (auto simp: move_pseudo_fs_def moved_tree_def)
  obtain n5 where l5: "l5 = l4 @ n5" "root_moved n5 \<or> r5 \<noteq> None \<and> (\<forall>m. mounts_after n5 m = m)"
    using make_root_result [OF 5] by auto
  obtain n6 where l6: "l6 = l5 @ n6" "undone n6 \<Longrightarrow> mounts_after n6 (moved_tree pseudo_fs (with_image m)) = with_image m"
    using move_back_undoes [OF clear _ 6] by auto
  have pre: "undone k \<and> \<not> root_moved k" if "unmount_root (log_standby env) (v, k) = (w', l)" for v k
    using unmount_root_result [OF assms(3) that] assms(2,4) by (auto simp: root_moved_def)
  consider "r1 \<noteq> None" "l = l1" | "r1 = None" "unmount_root (log_standby env) (w2, l1) = (w', l)"
    | "r1 = None" "r4 \<noteq> None" "unmount_root (log_standby env) (w4, l4) = (w', l)"
    | "r1 = None" "r4 = None" "r5 \<noteq> None" "unmount_root (log_standby env) (w6, l6) = (w', l)" | "r5 = None" "l = l5"
    using assms(1)
    by (auto simp: standby_enter_def allow_nonlocal_bind_def 1 2 3 4 5 6 split: option.splits prod.splits sum.splits if_splits)
  then show ?thesis
  proof cases
    case 1
    then show ?thesis using m1 assms(2) by auto
  next
    case 2
    then show ?thesis using m1 pre [OF 2(2)] by (intro failed_entry_unmounts [OF assms(3) _ _ 2(2) assms(2)]) auto
  next
    case 3
    then show ?thesis using m1 l4 pre [OF 3(3)] by (intro failed_entry_unmounts [OF assms(3) _ _ 3(3) assms(2)]) auto
  next
    case 4
    then have "undone l6" "\<not> root_moved n5" using pre [OF 4(4)] l6(1) l5(1) by (auto simp: root_moved_def)
    then show ?thesis using 4 m1 l4 l5 l6 by (intro failed_entry_unmounts [OF assms(3) _ _ 4(4) assms(2)]) auto
  next
    case 5
    then show ?thesis using l5 assms(4) by (auto simp: root_moved_def)
  qed
qed

text \<open>An environment where moving \<open>/run\<close> into the image fails, and the table it starts from.\<close>

definition busy_run :: "unit standby_env" where
  "busy_run =
     \<lparr>sb_mount = (\<lambda>src target ty f x w. (if src = ''/run'' then Some EBUSY else None, w)), sb_umount = (\<lambda>p w. (None, w)),
      sb_mkdir = (\<lambda>p w. (None, w)), sb_copy = (\<lambda>a b w. (None, w)), sb_chdir = (\<lambda>p w. (None, w)),
      sb_chroot = (\<lambda>p w. (None, w)), sb_write = (\<lambda>p s w. (None, w)), sb_fork = (\<lambda>w. (Inr 0, w)),
      sb_exec = (\<lambda>p w. None), sb_idle = (\<lambda>w. None)\<rparr>"

definition first_mounts :: mount_table where
  "first_mounts = [''/proc'' \<mapsto> ''proc'', ''/sys'' \<mapsto> ''sysfs'', ''/dev'' \<mapsto> ''devtmpfs'', ''/run'' \<mapsto> ''tmpfs'']"

definition busy_log :: mount_log where
  "busy_log =
     [(Mounts STANDBY_IMAGE (STANDBY_LAYERS @ ''/image'') MS_RDONLY, None), (Mounts ''overlay'' STANDBY_ROOT 0, None),
      (Mounts ''/proc'' ''/standby/proc'' MS_MOVE, None), (Mounts ''/sys'' ''/standby/sys'' MS_MOVE, None),
      (Mounts ''/dev'' ''/standby/dev'' MS_MOVE, None), (Mounts ''/run'' ''/standby/run'' MS_MOVE, Some EBUSY),
      (Mounts ''/standby/dev'' ''/dev'' MS_MOVE, None), (Mounts ''/standby/sys'' ''/sys'' MS_MOVE, None),
      (Mounts ''/standby/proc'' ''/proc'' MS_MOVE, None), (Unmounts STANDBY_ROOT, None),
      (Unmounts (STANDBY_LAYERS @ ''/image''), None)]"

lemma busy_calls:
  "sb_mount busy_run src target ty f x w = (if src = ''/run'' then Some EBUSY else None, w)"
  "sb_umount busy_run p w = (None, w)" "sb_mkdir busy_run p w = (None, w)" "sb_copy busy_run p q w = (None, w)"
  by (simp_all add: busy_run_def)

lemma busy_run_fails:
  "standby_enter (log_standby busy_run) ''/kmorph.conf'' ((), []) = Some (Inl EBUSY, (), busy_log)"
proof -
  have make_dirs: "make_dirs (log_standby busy_run) ds (w, l) = (None, w, l)" for ds w l
    by (induction ds) (simp_all add: busy_calls)
  have "move_pseudo_fs (log_standby busy_run) ((), l) =
      (Some EBUSY, (), l @ take 7 (drop 2 busy_log))" for l
    by (simp add: move_pseudo_fs_def pseudo_fs_def busy_calls busy_log_def eval_nat_numeral)
  then show ?thesis
    by (simp add: standby_enter_def mount_root_def make_dirs unmount_root_def busy_log_def busy_calls STANDBY_IMAGE_def)
qed

theorem standby_enter_puts_back_witness:
  "mounts_after busy_log first_mounts = first_mounts \<and>
   (Mounts ''/run'' ''/standby/run'' MS_MOVE, Some EBUSY) \<in> set busy_log"
proof -
  have "no_image first_mounts" by (auto simp: no_image_def first_mounts_def below_append STANDBY_ROOT_def STANDBY_LAYERS_def)
  moreover have "undone busy_log" and "\<not> root_moved busy_log"
    by (simp_all add: busy_log_def undone_def root_moved_def pseudo_fs_def)
  ultimately show ?thesis
    using standby_enter_puts_back [OF busy_run_fails] by (simp add: busy_log_def)
qed

end
