(* ===== verification/Devname.thy ===== *)
theory Devname
  imports Pci Memory
begin

text \<open>
  From a device's name to the PCI function behind it (lib/devname.c).  Where a
  link of sysfs leads, \<open>realpath\<close>, is a parameter: it depends on the machine.
  The theorem shows that the function found is the nearest one above the device.
\<close>

section \<open>Resolving a name\<close>

definition DEVNAME_CLASS_ROOT :: string where "DEVNAME_CLASS_ROOT = ''/sys/class''"
definition DEVNAME_USB_ROOT :: string where "DEVNAME_USB_ROOT = ''/sys/bus/usb/devices''"

definition devname_is_pci_id :: "string \<Rightarrow> bool" where
  "devname_is_pci_id s =
     (let pattern = ''hhhh:hh:hh.h'' in
      length s = length pattern \<and>
      list_all (\<lambda>(p, c). if p = CHR ''h'' then isxdigit c else c = p) (zip pattern s))"

definition classes :: "string list" where
  "classes = [''net'', ''block'', ''graphics'']"

text \<open>The path before its last slash, and what follows the last slash.\<close>

definition before_slash :: "string \<Rightarrow> string" where
  "before_slash path = rev (tl (dropWhile (\<lambda>c. c \<noteq> CHR ''/'') (rev path)))"

definition after_slash :: "string \<Rightarrow> string" where
  "after_slash path = rev (takeWhile (\<lambda>c. c \<noteq> CHR ''/'') (rev path))"

lemma before_slash_shorter: "CHR ''/'' \<in> set path \<Longrightarrow> length (before_slash path) < length path"
proof -
  assume "CHR ''/'' \<in> set path"
  then have "dropWhile (\<lambda>c. c \<noteq> CHR ''/'') (rev path) \<noteq> []" by (simp add: dropWhile_eq_Nil_conv)
  then have "length (tl (dropWhile (\<lambda>c. c \<noteq> CHR ''/'') (rev path))) < length (dropWhile (\<lambda>c. c \<noteq> CHR ''/'') (rev path))" by simp
  also have "\<dots> \<le> length (rev path)" by (rule length_dropWhile_le)
  finally show ?thesis by (simp add: before_slash_def)
qed

function nearest_function :: "nat \<Rightarrow> string \<Rightarrow> string res" where
  "nearest_function len path =
     (if CHR ''/'' \<notin> set path then Inl ENODEV
      else
        let path = before_slash path; base = after_slash path in
        if devname_is_pci_id base then Inr (snd (snprintf len base)) else nearest_function len path)"
  by pat_completeness auto
termination
  by (relation "measure (\<lambda>(len, path). length path)") (auto simp: before_slash_shorter)

declare nearest_function.simps [simp del]

definition devname_resolve ::
    "'w sys \<Rightarrow> ('w \<Rightarrow> string \<Rightarrow> string res) \<Rightarrow> 'w \<Rightarrow> string \<Rightarrow> string \<Rightarrow> string \<Rightarrow> nat \<Rightarrow> string res" where
  "devname_resolve s realpath w class_root usb_root name len =
     (if name = [] \<or> CHR ''/'' \<in> set name then Inl EINVAL
      else
        let paths = map (\<lambda>c. mkpath [class_root, c, name]) classes @ [mkpath [usb_root, name]] in
        case filter (sys_access s w) paths of
          [] \<Rightarrow> Inl ENOENT
        | [found] \<Rightarrow>
            (case realpath w found of Inl e \<Rightarrow> Inl e | Inr path \<Rightarrow> nearest_function len path)
        | _ \<Rightarrow> Inl EEXIST)"

section \<open>The nearest function\<close>

definition path_of :: "string list \<Rightarrow> string" where
  "path_of cs = concat (map (\<lambda>c. CHR ''/'' # c) cs)"

definition component :: "string \<Rightarrow> bool" where
  "component c = (CHR ''/'' \<notin> set c)"

lemma path_of_snoc: "path_of (cs @ [c]) = path_of cs @ CHR ''/'' # c"
  by (simp add: path_of_def)

lemma slash_parts:
  assumes "component c"
  shows "before_slash (p @ CHR ''/'' # c) = p" and "after_slash (p @ CHR ''/'' # c) = c"
proof -
  have c: "\<forall>x \<in> set (rev c). x \<noteq> CHR ''/''" using assms by (auto simp: component_def)
  then have "dropWhile (\<lambda>x. x \<noteq> CHR ''/'') (rev c @ CHR ''/'' # rev p) = CHR ''/'' # rev p" by (subst dropWhile_append2) auto
  then show "before_slash (p @ CHR ''/'' # c) = p" by (simp add: before_slash_def)
  have "takeWhile (\<lambda>x. x \<noteq> CHR ''/'') (rev c @ CHR ''/'' # rev p) = rev c" using c by (subst takeWhile_append2) auto
  then show "after_slash (p @ CHR ''/'' # c) = c" by (simp add: after_slash_def)
qed

lemma pci_id_length: "devname_is_pci_id s \<Longrightarrow> length s = 12"
  by (simp add: devname_is_pci_id_def Let_def)

lemma after_slash_empty: "\<not> devname_is_pci_id (after_slash [])"
  by (simp add: devname_is_pci_id_def after_slash_def)

lemma nearest_function_components:
  assumes "list_all component (cs @ [c])" and "12 < len"
  shows "nearest_function len (path_of (cs @ [c])) =
    (case find devname_is_pci_id (rev cs) of None \<Rightarrow> Inl ENODEV | Some f \<Rightarrow> Inr f)"
  using assms(1)
proof (induction cs arbitrary: c rule: rev_induct)
  case Nil
  then have "before_slash (path_of [c]) = []" using slash_parts(1) [of c "[]"] by (simp add: path_of_def)
  then show ?case by (simp add: nearest_function.simps path_of_def after_slash_empty)
next
  case (snoc f cs)
  have b: "before_slash (path_of ((cs @ [f]) @ [c])) = path_of (cs @ [f])"
    unfolding path_of_snoc [of "cs @ [f]" c] using snoc.prems by (intro slash_parts(1)) simp
  have a: "after_slash (path_of (cs @ [f])) = f"
    unfolding path_of_snoc using snoc.prems by (intro slash_parts(2)) simp
  have "CHR ''/'' \<in> set (path_of ((cs @ [f]) @ [c]))" by (simp add: path_of_def)
  then show ?case
    using snoc.IH [of f] snoc.prems assms(2) pci_id_length [of f]
    by (subst nearest_function.simps) (auto simp only: b a Let_def, auto simp: snprintf_def)
qed

text \<open>C38: A name that exists in exactly one place is resolved to the nearest PCI
  function above its device: of the path sysfs gives for it, the last component
  but one or further up that has the form of a PCI id; without one, \<open>ENODEV\<close>.\<close>

theorem devname_resolve_nearest:
  assumes "name \<noteq> []" and "component name"
    and "filter (sys_access s w) (map (\<lambda>c. mkpath [class_root, c, name]) classes @ [mkpath [usb_root, name]]) = [found]"
    and "realpath w found = Inr (path_of (cs @ [c]))" and "list_all component (cs @ [c])" and "12 < len"
  shows "devname_resolve s realpath w class_root usb_root name len =
    (case find devname_is_pci_id (rev cs) of None \<Rightarrow> Inl ENODEV | Some f \<Rightarrow> Inr f)"
  using assms nearest_function_components [OF assms(5,6)]
  by (simp add: devname_resolve_def component_def)

theorem devname_resolve_nearest_witness:
  "devname_resolve ((one_file [])\<lparr>sys_access := (\<lambda>w p. p = ''/sys/class/net/eth0'')\<rparr>)
     (\<lambda>w p. Inr ''/sys/devices/0000:00:01.0/0000:02:00.1/virtio3/net/eth0'') () DEVNAME_CLASS_ROOT DEVNAME_USB_ROOT ''eth0'' 16 =
   Inr ''0000:02:00.1''"
proof -
  have path: "''/sys/devices/0000:00:01.0/0000:02:00.1/virtio3/net/eth0'' =
      path_of ([''sys'', ''devices'', ''0000:00:01.0'', ''0000:02:00.1'', ''virtio3'', ''net''] @ [''eth0''])"
    by (simp add: path_of_def)
  have find: "find devname_is_pci_id (rev [''sys'', ''devices'', ''0000:00:01.0'', ''0000:02:00.1'', ''virtio3'', ''net'']) = Some ''0000:02:00.1''"
    by code_simp
  show ?thesis
    by (subst devname_resolve_nearest [where found = "''/sys/class/net/eth0''" and c = "''eth0''"
          and cs = "[''sys'', ''devices'', ''0000:00:01.0'', ''0000:02:00.1'', ''virtio3'', ''net'']"])
      (simp_all add: path [simplified] component_def classes_def mkpath_def DEVNAME_CLASS_ROOT_def DEVNAME_USB_ROOT_def PATH_MAX_def snprintf_def find [simplified])
qed

end
