(* ===== verification/Netsnap_Collect.thy ===== *)
theory Netsnap_Collect
  imports Netsnap_Text Devname
begin

text \<open>
  Collecting the network identity on the predecessor, and finding the interface
  of a PCI function again on the successor (lib/netsnap.c).  The links come
  from sysfs, the addresses and routes from two dumps over route netlink, whose
  datagrams are a script.  The theorems show that what parsing accepts and what
  collecting yields has the form the other side reads back.
\<close>

unbundle bit_operations_syntax

section \<open>Addresses and routes of a dump\<close>

definition RTM_NEWADDR :: u16 where "RTM_NEWADDR = 20"
definition RTM_GETADDR :: u16 where "RTM_GETADDR = 22"
definition RTM_NEWROUTE :: u16 where "RTM_NEWROUTE = 24"
definition RTM_GETROUTE :: u16 where "RTM_GETROUTE = 26"
definition IFA_ADDRESS :: u16 where "IFA_ADDRESS = 1"
definition IFA_LOCAL :: u16 where "IFA_LOCAL = 2"
definition IFA_BROADCAST :: u16 where "IFA_BROADCAST = 4"
definition IFA_CACHEINFO :: u16 where "IFA_CACHEINFO = 6"
definition IFA_FLAGS :: u16 where "IFA_FLAGS = 8"
definition IFA_F_TEMPORARY :: nat where "IFA_F_TEMPORARY = 1"
definition RTA_DST :: u16 where "RTA_DST = 1"
definition RTA_OIF :: u16 where "RTA_OIF = 4"
definition RTA_GATEWAY :: u16 where "RTA_GATEWAY = 5"
definition RTA_PRIORITY :: u16 where "RTA_PRIORITY = 6"
definition RTA_MULTIPATH :: u16 where "RTA_MULTIPATH = 9"
definition RTA_TABLE :: u16 where "RTA_TABLE = 15"
definition RT_TABLE_MAIN :: nat where "RT_TABLE_MAIN = 254"
definition RTN_UNICAST :: nat where "RTN_UNICAST = 1"
definition RTPROT_KERNEL :: nat where "RTPROT_KERNEL = 2"
definition RT_SCOPE_UNIVERSE :: nat where "RT_SCOPE_UNIVERSE = 0"

definition link_by_index :: "netsnap \<Rightarrow> int \<Rightarrow> nat option" where
  "link_by_index s ifindex = find_index (\<lambda>l. nl_ifindex l = ifindex) (ns_links s)"

text \<open>An address copied into a buffer of 16 bytes that was zero.\<close>

definition pad16 :: "string \<Rightarrow> string" where
  "pad16 bs = bs @ drop (length bs) zero16"

text \<open>
  An address of the family in an attribute, if it has the right length: whether
  there is one, and the buffer; and when the lifetimes in one run out, 0 for
  never: the valid and the preferred one.
\<close>

definition attr_second :: "nat \<Rightarrow> string option \<Rightarrow> bool \<times> string" where
  "attr_second family d =
     (case d of
        Some d \<Rightarrow> if length d = addr_len family then (True, pad16 d) else (False, zero16)
      | None \<Rightarrow> (False, zero16))"

definition attr_lifetimes :: "int \<Rightarrow> string option \<Rightarrow> int \<times> int" where
  "attr_lifetimes now d =
     (case d of
        Some d \<Rightarrow>
          if length d = 16 then
            (if le_at d 4 4 \<noteq> unat LIFE_FOREVER then now + int (le_at d 4 4) else 0,
             if le_at d 0 4 \<noteq> unat LIFE_FOREVER then now + int (le_at d 0 4) else 0)
          else (0, 0)
      | None \<Rightarrow> (0, 0))"

text \<open>
  The fields of a message are read at their place behind the header; the kernel
  sends no shorter ones.  \<open>now\<close> is the wall clock when the message is handled.
\<close>

definition collect_addr :: "(nlmsg \<Rightarrow> int) \<Rightarrow> nlmsg \<Rightarrow> netsnap \<Rightarrow> rc \<times> netsnap" where
  "collect_addr now h s =
     (let p = nl_payload h; family = le_at p 0 1; prefixlen = le_at p 1 1; flags = le_at p 2 1; scope = le_at p 3 1 in
      case link_by_index s (to_int (int (le_at p 4 4))) of
        None \<Rightarrow> (None, s)
      | Some i \<Rightarrow>
          if nl_type h \<noteq> RTM_NEWADDR \<or> scope \<noteq> RT_SCOPE_UNIVERSE \<or> family \<noteq> AF_INET \<and> family \<noteq> AF_INET6 then (None, s)
          else
            let f = (case rtnl_attr h 8 IFA_FLAGS of Some d \<Rightarrow> if length d = 4 then le_val d else flags | None \<Rightarrow> flags) in
            if family = AF_INET6 \<and> f AND IFA_F_TEMPORARY \<noteq> 0 then (None, s)
            else
              case rtnl_attr h 8 (if family = AF_INET then IFA_LOCAL else IFA_ADDRESS) of
                None \<Rightarrow> (None, s)
              | Some local \<Rightarrow>
                  let l = ns_links s ! i in
                  if length local \<noteq> addr_len family then (None, s)
                  else if length (nl_addrs l) = NETSNAP_MAX_ADDRS then (Some E2BIG, s)
                  else
                    let (has_brd, brd) = attr_second family (rtnl_attr h 8 IFA_BROADCAST);
                        (valid, preferred) = attr_lifetimes (now h) (rtnl_attr h 8 IFA_CACHEINFO);
                        a = \<lparr>na_family = family, na_prefix = prefixlen, na_has_brd = has_brd, na_addr = pad16 local,
                             na_brd = brd, na_valid_until = valid, na_preferred_until = preferred\<rparr>
                    in (None, s\<lparr>ns_links := (ns_links s)[i := l\<lparr>nl_addrs := nl_addrs l @ [a]\<rparr>]\<rparr>))"

definition collect_route :: "nlmsg \<Rightarrow> netsnap \<Rightarrow> rc \<times> netsnap" where
  "collect_route h s =
     (let p = nl_payload h; family = le_at p 0 1; dst_len = le_at p 1 1; src_len = le_at p 2 1; table = le_at p 4 1;
          protocol = le_at p 5 1; scope = le_at p 6 1; type = le_at p 7 1 in
      if nl_type h \<noteq> RTM_NEWROUTE \<or> type \<noteq> RTN_UNICAST \<or> protocol = RTPROT_KERNEL \<or> src_len \<noteq> 0 \<or> family \<noteq> AF_INET \<and> family \<noteq> AF_INET6 \<or>
         rtnl_attr h 12 RTA_MULTIPATH \<noteq> None then (None, s)
      else
        let tab = (case rtnl_attr h 12 RTA_TABLE of Some d \<Rightarrow> if length d = 4 then le_val d else table | None \<Rightarrow> table) in
        case rtnl_attr h 12 RTA_OIF of
          None \<Rightarrow> (None, s)
        | Some oif \<Rightarrow>
            if tab \<noteq> RT_TABLE_MAIN \<or> length oif \<noteq> 4 then (None, s)
            else case link_by_index s (to_int (int (le_val oif))) of
              None \<Rightarrow> (None, s)
            | Some i \<Rightarrow>
                let l = ns_links s ! i in
                if length (nl_routes l) = NETSNAP_MAX_ROUTES then (Some E2BIG, s)
                else
                  let dst = snd (attr_second family (rtnl_attr h 12 RTA_DST));
                      (has_gw, gw) = attr_second family (rtnl_attr h 12 RTA_GATEWAY);
                      metric = (case rtnl_attr h 12 RTA_PRIORITY of Some d \<Rightarrow> if length d = 4 then of_nat (le_val d) else 0 | None \<Rightarrow> 0);
                      r = \<lparr>nr_family = family, nr_dst_len = dst_len, nr_protocol = protocol, nr_scope = scope,
                           nr_has_gw = has_gw, nr_dst = dst, nr_gw = gw, nr_metric = metric\<rparr>
                  in (None, s\<lparr>ns_links := (ns_links s)[i := l\<lparr>nl_routes := nl_routes l @ [r]\<rparr>]\<rparr>))"

section \<open>The links\<close>

definition read_link ::
    "'w sys \<Rightarrow> ('w \<Rightarrow> string \<Rightarrow> string res) \<Rightarrow> 'w \<Rightarrow> string \<Rightarrow> string \<Rightarrow> netsnap_link res" where
  "read_link sys realpath w class_net name =
     (let class_root = snd (snprintf PATH_MAX class_net) in
      if CHR ''/'' \<notin> set class_root \<or> length name \<ge> 16 then Inl ENODEV
      else case devname_resolve sys realpath w (before_slash class_root) DEVNAME_USB_ROOT name 16 of
        Inl e \<Rightarrow> Inl ENODEV
      | Inr pci \<Rightarrow>
          (case read_string sys w (mkpath [class_net, name, ''address'']) of
             Inl e \<Rightarrow> Inl e
           | Inr txt \<Rightarrow>
               (case fst (sscanf txt [SNum 16 None, SLit (CHR '':''), SNum 16 None, SLit (CHR '':''), SNum 16 None,
                      SLit (CHR '':''), SNum 16 None, SLit (CHR '':''), SNum 16 None, SLit (CHR '':''), SNum 16 None]) of
                  [VNum m0, VNum m1, VNum m2, VNum m3, VNum m4, VNum m5] \<Rightarrow>
                    let mtu = (case read_string sys w (mkpath [class_net, name, ''mtu'']) of
                                 Inl e \<Rightarrow> 0 | Inr txt \<Rightarrow> ucast (fst (strtoull 10 txt)));
                        ifindex = (case read_string sys w (mkpath [class_net, name, ''ifindex'']) of
                                 Inl e \<Rightarrow> 0 | Inr txt \<Rightarrow> to_int (fst (strtoll 10 txt)))
                    in Inr (link_zero\<lparr>nl_pci := pci, nl_name := name, nl_mac := map char_of_u64 [m0, m1, m2, m3, m4, m5],
                         nl_mtu := mtu, nl_ifindex := ifindex\<rparr>)
                | _ \<Rightarrow> Inl EINVAL)))"

definition strlist_contains :: "strlist option \<Rightarrow> string \<Rightarrow> bool" where
  "strlist_contains l s = (case l of None \<Rightarrow> False | Some l \<Rightarrow> s \<in> set (sl_items l))"

fun collect_links ::
    "'w sys \<Rightarrow> ('w \<Rightarrow> string \<Rightarrow> string res) \<Rightarrow> 'w \<Rightarrow> string \<Rightarrow> strlist option \<Rightarrow> string list \<Rightarrow> netsnap_link list \<Rightarrow> netsnap_link list" where
  "collect_links sys realpath w class_net skip [] ls = ls"
| "collect_links sys realpath w class_net skip (e # es) ls =
     (if length ls \<ge> NETSNAP_MAX_LINKS then ls
      else if e \<noteq> [] \<and> hd e = CHR ''.'' then collect_links sys realpath w class_net skip es ls
      else case read_link sys realpath w class_net e of
        Inl err \<Rightarrow> collect_links sys realpath w class_net skip es ls
      | Inr l \<Rightarrow>
          if strlist_contains skip (nl_pci l) then collect_links sys realpath w class_net skip es ls
          else collect_links sys realpath w class_net skip es (ls @ [l]))"

text \<open>
  The exchange with the kernel: whether the socket opens, the sequence number so
  far, and for either dump whether the request is sent and what is received.
\<close>

record dumps =
  dp_open :: rc
  dp_seq :: u32
  dp_addr_sent :: rc
  dp_addrs :: "string res list"
  dp_route_sent :: rc
  dp_routes :: "string res list"

text \<open>\<open>None\<close> when a dump does not end with what is received.\<close>

definition netsnap_collect ::
    "'w sys \<Rightarrow> ('w \<Rightarrow> string \<Rightarrow> string res) \<Rightarrow> (nlmsg \<Rightarrow> int) \<Rightarrow> dumps \<Rightarrow> 'w \<Rightarrow> string \<Rightarrow> strlist option \<Rightarrow> (rc \<times> netsnap) option" where
  "netsnap_collect sys realpath now dp w class_net skip =
     (case sys_readdir sys w class_net of
        Inl e \<Rightarrow> Some (Some e, \<lparr>ns_links = []\<rparr>)
      | Inr entries \<Rightarrow>
          let s = \<lparr>ns_links = collect_links sys realpath w class_net skip entries []\<rparr> in
          if ns_links s = [] then Some (None, s)
          else if dp_open dp \<noteq> None then Some (dp_open dp, s)
          else case rtnl_dump (dp_seq dp) (dp_addr_sent dp) (dp_addrs dp) RTM_GETADDR (collect_addr now) s of
            (None, s) \<Rightarrow> None
          | (Some (Some e), s) \<Rightarrow> Some (Some e, s)
          | (Some None, s) \<Rightarrow>
              (case rtnl_dump (dp_seq dp + 1) (dp_route_sent dp) (dp_routes dp) RTM_GETROUTE collect_route s of
                 (None, s) \<Rightarrow> None
               | (Some r, s) \<Rightarrow> Some (r, s)))"

text \<open>The number of links and the text.\<close>

definition netsnap_text ::
    "'w sys \<Rightarrow> ('w \<Rightarrow> string \<Rightarrow> string res) \<Rightarrow> (nlmsg \<Rightarrow> int) \<Rightarrow> dumps \<Rightarrow> 'w \<Rightarrow> strlist option \<Rightarrow> nat \<Rightarrow> ((nat \<times> string) res) option" where
  "netsnap_text sys realpath now dp w skip len =
     (case netsnap_collect sys realpath now dp w ''/sys/class/net'' skip of
        None \<Rightarrow> None
      | Some (Some e, s) \<Rightarrow> Some (Inl e)
      | Some (None, s) \<Rightarrow>
          (case netsnap_format s len of (Inl e, txt) \<Rightarrow> Some (Inl e) | (Inr n, txt) \<Rightarrow> Some (Inr (length (ns_links s), txt))))"

section \<open>Finding the interface of a function\<close>

definition netdev_on :: "'w sys \<Rightarrow> ('w \<Rightarrow> string \<Rightarrow> string res) \<Rightarrow> 'w \<Rightarrow> string \<Rightarrow> nat \<Rightarrow> string res" where
  "netdev_on sys realpath w pci len =
     (case sys_readdir sys w (DEVNAME_CLASS_ROOT @ ''/net'') of
        Inl e \<Rightarrow> Inl ENOENT
      | Inr entries \<Rightarrow>
          (case find (\<lambda>e. \<not> (e \<noteq> [] \<and> hd e = CHR ''.'') \<and>
                   devname_resolve sys realpath w DEVNAME_CLASS_ROOT DEVNAME_USB_ROOT e 16 = Inr pci) entries of
             None \<Rightarrow> Inl ENOENT
           | Some e \<Rightarrow> Inr (snd (snprintf len e))))"

definition FIND_TIMEOUT_MS :: nat where "FIND_TIMEOUT_MS = 3000"
definition FIND_POLL_MS :: nat where "FIND_POLL_MS = 10"

function find_netdev_loop ::
    "'w sys \<Rightarrow> ('w \<Rightarrow> string \<Rightarrow> string res) \<Rightarrow> ('w \<Rightarrow> string \<Rightarrow> int res) \<Rightarrow> (nat \<Rightarrow> 'w \<Rightarrow> 'w) \<Rightarrow> string \<Rightarrow> nat \<Rightarrow> nat \<Rightarrow> 'w \<Rightarrow> (string \<times> int) res \<times> 'w" where
  "find_netdev_loop sys realpath nametoindex sleep_ms pci len waited w =
     (if waited > FIND_TIMEOUT_MS then (Inl ETIMEDOUT, w)
      else case netdev_on sys realpath w pci len of
        Inr name \<Rightarrow> (case nametoindex w name of Inl e \<Rightarrow> Inl e | Inr i \<Rightarrow> Inr (name, i), w)
      | Inl e \<Rightarrow> find_netdev_loop sys realpath nametoindex sleep_ms pci len (waited + FIND_POLL_MS) (sleep_ms FIND_POLL_MS w))"
  by pat_completeness auto
termination
  by (relation "measure (\<lambda>(sys, realpath, nametoindex, sleep_ms, pci, len, waited, w). Suc FIND_TIMEOUT_MS - waited)")
    (auto simp: FIND_POLL_MS_def FIND_TIMEOUT_MS_def)

declare find_netdev_loop.simps [simp del]

definition find_netdev ::
    "'w sys \<Rightarrow> ('w \<Rightarrow> string \<Rightarrow> string res) \<Rightarrow> ('w \<Rightarrow> string \<Rightarrow> int res) \<Rightarrow> (nat \<Rightarrow> 'w \<Rightarrow> 'w) \<Rightarrow> string \<Rightarrow> nat \<Rightarrow> 'w \<Rightarrow> (string \<times> int) res \<times> 'w" where
  "find_netdev sys realpath nametoindex sleep_ms pci len w =
     find_netdev_loop sys realpath nametoindex sleep_ms pci len 0 w"

section \<open>What parsing yields\<close>

lemma pton4_loop_length:
  "length prev < 4 \<Longrightarrow>
   (pton4_loop s prev cur True (Suc (length prev)) = Some r \<longrightarrow> length r = 4) \<and>
   (pton4_loop s prev cur False (length prev) = Some r \<longrightarrow> length r = 4)"
proof (induction s arbitrary: prev cur)
  case (Cons c s)
  have "pton4_loop (c # s) prev cur True (Suc (length prev)) = Some r \<Longrightarrow>
      pton4_loop s prev (cur * 10 + digit_val c) True (Suc (length prev)) = Some r \<or>
      Suc (length prev) \<noteq> 4 \<and> pton4_loop s (prev @ [cur]) 0 False (Suc (length prev)) = Some r"
    by (simp only: pton4_loop.simps(2) Let_def split: if_splits) simp_all
  moreover have "pton4_loop (c # s) prev cur False (length prev) = Some r \<Longrightarrow>
      pton4_loop s prev (cur * 10 + digit_val c) True (Suc (length prev)) = Some r"
    by (simp only: pton4_loop.simps(2) Let_def split: if_splits) simp_all
  ultimately show ?case
    using Cons.IH [OF Cons.prems, of "cur * 10 + digit_val c"] Cons.IH [of "prev @ [cur]" 0] Cons.prems
    by (metis length_append_singleton less_antisym numeral_eq_Suc pred_numeral_simps(2) linorder_neqE_nat not_less_eq)
qed (simp only: pton4_loop.simps(1), auto)

lemma inet_pton4_length: "inet_pton4 s = Some bs \<Longrightarrow> length bs = 4"
  using pton4_loop_length [of "[]" s 0] by (auto simp: inet_pton4_def)

lemma pton6_loop_length:
  "pton6_loop cur s xd v tp col = Some (tp', col') \<Longrightarrow> length tp \<le> 16 \<Longrightarrow> length tp' \<le> 16"
  by (induction cur s xd v tp col rule: pton6_loop.induct)
    (auto simp: Let_def be_bytes_length dest: inet_pton4_length split: if_splits option.splits)

lemma inet_pton6_length: "inet_pton6 s = Some bs \<Longrightarrow> length bs = 16"
  by (auto simp: inet_pton6_def pton6_finish_def Let_def dest!: pton6_loop_length split: if_splits option.splits)

lemma pad16_ok: "family = AF_INET \<or> family = AF_INET6 \<Longrightarrow> length bs = addr_len family \<Longrightarrow> ip_ok family (pad16 bs)"
  by (auto simp: ip_ok_def pad16_def addr_len_def)

lemma inet_pton_length: "inet_pton family t = Some bs \<Longrightarrow> length bs = addr_len family"
  by (auto simp: inet_pton_def addr_len_def AF_INET_def AF_INET6_def dest: inet_pton4_length inet_pton6_length split: if_splits)

lemma get_ip_ok: "get_ip t = Inr (family, bs) \<Longrightarrow> ip_ok family bs"
  by (auto simp: get_ip_def Let_def intro!: pad16_ok [unfolded pad16_def drop_replicate] dest: inet_pton_length split: option.splits if_splits)

lemma get_prefix_ok: "get_prefix t' = Inr (family, bs, n) \<Longrightarrow> ip_ok family bs \<and> n \<le> addr_len family * 8"
  by (auto simp: get_prefix_def Let_def dest: get_ip_ok split: if_splits prod.splits sum.splits)

lemma get_second_ok: "get_second family t' = Inr (has, bs) \<Longrightarrow> second_ok family has bs"
  by (auto simp: get_second_def second_ok_def dest: get_ip_ok split: if_splits sum.splits)

lemma get_until_ok: "get_until t' = Inr t \<Longrightarrow> until_ok t"
  by (auto simp: get_until_def until_ok_def strtoll_def split: if_splits option.splits)

lemma scan_first_word: "fst (scan at (SStr n # ds) s) = VStr w # vs \<Longrightarrow> word_ok n w"
  by (auto simp: scan_word_max_def word_ok_def Let_def split: prod.splits if_splits dest!: in_set_takeD set_takeWhileD)

lemma sscanf_first_word: "fst (sscanf s (SStr n # ds)) = VStr w # vs \<Longrightarrow> word_ok n w"
  unfolding sscanf_def by (rule scan_first_word)

lemma sscanf_second_word:
  "sscanf s (SStr m # SWs # SStr n # ds) = (VStr v # VStr w # vs, k) \<Longrightarrow> word_ok n w"
proof -
  assume a: "sscanf s (SStr m # SWs # SStr n # ds) = (VStr v # VStr w # vs, k)"
  then obtain r where "fst (scan (length s) (SStr n # ds) r) = VStr w # vs"
    by (auto simp: sscanf_def Let_def simp del: scan.simps(4) simp: scan.simps(4) [of _ m] split: prod.splits if_splits)
      (metis fst_conv)
  then show ?thesis by (rule scan_first_word)
qed

lemma find_index_Some: "find_index P xs = Some i \<Longrightarrow> i < length xs \<and> P (xs ! i)"
  by (induction xs arbitrary: i) (auto split: if_splits)

lemma parse_addr_ok: "parse_addr l rest = Inr l' \<Longrightarrow> link_ok l \<Longrightarrow> link_ok l' \<and> nl_pci l' = nl_pci l"
  by (simp only: parse_addr_def split: if_split_asm list.split_asm sval.split_asm prod.split_asm sum.split_asm, simp_all)
    (auto simp: link_ok_def addr_ok_def dest: get_prefix_ok get_second_ok get_until_ok)

lemma parse_route_ok: "parse_route l rest = Inr l' \<Longrightarrow> link_ok l \<Longrightarrow> link_ok l' \<and> nl_pci l' = nl_pci l"
  by (simp only: parse_route_def Let_def split: if_split_asm list.split_asm sval.split_asm prod.split_asm sum.split_asm, simp_all)
    (auto simp: link_ok_def route_ok_def word_le_nat_alt not_less dest: get_prefix_ok get_second_ok)

lemma snap_ok_update:
  assumes "snap_ok s" and "link_by_pci s pci = Some i" and "link_ok l" and "nl_pci l = nl_pci (ns_links s ! i)"
  shows "snap_ok (s\<lparr>ns_links := (ns_links s)[i := l]\<rparr>)"
proof -
  have "map nl_pci ((ns_links s)[i := l]) = map nl_pci (ns_links s)"
    using assms(4) by (simp add: map_update list_update_same_conv find_index_Some [OF assms(2) [unfolded link_by_pci_def]])
  then show ?thesis
    using assms(1,3) set_update_subset_insert [of "ns_links s" i l] by (auto simp: snap_ok_def list_all_iff)
qed

lemma parse_link_result:
  "parse_link s pci rest = (r, s') \<Longrightarrow> word_ok 31 pci \<Longrightarrow> s' = s \<or>
   length (ns_links s) \<noteq> NETSNAP_MAX_LINKS \<and> link_by_pci s pci = None \<and>
   (\<exists>l. ns_links s' = ns_links s @ [l] \<and> nl_pci l = pci \<and> link_ok l)"
  by (simp only: parse_link_def split: if_split_asm list.split_asm sval.split_asm)
    (simp_all, auto dest!: sscanf_first_word simp: link_ok_def word_ok_def)

lemma parse_link_ok: "parse_link s pci rest = (r, s') \<Longrightarrow> snap_ok s \<Longrightarrow> word_ok 31 pci \<Longrightarrow> snap_ok s'"
  by (drule (1) parse_link_result) (auto simp: snap_ok_def link_by_pci_def find_index_None, blast)

lemma parse_line_ok:
  assumes "snap_ok s"
  shows "snap_ok (snd (parse_line line s))"
proof (cases "\<exists>kind pci skip. sscanf line [SStr 7, SWs, SStr 31, SWs, SPos] = ([VStr kind, VStr pci], Some skip)")
  case True
  then obtain kind pci skip where line: "sscanf line [SStr 7, SWs, SStr 31, SWs, SPos] = ([VStr kind, VStr pci], Some skip)" by blast
  obtain r s' where link: "parse_link s pci (drop skip line) = (r, s')" by (rule prod.exhaust)
  have "snap_ok s'" using parse_link_ok [OF link assms sscanf_second_word [OF line]] .
  moreover have "snap_ok (s\<lparr>ns_links := (ns_links s)[i := l]\<rparr>)"
    if "link_by_pci s pci = Some i" and "parse_addr (ns_links s ! i) rest = Inr l \<or> parse_route (ns_links s ! i) rest = Inr l" for i l rest
  proof -
    have "link_ok (ns_links s ! i)"
      using assms find_index_Some that(1) by (fastforce simp: link_by_pci_def snap_ok_def list_all_iff)
    then show ?thesis using that parse_addr_ok parse_route_ok by (intro snap_ok_update [OF assms that(1)]) blast+
  qed
  ultimately show ?thesis
    using assms by (auto simp: parse_line_def line link Let_def split: option.split sum.split)
next
  case False
  then show ?thesis
    using assms unfolding parse_line_def by (auto split: prod.splits list.splits sval.splits option.splits)
qed

lemma parse_loop_ok: "snap_ok s \<Longrightarrow> snap_ok (snd (parse_loop p s))"
proof (induction p s rule: parse_loop.induct)
  case (1 p s)
  let ?line = "snd (snprintf 256 (takeWhile (\<lambda>c. c \<noteq> CHR 0x0A) p))" and ?p = "tl (dropWhile (\<lambda>c. c \<noteq> CHR 0x0A) p)"
  have "snap_ok s'" if "parse_line ?line s = (r, s')" for r s' using parse_line_ok [OF 1(3), of ?line] that by simp
  then show ?case
    using 1 by (subst parse_loop.simps) (auto simp: Let_def split: prod.split option.split)
qed

text \<open>C25: Whatever text a peer sends, the snapshot parsed from it is well formed,
  also when parsing fails: at most as many links, addresses and routes as there
  is room for, links on distinct functions with names that are words, addresses
  and gateways of the family and length they claim, prefixes no longer than the
  address, and lifetimes that are not negative.\<close>

theorem netsnap_parse_well_formed: "snap_ok (snd (netsnap_parse input))"
  unfolding netsnap_parse_def by (rule parse_loop_ok) (simp add: snap_ok_def)

section \<open>What is collected\<close>

text \<open>
  What the kernel promises of the messages of a dump: prefix lengths that fit
  the family; and of the clock: a time a signed 64-bit number has room for
  after a lifetime is added.
\<close>

definition msg_ok :: "(nlmsg \<Rightarrow> int) \<Rightarrow> nlmsg \<Rightarrow> bool" where
  "msg_ok now m = (le_at (nl_payload m) 1 1 \<le> addr_len (le_at (nl_payload m) 0 1) * 8 \<and> 0 \<le> now m \<and> now m < 2 ^ 62)"

definition dump_ok :: "(nlmsg \<Rightarrow> int) \<Rightarrow> string res list \<Rightarrow> bool" where
  "dump_ok now recvs = list_all (\<lambda>r. case r of Inl e \<Rightarrow> True | Inr buf \<Rightarrow> list_all (msg_ok now) (fst (nl_split buf 0))) recvs"

text \<open>The links as they are sent: the index of the interface is not.\<close>

abbreviation unindexed :: "netsnap_link \<Rightarrow> netsnap_link" where
  "unindexed l \<equiv> l\<lparr>nl_ifindex := 0\<rparr>"

definition sent_snap :: "netsnap \<Rightarrow> netsnap" where
  "sent_snap s = \<lparr>ns_links = map unindexed (ns_links s)\<rparr>"

definition links_ok :: "netsnap \<Rightarrow> bool" where
  "links_ok s = (length (ns_links s) \<le> NETSNAP_MAX_LINKS \<and> list_all (\<lambda>l. link_ok (unindexed l)) (ns_links s))"

lemma handle_msgs_keeps:
  assumes "\<And>m c. msg_ok now m \<Longrightarrow> P c \<Longrightarrow> P (snd (cb m c))"
  shows "list_all (msg_ok now) ms \<Longrightarrow> P c \<Longrightarrow> P (snd (handle_msgs seq (Some cb) ms c))"
proof (induction ms arbitrary: c)
  case (Cons m ms)
  then show ?case using assms [of m c] by (auto split: prod.split option.split)
qed simp

lemma receive_keeps:
  assumes "\<And>m c. msg_ok now m \<Longrightarrow> P c \<Longrightarrow> P (snd (cb m c))"
  shows "dump_ok now recvs \<Longrightarrow> P c \<Longrightarrow> P (snd (receive seq (Some cb) recvs c))"
proof (induction recvs arbitrary: c)
  case (Cons r recvs)
  show ?case
  proof (cases r)
    case (Inl e)
    then show ?thesis using Cons by (simp add: dump_ok_def)
  next
    case (Inr buf)
    obtain ms bad where ms: "nl_split buf 0 = (ms, bad)" by (rule prod.exhaust)
    obtain x c' where c': "handle_msgs seq (Some cb) ms c = (x, c')" by (rule prod.exhaust)
    have "P c'" using handle_msgs_keeps [where P = P and cb = cb and now = now, OF assms, of ms c seq] Cons.prems Inr by (simp add: c' dump_ok_def ms)
    then show ?thesis using Cons Inr by (auto simp: ms c' dump_ok_def split: option.split)
  qed
qed simp

lemma rtnl_dump_keeps:
  assumes "\<And>m c. msg_ok now m \<Longrightarrow> P c \<Longrightarrow> P (snd (cb m c))" and "dump_ok now recvs" and "P c"
    and "rtnl_dump seq sent recvs type cb c = (r, c')"
  shows "P c'"
  using receive_keeps [where P = P and cb = cb and seq = "seq + 1", OF assms(1-3)] assms(3,4) by (auto simp: rtnl_dump_def send_req_def split: if_splits)

lemma links_ok_update:
  assumes "links_ok s" and "link_ok (unindexed l)"
  shows "links_ok (s\<lparr>ns_links := (ns_links s)[i := l]\<rparr>)"
  using assms set_update_subset_insert [of "ns_links s" i l] by (auto simp: links_ok_def list_all_iff)

lemma links_ok_nth:
  "links_ok s \<Longrightarrow> link_by_index s k = Some i \<Longrightarrow> link_ok (unindexed (ns_links s ! i))"
  using find_index_Some [of _ "ns_links s" i] by (fastforce simp: links_ok_def link_by_index_def list_all_iff)

lemma le_at_less: "le_at s k n < 256 ^ n"
proof -
  have "be_val (rev (take n (drop k s))) < 256 ^ length (take n (drop k s))" using be_val_less [of "rev (take n (drop k s))"] by simp
  also have "\<dots> \<le> 256 ^ n" by (intro power_increasing) auto
  finally show ?thesis by (simp add: le_at_def le_val_def)
qed

lemma zero16_ok: "family = AF_INET \<or> family = AF_INET6 \<Longrightarrow> ip_ok family zero16"
  by (simp only: ip_ok_def length_replicate drop_replicate)

lemma attr_second_ok:
  assumes "family = AF_INET \<or> family = AF_INET6" and "attr_second family d = (has, bs)"
  shows "second_ok family has bs" and "ip_ok family bs"
  using assms(2) pad16_ok [OF assms(1)] zero16_ok [OF assms(1)]
  by (simp_all only: attr_second_def second_ok_def split: option.split_asm if_split_asm) auto

lemma attr_lifetimes_ok:
  assumes "0 \<le> now" and "now < 2 ^ 62" and "attr_lifetimes now d = (v, p)"
  shows "until_ok v" and "until_ok p"
proof -
  have "until_ok (now + int (le_at x k 4))" for x k
  proof -
    have "le_at x k 4 < 4294967296" using le_at_less [of x k 4] by simp
    then have "int (le_at x k 4) < 4294967296" by simp
    then show ?thesis using assms(1,2) by (simp add: until_ok_def)
  qed
  moreover have "until_ok 0" by (simp add: until_ok_def)
  ultimately show "until_ok v" "until_ok p"
    using assms(3) by (auto simp: attr_lifetimes_def split: option.split_asm if_split_asm)
qed

lemma collect_addr_ok:
  assumes "msg_ok now m" and "links_ok s"
  shows "links_ok (snd (collect_addr now m s))"
proof -
  define f where "f = le_at (nl_payload m) 0 1"
  obtain has brd where brd: "attr_second f (rtnl_attr m 8 IFA_BROADCAST) = (has, brd)" by (rule prod.exhaust)
  obtain v p where life: "attr_lifetimes (now m) (rtnl_attr m 8 IFA_CACHEINFO) = (v, p)" by (rule prod.exhaust)
  let ?a = "\<lambda>d. \<lparr>na_family = f, na_prefix = le_at (nl_payload m) 1 1, na_has_brd = has, na_addr = pad16 d, na_brd = brd,
    na_valid_until = v, na_preferred_until = p\<rparr>"
  have "links_ok (s\<lparr>ns_links := (ns_links s)[i := (ns_links s ! i)\<lparr>nl_addrs := nl_addrs (ns_links s ! i) @ [?a d]\<rparr>]\<rparr>)"
    if "f = AF_INET \<or> f = AF_INET6" and "length d = addr_len f" and "link_by_index s k = Some i"
      and "length (nl_addrs (ns_links s ! i)) \<noteq> NETSNAP_MAX_ADDRS" for k i d
  proof (rule links_ok_update [OF assms(2)])
    have "addr_ok (?a d)"
      using assms(1) [unfolded msg_ok_def f_def [symmetric]] pad16_ok [OF that(1,2)] attr_second_ok(1) [OF that(1) brd] attr_lifetimes_ok [OF _ _ life]
      by (simp add: addr_ok_def)
    then show "link_ok (unindexed ((ns_links s ! i)\<lparr>nl_addrs := nl_addrs (ns_links s ! i) @ [?a d]\<rparr>))"
      using links_ok_nth [OF assms(2) that(3)] that(4) by (simp add: link_ok_def)
  qed
  then show ?thesis
    using assms(2) unfolding collect_addr_def Let_def f_def [symmetric] brd life prod.case by (auto split: option.split)
qed

lemma collect_route_ok:
  assumes "msg_ok now m" and "links_ok s"
  shows "links_ok (snd (collect_route m s))"
proof -
  define f where "f = le_at (nl_payload m) 0 1"
  obtain has gw where gw: "attr_second f (rtnl_attr m 12 RTA_GATEWAY) = (has, gw)" by (rule prod.exhaust)
  obtain x dst where dst: "attr_second f (rtnl_attr m 12 RTA_DST) = (x, dst)" by (rule prod.exhaust)
  let ?r = "\<lambda>metric. \<lparr>nr_family = f, nr_dst_len = le_at (nl_payload m) 1 1, nr_protocol = le_at (nl_payload m) 5 1,
    nr_scope = le_at (nl_payload m) 6 1, nr_has_gw = has, nr_dst = dst, nr_gw = gw, nr_metric = metric\<rparr>"
  have "links_ok (s\<lparr>ns_links := (ns_links s)[i := (ns_links s ! i)\<lparr>nl_routes := nl_routes (ns_links s ! i) @ [?r metric]\<rparr>]\<rparr>)"
    if "f = AF_INET \<or> f = AF_INET6" and "link_by_index s k = Some i"
      and "length (nl_routes (ns_links s ! i)) \<noteq> NETSNAP_MAX_ROUTES" for k i metric
  proof (rule links_ok_update [OF assms(2)])
    have "le_at (nl_payload m) k 1 \<le> 255" for k using le_at_less [of "nl_payload m" k 1] by simp
    then have "route_ok (?r metric)"
      using assms(1) [unfolded msg_ok_def f_def [symmetric]] attr_second_ok(1) [OF that(1) gw] attr_second_ok(2) [OF that(1) dst]
      by (simp add: route_ok_def)
    then show "link_ok (unindexed ((ns_links s ! i)\<lparr>nl_routes := nl_routes (ns_links s ! i) @ [?r metric]\<rparr>))"
      using links_ok_nth [OF assms(2) that(2)] that(3) by (simp add: link_ok_def)
  qed
  then show ?thesis
    using assms(2) unfolding collect_route_def Let_def f_def [symmetric] gw dst prod.case snd_conv by (auto split: option.split)
qed

lemma isxdigit_not_space: "isxdigit c \<Longrightarrow> \<not> isspace c"
  by (simp add: isxdigit_def digit_not_space)

lemma pci_id_word:
  assumes "devname_is_pci_id s"
  shows "word_ok 12 s"
proof -
  let ?p = "''hhhh:hh:hh.h''"
  have s: "length s = 12" "\<forall>(p, c) \<in> set (zip ?p s). if p = CHR ''h'' then isxdigit c else c = p"
    using assms unfolding devname_is_pci_id_def Let_def list_all_iff by (simp, blast)
  have "\<not> isspace c" if c: "c \<in> set s" for c
  proof -
    obtain i where i: "i < length s" "s ! i = c" using c by (auto simp: in_set_conv_nth)
    then have zip: "(?p ! i, c) \<in> set (zip ?p s)" using s(1) by (force simp: set_zip)
    then have "?p ! i \<in> set ?p" by (rule set_zip_leftD)
    then show ?thesis using bspec [OF s(2) zip] isxdigit_not_space [of c] by (auto simp: isspace_lit split: if_splits)
  qed
  then show ?thesis using s(1) by (auto simp: word_ok_def)
qed

lemma nearest_function_word: "nearest_function 16 path = Inr f \<Longrightarrow> word_ok 15 f"
proof (induction "16 :: nat" path rule: nearest_function.induct)
  case (1 path)
  let ?base = "after_slash (before_slash path)"
  show ?case
  proof (cases "devname_is_pci_id ?base")
    case True
    then have "snd (snprintf 16 ?base) = ?base" using pci_id_length by (simp add: snprintf_def)
    then show ?thesis using 1(2) True word_ok_mono [OF pci_id_word [OF True], of 15]
      by (simp add: nearest_function.simps [of 16 path] Let_def split: if_splits)
  next
    case False
    then show ?thesis using 1 by (simp add: nearest_function.simps [of 16 path] Let_def split: if_splits)
  qed
qed

lemma devname_resolve_word: "devname_resolve s realpath w a b name 16 = Inr pci \<Longrightarrow> name \<noteq> [] \<and> word_ok 15 pci"
  by (auto simp: devname_resolve_def Let_def dest: nearest_function_word split: if_split_asm list.split_asm sum.split_asm)

definition no_space :: "string \<Rightarrow> bool" where
  "no_space s = (\<forall>c \<in> set s. \<not> isspace c)"

lemma read_link_ok:
  "read_link sys realpath w class_net name = Inr l \<Longrightarrow> no_space name \<Longrightarrow> link_ok (unindexed l)"
  by (simp only: read_link_def Let_def split: if_split_asm sum.split_asm list.split_asm sval.split_asm, simp_all)
    (auto simp: link_ok_def no_space_def word_ok_def [of 15 name] dest: devname_resolve_word)

lemma collect_links_ok:
  "list_all no_space es \<Longrightarrow> links_ok \<lparr>ns_links = ls\<rparr> \<Longrightarrow>
   links_ok \<lparr>ns_links = collect_links sys realpath w class_net skip es ls\<rparr>"
proof (induction es arbitrary: ls)
  case (Cons e es)
  then show ?case
    using read_link_ok [of sys realpath w class_net e] by (auto simp: links_ok_def split: sum.split)
qed simp

lemma netsnap_collect_ok:
  assumes "netsnap_collect sys realpath now dp w class_net skip = Some (r, s)"
    and "\<And>es. sys_readdir sys w class_net = Inr es \<Longrightarrow> list_all no_space es"
    and "dump_ok now (dp_addrs dp)" and "dump_ok now (dp_routes dp)"
  shows "links_ok s"
proof -
  let ?s = "\<lambda>es. \<lparr>ns_links = collect_links sys realpath w class_net skip es []\<rparr>"
  have s: "links_ok (?s es)" if "sys_readdir sys w class_net = Inr es" for es
    using collect_links_ok [OF assms(2) [OF that], of "[]"] by (simp add: links_ok_def)
  have a: "links_ok s'" if "rtnl_dump q t (dp_addrs dp) ty (collect_addr now) c = (x, s')" "links_ok c" for q t ty c x s'
    using rtnl_dump_keeps [OF collect_addr_ok assms(3) that(2,1)] .
  have b: "links_ok s'" if "rtnl_dump q t (dp_routes dp) ty collect_route c = (x, s')" "links_ok c" for q t ty c x s'
    using rtnl_dump_keeps [OF collect_route_ok assms(4) that(2,1)] .
  have "links_ok \<lparr>ns_links = []\<rparr>" by (simp add: links_ok_def)
  then show ?thesis
    using assms(1) s a b
    by (simp only: netsnap_collect_def Let_def split: sum.split_asm if_split_asm prod.split_asm option.split_asm) auto
qed

section \<open>The identity on its way\<close>

lemma format_link_unindexed: "format_link len (unindexed l) = format_link len l"
  unfolding format_link_def link_line_def addr_line_def route_line_def by (rule ext) simp

lemma netsnap_format_sent: "netsnap_format (sent_snap s) len = netsnap_format s len"
proof -
  have "fold_rc (format_link len) (map unindexed ls) buf = fold_rc (format_link len) ls buf" for ls buf
    by (induction ls arbitrary: buf) (auto simp: format_link_unindexed split: prod.split option.split)
  then show ?thesis by (simp add: netsnap_format_def sent_snap_def)
qed

lemma parse_link_shared:
  assumes "link_ok l" and "nl_pci l \<in> nl_pci ` set ls"
  shows "fst (parse_loop (link_text l @ p) \<lparr>ns_links = ls\<rparr>) = Some EINVAL"
proof -
  have ok: "word_ok 15 (nl_pci l)" "word_ok 15 (nl_name l)" "length (nl_mac l) = 6" using assms(1) by (simp_all add: link_ok_def)
  note line = rest_lines(3) [OF ok]
  have "link_by_pci \<lparr>ns_links = ls\<rparr> (nl_pci l) \<noteq> None" unfolding link_by_pci_def find_index_None using assms(2) by auto
  then have "parse_line (line_of ''link'' l (link_rest l)) \<lparr>ns_links = ls\<rparr> = (Some EINVAL, \<lparr>ns_links = ls\<rparr>)"
    unfolding line_of_def
    by (subst parse_line_head) (use line ok in \<open>auto simp: line_kinds word_ok_mono [of 15 _ 31] parse_link_def\<close>)
  then have "parse_loop (line_of ''link'' l (link_rest l) @ CHR 0x0A # q) \<lparr>ns_links = ls\<rparr> = (Some EINVAL, \<lparr>ns_links = ls\<rparr>)" for q
    using line by (simp add: parse_loop_of)
  then show ?thesis by (simp add: link_text_def line_of_def)
qed

lemma parse_links_shared:
  "list_all link_ok xs \<Longrightarrow> distinct (map nl_pci ls) \<Longrightarrow> \<not> distinct (map nl_pci (ls @ xs)) \<Longrightarrow>
   length ls + length xs \<le> NETSNAP_MAX_LINKS \<Longrightarrow>
   fst (parse_loop (concat (map link_text xs)) \<lparr>ns_links = ls\<rparr>) = Some EINVAL"
proof (induction xs arbitrary: ls)
  case (Cons x xs)
  show ?case
  proof (cases "nl_pci x \<in> nl_pci ` set ls")
    case True
    then show ?thesis using parse_link_shared [of x ls] Cons.prems(1) by simp
  next
    case False
    then have "\<forall>k \<in> set ls. nl_pci k \<noteq> nl_pci x" by (metis imageI)
    then show ?thesis
      using Cons.IH [of "ls @ [x]"] Cons.prems False parse_link_text [of x ls "concat (map link_text xs)"] by simp
  qed
qed simp

text \<open>C24: The network identity the predecessor collects and formats is the one the
  successor parses, but for the interface indices, which are not sent, when the
  interfaces are on distinct PCI functions.  When two interfaces share a
  function, collecting and formatting succeed and the successor refuses the
  whole text.\<close>

theorem collected_identity_read_back:
  assumes "netsnap_collect sys realpath now dp w ''/sys/class/net'' skip = Some (None, s)"
    and "netsnap_text sys realpath now dp w skip len = Some (Inr (n, sent))" and "0 < len"
    and "\<And>es. sys_readdir sys w ''/sys/class/net'' = Inr es \<Longrightarrow> list_all no_space es"
    and "dump_ok now (dp_addrs dp)" and "dump_ok now (dp_routes dp)"
  shows "if distinct (map nl_pci (ns_links s)) then netsnap_parse sent = (None, sent_snap s)
    else fst (netsnap_parse sent) = Some EINVAL"
proof -
  have ok: "links_ok s" using netsnap_collect_ok [OF assms(1,4,5,6)] .
  have links: "list_all link_ok (ns_links (sent_snap s))" "length (ns_links (sent_snap s)) \<le> NETSNAP_MAX_LINKS"
    using ok by (simp_all add: links_ok_def sent_snap_def list_all_iff)
  have "fst (netsnap_format s len) \<noteq> Inl e" and "sent = snd (netsnap_format s len)" for e
    using assms(2) by (simp_all add: netsnap_text_def assms(1) split: prod.split_asm sum.split_asm)
  then have sent: "sent = snap_text (sent_snap s)"
    using netsnap_format_links [OF links(1) assms(3)] by (auto simp: netsnap_format_sent split: if_splits)
  have pci: "map nl_pci (ns_links (sent_snap s)) = map nl_pci (ns_links s)" by (simp add: sent_snap_def)
  show ?thesis
  proof (cases "distinct (map nl_pci (ns_links s))")
    case True
    then show ?thesis using netsnap_parse_text [of "sent_snap s"] links by (simp add: sent snap_ok_def pci)
  next
    case False
    then show ?thesis
      using parse_links_shared [of "ns_links (sent_snap s)" "[]"] links by (simp add: sent snap_text_def netsnap_parse_def pci)
  qed
qed

text \<open>A function with two ports, of which the interfaces \<open>es\<close> are there.\<close>

definition two_ports :: "string list \<Rightarrow> unit sys" where
  "two_ports es = (one_file [])\<lparr>sys_readdir := (\<lambda>w p. Inr es),
     sys_access := (\<lambda>w p. p \<in> {''/sys/class/net/eth0'', ''/sys/class/net/eth1''}),
     sys_read := (\<lambda>w p. if p = ''/sys/class/net/eth0/address'' then Inr ''02:00:00:00:00:01''
        else if p = ''/sys/class/net/eth1/address'' then Inr ''02:00:00:00:00:02'' else Inl ENOENT)\<rparr>"

definition both_at :: "unit \<Rightarrow> string \<Rightarrow> string res" where
  "both_at w p = Inr ''/sys/devices/0000:02:00.0/net/eth''"

text \<open>Dumps without addresses or routes: the message that ends them.\<close>

definition dump_end :: "nat \<Rightarrow> string" where
  "dump_end seq = le_bytes 4 16 @ le_bytes 2 3 @ le_bytes 2 0 @ le_bytes 4 seq @ le_bytes 4 0"

definition empty_dumps :: dumps where
  "empty_dumps = \<lparr>dp_open = None, dp_seq = 4, dp_addr_sent = None, dp_addrs = [Inr (dump_end 5)],
     dp_route_sent = None, dp_routes = [Inr (dump_end 6)]\<rparr>"

definition two_ports_snap :: "nat \<Rightarrow> netsnap" where
  "two_ports_snap n = \<lparr>ns_links = take n
     [link_zero\<lparr>nl_pci := ''0000:02:00.0'', nl_name := ''eth0'', nl_mac := map char_of_u64 [2, 0, 0, 0, 0, 1]\<rparr>,
      link_zero\<lparr>nl_pci := ''0000:02:00.0'', nl_name := ''eth1'', nl_mac := map char_of_u64 [2, 0, 0, 0, 0, 2]\<rparr>]\<rparr>"

definition two_ports_text :: "nat \<Rightarrow> string" where
  "two_ports_text n = snd (netsnap_format (two_ports_snap n) 120)"

lemma dump_end_split:
  "nl_split (dump_end 5) 0 = ([\<lparr>nl_type = NLMSG_DONE, nl_flags = 0, nl_seq = 5, nl_payload = []\<rparr>], False)"
  "nl_split (dump_end 6) 0 = ([\<lparr>nl_type = NLMSG_DONE, nl_flags = 0, nl_seq = 6, nl_payload = []\<rparr>], False)"
  by code_simp+

lemma two_ports_devname:
  "devname_resolve (two_ports es) both_at () ''/sys/class'' DEVNAME_USB_ROOT ''eth0'' 16 = Inr ''0000:02:00.0''"
  "devname_resolve (two_ports es) both_at () ''/sys/class'' DEVNAME_USB_ROOT ''eth1'' 16 = Inr ''0000:02:00.0''"
proof -
  have "nearest_function 16 ''/sys/devices/0000:02:00.0/net/eth'' = Inr ''0000:02:00.0''" by code_simp
  then show "devname_resolve (two_ports es) both_at () ''/sys/class'' DEVNAME_USB_ROOT ''eth0'' 16 = Inr ''0000:02:00.0''"
    "devname_resolve (two_ports es) both_at () ''/sys/class'' DEVNAME_USB_ROOT ''eth1'' 16 = Inr ''0000:02:00.0''"
    by (simp_all add: devname_resolve_def classes_def mkpath_def snprintf_def PATH_MAX_def DEVNAME_USB_ROOT_def two_ports_def both_at_def)
qed

lemma two_ports_macs:
  "fst (sscanf ''02:00:00:00:00:01'' [SNum 16 None, SLit (CHR '':''), SNum 16 None, SLit (CHR '':''), SNum 16 None,
     SLit (CHR '':''), SNum 16 None, SLit (CHR '':''), SNum 16 None, SLit (CHR '':''), SNum 16 None]) =
   [VNum 2, VNum 0, VNum 0, VNum 0, VNum 0, VNum 1]"
  "fst (sscanf ''02:00:00:00:00:02'' [SNum 16 None, SLit (CHR '':''), SNum 16 None, SLit (CHR '':''), SNum 16 None,
     SLit (CHR '':''), SNum 16 None, SLit (CHR '':''), SNum 16 None, SLit (CHR '':''), SNum 16 None]) =
   [VNum 2, VNum 0, VNum 0, VNum 0, VNum 0, VNum 2]"
  by code_simp+

lemma two_ports_links:
  "collect_links (two_ports es) both_at () ''/sys/class/net'' None [''.'', ''eth0''] [] = ns_links (two_ports_snap 1)"
  "collect_links (two_ports es) both_at () ''/sys/class/net'' None [''.'', ''eth0'', ''eth1''] [] = ns_links (two_ports_snap 2)"
proof -
  have "before_slash ''/sys/class/net'' = ''/sys/class''" by (simp add: before_slash_def)
  then have "read_link (two_ports es) both_at () ''/sys/class/net'' ''eth0'' = Inr (ns_links (two_ports_snap 2) ! 0)"
    "read_link (two_ports es) both_at () ''/sys/class/net'' ''eth1'' = Inr (ns_links (two_ports_snap 2) ! 1)"
    by (simp_all add: read_link_def two_ports_devname two_ports_snap_def mkpath_def snprintf_def PATH_MAX_def)
      (simp_all add: two_ports_def file_read_string_def cstr_def strip_newlines_def two_ports_macs Let_def mkpath_def snprintf_def PATH_MAX_def)
  then show "collect_links (two_ports es) both_at () ''/sys/class/net'' None [''.'', ''eth0''] [] = ns_links (two_ports_snap 1)"
    "collect_links (two_ports es) both_at () ''/sys/class/net'' None [''.'', ''eth0'', ''eth1''] [] = ns_links (two_ports_snap 2)"
    by (simp_all add: NETSNAP_MAX_LINKS_def strlist_contains_def) (simp_all add: two_ports_snap_def)
qed

lemma two_ports_collect:
  "netsnap_collect (two_ports [''.'', ''eth0'']) both_at (\<lambda>m. 0) empty_dumps () ''/sys/class/net'' None = Some (None, two_ports_snap 1)"
  "netsnap_collect (two_ports [''.'', ''eth0'', ''eth1'']) both_at (\<lambda>m. 0) empty_dumps () ''/sys/class/net'' None = Some (None, two_ports_snap 2)"
proof -
  have "rtnl_dump 4 None [Inr (dump_end 5)] t cb c = (Some None, c)" for t and cb :: "nlmsg \<Rightarrow> netsnap \<Rightarrow> rc \<times> netsnap" and c
    by (simp add: rtnl_dump_def send_req_def dump_end_split)
  moreover have "rtnl_dump 5 None [Inr (dump_end 6)] t cb c = (Some None, c)" for t and cb :: "nlmsg \<Rightarrow> netsnap \<Rightarrow> rc \<times> netsnap" and c
    by (simp add: rtnl_dump_def send_req_def dump_end_split)
  moreover have "sys_readdir (two_ports es) () p = Inr es" for es p by (simp add: two_ports_def)
  ultimately show "netsnap_collect (two_ports [''.'', ''eth0'']) both_at (\<lambda>m. 0) empty_dumps () ''/sys/class/net'' None = Some (None, two_ports_snap 1)"
    "netsnap_collect (two_ports [''.'', ''eth0'', ''eth1'']) both_at (\<lambda>m. 0) empty_dumps () ''/sys/class/net'' None = Some (None, two_ports_snap 2)"
    by (simp_all add: netsnap_collect_def two_ports_links empty_dumps_def del: collect_links.simps) (simp_all add: two_ports_snap_def)
qed

theorem collected_identity_read_back_witness:
  "netsnap_text (two_ports [''.'', ''eth0'']) both_at (\<lambda>m. 0) empty_dumps () None 120 = Some (Inr (1, two_ports_text 1)) \<and>
   netsnap_parse (two_ports_text 1) = (None, sent_snap (two_ports_snap 1)) \<and>
   netsnap_text (two_ports [''.'', ''eth0'', ''eth1'']) both_at (\<lambda>m. 0) empty_dumps () None 120 = Some (Inr (2, two_ports_text 2)) \<and>
   fst (netsnap_parse (two_ports_text 2)) = Some EINVAL"
proof -
  have "fst (netsnap_format (two_ports_snap 1) 120) = Inr (length (two_ports_text 1))"
    "fst (netsnap_format (two_ports_snap 2) 120) = Inr (length (two_ports_text 2))" by code_simp+
  then have "netsnap_format (two_ports_snap 1) 120 = (Inr (length (two_ports_text 1)), two_ports_text 1)"
    "netsnap_format (two_ports_snap 2) 120 = (Inr (length (two_ports_text 2)), two_ports_text 2)"
    by (simp_all add: two_ports_text_def prod_eq_iff)
  moreover have "length (ns_links (two_ports_snap 1)) = 1" "length (ns_links (two_ports_snap 2)) = 2"
    by (simp_all add: two_ports_snap_def)
  ultimately have t: "netsnap_text (two_ports [''.'', ''eth0'']) both_at (\<lambda>m. 0) empty_dumps () None 120 = Some (Inr (1, two_ports_text 1))"
    "netsnap_text (two_ports [''.'', ''eth0'', ''eth1'']) both_at (\<lambda>m. 0) empty_dumps () None 120 = Some (Inr (2, two_ports_text 2))"
    by (simp_all add: netsnap_text_def two_ports_collect)
  have names: "list_all no_space es'" if "sys_readdir (two_ports es) () ''/sys/class/net'' = Inr es'" "list_all no_space es" for es es'
    using that by (simp add: two_ports_def)
  have plain: "list_all no_space [''.'', ''eth0'']" "list_all no_space [''.'', ''eth0'', ''eth1'']"
    by (simp_all add: no_space_def isspace_lit)
  have dumps: "dump_ok (\<lambda>m. 0) (dp_addrs empty_dumps)" "dump_ok (\<lambda>m. 0) (dp_routes empty_dumps)"
    by (simp_all add: dump_ok_def empty_dumps_def dump_end_split msg_ok_def le_at_def le_val_def be_val_def)
  have "distinct (map nl_pci (ns_links (two_ports_snap 1)))" "\<not> distinct (map nl_pci (ns_links (two_ports_snap 2)))"
    by (simp_all add: two_ports_snap_def)
  then show ?thesis
    using collected_identity_read_back [OF two_ports_collect(1) t(1) _ names [OF _ plain(1)] dumps]
      collected_identity_read_back [OF two_ports_collect(2) t(2) _ names [OF _ plain(2)] dumps] t by simp
qed

end
