(* ===== verification/Spec2Isabelle.thy ===== *)
theory Spec2Isabelle
  imports Daemon_Trace Handover Standby Netsnap_Collect
begin

text \<open>
  \<^bold>\<open>kmorph\<close>: a running kernel (the predecessor) arms a second kernel (the
  successor) on the same machine; the daemon kmorphd in the successor probes
  the predecessor and, when it falls silent or hands over, fences it and takes
  the machine over: memory, CPUs, PCI devices, IOMMUs and the network identity,
  after dumping the predecessor's memory.

  \<^bold>\<open>The parts and their theories.\<close>

  \<^item> \<open>Kmorph_Prelude\<close>, \<open>Cstdio\<close>, \<open>Inet\<close>: what the C library gives: error
    numbers, allocation that may fail, counted loops that stop at an error,
    \<open>strtoull\<close>, \<open>snprintf\<close> with its buffer size, \<open>sscanf\<close> as a list of
    directives, \<open>inet_ntop\<close> and \<open>inet_pton\<close>.
  \<^item> \<open>Ranges\<close> (lib/ranges.c): sets of address ranges on 64-bit words.
  \<^item> \<open>Parse\<close>, \<open>Config\<close>, \<open>Request\<close> (lib/parse.c, lib/config.c, lib/request.c):
    sizes, durations, CPU lists, the configuration file, and the line protocol
    between the two kernels.
  \<^item> \<open>Sysio\<close> (lib/file.c): reading and writing files against scripts of short,
    interrupted and failing system calls; the record \<open>sys\<close> of file operations on
    a world.
  \<^item> \<open>Memory\<close> (lib/iomem.c, lib/memblock.c, lib/takeable.c), \<open>Pci\<close> (lib/pci.c),
    \<open>Mkfs\<close> (lib/mkfs.c): the machine's memory, PCI functions through sysfs, and
    the multikernel filesystem.
  \<^item> \<open>Fdt_Writer\<close>, \<open>Fdt_Reader\<close> (lib/fdt, lib/fdtutil.c): flattened device
    trees, written as items of a sequential writer and read from bytes.  On them
    \<open>Dt\<close> (lib/dt.c, lib/host_tree.c), \<open>Dt_Read\<close> and \<open>Devtree\<close> (lib/devtree.c).
  \<^item> \<open>Elfcore\<close>, \<open>Dump\<close> (lib/elfcore.c, lib/dump.c): the core file and writing it.
  \<^item> \<open>Rtnl\<close>, \<open>Netsnap\<close>, \<open>Netsnap_Text\<close>, \<open>Netsnap_Collect\<close> (lib/rtnl.c,
    lib/netsnap.c): route netlink messages, the network identity, putting it
    back, its text in both directions, and collecting it from sysfs and netlink
    dumps.  \<open>Devname\<close> (lib/devname.c): the PCI function under a device name.
  \<^item> \<open>Takeover\<close> (kmorphd/takeover.c): the state machine, over any table of
    operations; \<open>Ops\<close> (kmorphd/ops.c): the operations on the kernel.
  \<^item> \<open>Host\<close> (lib/probe.c, lib/vsock.c, lib/mksys.c, kmorphd/console.c): sockets,
    clocks, terminals and the multikernel system calls; \<open>Daemon\<close>
    (kmorphd/main.c): the daemon around the machine, up to its event loop;
    \<open>Daemon_Trace\<close>: the same daemon on a host and a kernel that record what is
    done to them; \<open>Handover\<close>: the daemon that is handed the machine.
  \<^item> \<open>Standby\<close> (kmorphd/standby.c, kmorphd/init.c and the rest of
    kmorphd/main.c): the filesystems of an init, entering the standby image, the
    command line, and the process that waits for the takeover.

  \<^bold>\<open>How code becomes definitions.\<close>  A struct is a record, an enum a datatype, a
  fixed-width integer a word, a C string or a buffer a list of characters.  A
  function that returns 0 or \<open>-errno\<close> returns an \<open>rc\<close> (\<open>None\<close> for 0); one that
  returns a value or \<open>-errno\<close> returns \<open>'a res\<close>.  \<open>malloc\<close> asks the argument \<open>ok\<close>
  whether so many bytes are there; the answer depends on the size only.  System
  calls are fields of the records \<open>sys\<close>, \<open>kern\<close>, \<open>host\<close> and \<open>standby_env\<close> over a
  type \<open>'w\<close> of worlds; they are arguments of the definitions, may answer
  anything, and nothing is assumed of them unless a theorem says so.  A daemon
  carries its world in the context of its takeover.  A world paired with a list
  of \<open>io\<close> events, with the wrappers \<open>log_sys\<close>, \<open>log_kern\<close>, \<open>log_net\<close> and
  \<open>log_host\<close> around the calls, is a world that records every access that
  changes the machine, a fence with its target.

  \<^bold>\<open>What the lemmas show.\<close>

  \<^item> Order and safety: nothing of the machine is touched before a fence of the
    predecessor succeeded (\<open>Ops\<close> for the operations, \<open>Daemon_Trace\<close> for the
    whole daemon); the calls of the machine follow the protocol, it fences
    exactly after the configured silences and then completes (\<open>Takeover\<close>);
    IOMMUs are claimed between the resets and the drivers (\<open>Ops\<close>); a failed
    fence is tried at most once more (\<open>Daemon\<close>); a handover is taken as if no
    dump were configured (\<open>Handover\<close>); entering the image is undone on failure
    (\<open>Standby\<close>).
  \<^item> Memory: the operations of a range set are those of sets of addresses, with
    the condition of each error (\<open>Ranges\<close>); what is taken is the machine's
    memory less what is held or kept for the next pool (\<open>Memory\<close>, \<open>Ops\<close>).
  \<^item> The dump: a dump that reports success holds every byte and every note where
    its headers say, the same on a file and on a pipe, and a dump on a healthy
    system succeeds (\<open>Elfcore\<close>, \<open>Dump\<close>).
  \<^item> Texts: numbers, lists, configuration, requests, pool claim, network identity
    and netlink attributes are read back as they were written, and what a peer
    sends is parsed to something well formed (\<open>Parse\<close>, \<open>Config\<close>, \<open>Request\<close>,
    \<open>Memory\<close>, \<open>Netsnap_Text\<close>, \<open>Netsnap_Collect\<close>, \<open>Rtnl\<close>, \<open>Inet\<close>); a flag word
    is read as it was meant (\<open>Host\<close>); a name resolves to the nearest function
    (\<open>Devname\<close>).
  \<^item> Device trees: a tree that is built emits the calls of the tree it describes,
    and the builder grows its buffer until they fit (\<open>Fdt_Writer\<close>, \<open>Dt\<close>); the
    readers of a blob end on every input (\<open>Fdt_Reader\<close>).

  The locales are the interfaces between parts: \<open>interval_store\<close> (\<open>Ranges\<close>, for
  its clients), \<open>line_codec\<close> (\<open>Request\<close>), \<open>tree_writer\<close> (\<open>Fdt_Writer\<close>) and
  \<open>takeover_actions\<close> (\<open>Takeover\<close>, interpreted in \<open>Ops\<close>, \<open>Daemon_Trace\<close> and
  \<open>Handover\<close>).

  \<^bold>\<open>Loops and bounds.\<close>  No loop has fuel.  Loops over lists and counters are
  structural or have a measure: the bytes left, the write results left, the room
  left in a buffer, the time left to wait; a script of system call results that
  is used up stands for calls that move everything.  The two loops that may run
  forever, the event loop and the wait for the takeover, are partial functions;
  the theorems on the daemon are about every state the event loop reaches.
  Buffer sizes and limits are those of the code: 4096 for paths, 16 for names,
  one megabyte for notes, 65534 ranges in a core file.  Lengths are natural
  numbers where the code's \<open>size_t\<close> cannot wrap, words elsewhere.

  \<^bold>\<open>Not modelled.\<close>  The arming tool and the client commands (kmorph/) with what
  only they call (lib/cpio.c, lib/madt.c, lib/vmlinux.c, lib/elf.c, the scanner
  of lib/crashinfo.c): sequences of file operations and external programs around
  the parts above.  Logging.  What the login child does to its own process.
  Opening a netlink socket.  The functions of libfdt that kmorph does not call.
  Mounting the multikernel filesystem is one call.  The child that resets
  devices runs in steps of one device, in any order the kernel chooses.  When
  several descriptors of the daemon fail to open, the error is the one of the
  last call that failed.
\<close>

end
